(* ===== verification/WT_Prelude.thy ===== *)
theory WT_Prelude
  imports Main "HOL-Library.Word" "HOL-Library.AList"
begin

text \<open>
  Shared vocabulary of the webtransport-go development: the machine integers of the Go code,
  Go's byte strings, the rendering of decimal numbers in error messages, association lists
  for Go maps, and a generic notion of reachability used by the concurrent components.

  \<^item> \<open>uint32\<close>, \<open>uint64\<close> are words (\<open>u32\<close>, \<open>u64\<close>): their arithmetic wraps around.
  \<^item> \<open>int64\<close> is an \<open>int\<close> (\<open>i64\<close>); every Go operation that could overflow is
    wrapped explicitly with \<open>wrap64\<close>.
  \<^item> \<open>[]byte\<close> is a list of 8-bit words, \<open>string\<close> a list of 8-bit characters (a Go string is
    an immutable byte sequence).
  \<^item> A Go map is an association list with distinct keys; the order of the list stands for one
    (arbitrary) iteration order, and no theorem depends on it. A nil map is \<open>None\<close>.
\<close>

section \<open>Types\<close>

type_synonym byte = "8 word"
type_synonym bytes = "8 word list"
type_synonym u32 = "32 word"
type_synonym u64 = "64 word"
type_synonym i64 = int

text \<open>The collections that carry the component proofs.\<close>

named_theorems wt_defs \<open>definitions of the operations, for case analysis of one step\<close>
named_theorems wt_inv \<open>invariant preservation, one fact per operation\<close>

section \<open>Signed 64-bit arithmetic\<close>

definition wrap64 :: "int \<Rightarrow> i64" where
  "wrap64 x = (x + 2 ^ 63) mod 2 ^ 64 - 2 ^ 63"

definition in_i64 :: "int \<Rightarrow> bool" where
  "in_i64 x \<longleftrightarrow> - (2 ^ 63) \<le> x \<and> x < 2 ^ 63"

lemma wrap64_id: "in_i64 x \<Longrightarrow> wrap64 x = x"
  by (simp add: in_i64_def wrap64_def)

lemma wrap64_in_i64 [simp]: "in_i64 (wrap64 x)"
proof -
  have "0 \<le> (x + 2 ^ 63) mod 2 ^ 64" "(x + 2 ^ 63) mod 2 ^ 64 < (2 ^ 64 :: int)"
    by simp_all
  then show ?thesis by (simp add: wrap64_def in_i64_def)
qed

text \<open>Truncated division by four, Go's \<open>x/4\<close> on \<open>int64\<close>.\<close>

definition go_div4 :: "i64 \<Rightarrow> i64" where
  "go_div4 x = (if 0 \<le> x then x div 4 else - ((- x) div 4))"

lemma go_div4_bounds: "0 \<le> x \<Longrightarrow> 0 \<le> go_div4 x \<and> 4 * go_div4 x \<le> x"
  unfolding go_div4_def by simp linarith

section \<open>Unsigned 64-bit arithmetic\<close>

lemma unat_add_1_less: "n < m \<Longrightarrow> unat (n + 1) = Suc (unat n)" for n m :: "'a::len word"
proof -
  assume "n < m"
  then have "1 + n \<noteq> 0"
    by (metis add.commute add_diff_cancel diff_0 linorder_not_less word_n1_ge)
  from unatSuc [OF this] show ?thesis by (simp add: add.commute)
qed

lemma unat_sub_1_pos: "0 < n \<Longrightarrow> unat (n - 1) = unat n - 1" for n :: "'a::len word"
  by (simp add: unat_minus_one word_neq_0_conv)

lemma unat_u64_bound: "unat (x :: u64) < 2 ^ 64"
proof -
  have "unat x < 2 ^ LENGTH(64)" by (rule unsigned_less)
  then show ?thesis by simp
qed

lemma unat_u32_bound: "unat (x :: u32) < 2 ^ 32"
proof -
  have "unat x < 2 ^ LENGTH(32)" by (rule unsigned_less)
  then show ?thesis by simp
qed

lemma unat_ucast_32_64: "unat (ucast (n :: u32) :: u64) = unat n"
  using unat_u32_bound [of n] by (simp add: unsigned_ucast_eq take_bit_eq_mod)

lemma unat_ucast_64_32: "unat (ucast (n :: u64) :: u32) = unat n mod 2 ^ 32"
  by (simp add: unsigned_ucast_eq take_bit_eq_mod unat_word_ariths)

lemma unat_minus_le: "b \<le> a \<Longrightarrow> unat (a - b) = unat a - unat b" for a b :: "'a::len word"
  by (rule unat_sub)

lemma word_eq_unatI: "unat a = unat b \<Longrightarrow> a = b" for a b :: "'a::len word"
  by (simp add: word_unat_eq_iff)

section \<open>Strings and bytes\<close>

definition byte_of_char :: "char \<Rightarrow> byte" where
  "byte_of_char c = word_of_nat (of_char c)"

definition char_of_byte :: "byte \<Rightarrow> char" where
  "char_of_byte b = char_of (unat b)"

definition bytes_of_string :: "string \<Rightarrow> bytes" where
  "bytes_of_string = map byte_of_char"

definition string_of_bytes :: "bytes \<Rightarrow> string" where
  "string_of_bytes = map char_of_byte"

lemma char_of_byte_of_char [simp]: "char_of_byte (byte_of_char c) = c"
proof -
  have "of_char c < (256 :: nat)" by simp
  then show ?thesis
    by (simp add: char_of_byte_def byte_of_char_def unat_of_nat)
qed

lemma byte_of_char_of_byte [simp]: "byte_of_char (char_of_byte b) = b"
proof -
  have "unat b < 2 ^ LENGTH(8)" by (rule unsigned_less)
  then show ?thesis
    by (simp add: char_of_byte_def byte_of_char_def)
qed

lemma string_of_bytes_of_string [simp]: "string_of_bytes (bytes_of_string s) = s"
  by (simp add: string_of_bytes_def bytes_of_string_def map_idI)

lemma bytes_of_string_of_bytes [simp]: "bytes_of_string (string_of_bytes b) = b"
  by (simp add: string_of_bytes_def bytes_of_string_def map_idI)

lemma length_bytes_of_string [simp]: "length (bytes_of_string s) = length s"
  by (simp add: bytes_of_string_def)

lemma length_string_of_bytes [simp]: "length (string_of_bytes s) = length s"
  by (simp add: string_of_bytes_def)

lemma take_bytes_of_string: "take n (bytes_of_string s) = bytes_of_string (take n s)"
  by (simp add: bytes_of_string_def take_map)

lemma take_string_of_bytes: "take n (string_of_bytes s) = string_of_bytes (take n s)"
  by (simp add: string_of_bytes_def take_map)

text \<open>The verb \<open>%d\<close> of \<open>fmt\<close>: decimal digits, with a sign for negative values.\<close>

definition digit_char :: "nat \<Rightarrow> char" where
  "digit_char d = char_of (48 + d)"

fun show_nat :: "nat \<Rightarrow> string" where
  "show_nat n = (if n < 10 then [digit_char n] else show_nat (n div 10) @ [digit_char (n mod 10)])"

declare show_nat.simps [simp del]

definition show_int :: "int \<Rightarrow> string" where
  "show_int x = (if x < 0 then ''-'' @ show_nat (nat (- x)) else show_nat (nat x))"

section \<open>Network byte order\<close>

text \<open>The \<open>k\<close> bytes of a number, most significant first, and the number they stand for.\<close>

primrec be_bytes :: "nat \<Rightarrow> nat \<Rightarrow> bytes" where
  "be_bytes 0 n = []"
| "be_bytes (Suc k) n = of_nat (n div 256 ^ k) # be_bytes k (n mod 256 ^ k)"

definition be_value :: "bytes \<Rightarrow> nat" where
  "be_value = foldl (\<lambda>acc b. acc * 256 + unat b) 0"

lemma length_be_bytes [simp]: "length (be_bytes k n) = k"
  by (induction k arbitrary: n) simp_all

lemma foldl_be_bytes:
  "n < 256 ^ k \<Longrightarrow> foldl (\<lambda>acc b. acc * 256 + unat b) acc (be_bytes k n) = acc * 256 ^ k + n"
proof (induction k arbitrary: n acc)
  case 0
  then show ?case by simp
next
  case (Suc k)
  have "n div 256 ^ k < 256" using Suc.prems by (simp add: less_mult_imp_div_less)
  then have "unat (of_nat (n div 256 ^ k) :: byte) = n div 256 ^ k" by (simp add: unat_of_nat)
  moreover have "(acc * 256 + n div 256 ^ k) * 256 ^ k + n mod 256 ^ k = acc * 256 ^ Suc k + n"
    by (simp only: add_mult_distrib add.assoc div_mult_mod_eq power_Suc mult.assoc)
  ultimately show ?case using Suc.IH [of "n mod 256 ^ k"] by simp
qed

lemma be_value_be_bytes: "n < 256 ^ k \<Longrightarrow> be_value (be_bytes k n) = n"
  by (simp add: be_value_def foldl_be_bytes)

section \<open>Association lists as Go maps\<close>

lemma length_alist_update:
  "length (AList.update k v m) = (if k \<in> fst ` set m then length m else Suc (length m))"
  by (induction m) auto

lemma length_alist_delete:
  "distinct (map fst m) \<Longrightarrow> k \<in> fst ` set m \<Longrightarrow> Suc (length (AList.delete k m)) = length m"
proof (induction m)
  case Nil
  then show ?case by simp
next
  case (Cons a m)
  show ?case
  proof (cases "fst a = k")
    case True
    with Cons.prems have "k \<notin> fst ` set m" by auto
    then have "AList.delete k m = m" by (rule AList.delete_id)
    with True show ?thesis by (cases a) (simp add: AList.delete_eq)
  next
    case False
    with Cons show ?thesis by (auto simp: AList.delete_eq)
  qed
qed

lemma map_of_None_iff: "map_of m k = None \<longleftrightarrow> k \<notin> fst ` set m"
  by (rule map_of_eq_None_iff)

section \<open>Strictly increasing lists\<close>

lemma sorted_wrt_less_last:
  "sorted_wrt (<) xs \<Longrightarrow> x \<in> set xs \<Longrightarrow> x \<le> last xs" for x :: "'a::order"
  by (induction xs rule: rev_induct) (auto simp: sorted_wrt_append)

section \<open>Reachability\<close>

text \<open>
  The states of a concurrent component that a run of steps can reach, and the invariant rule:
  what holds at the start and is kept by every step holds in every reachable state.
\<close>

inductive reach :: "('s \<Rightarrow> bool) \<Rightarrow> ('s \<Rightarrow> 's \<Rightarrow> bool) \<Rightarrow> 's \<Rightarrow> bool" for I R where
  reach_init: "I s \<Longrightarrow> reach I R s"
| reach_step: "reach I R s \<Longrightarrow> R s t \<Longrightarrow> reach I R t"

lemma reach_invariant:
  assumes "reach I R s"
    and "\<And>s. I s \<Longrightarrow> P s"
    and "\<And>s t. reach I R s \<Longrightarrow> P s \<Longrightarrow> R s t \<Longrightarrow> P t"
  shows "P s"
  using assms(1) by (induction rule: reach.induct) (auto intro: assms(2,3))

section \<open>Refinement\<close>

text \<open>
  A component refines a specification when a relation between their states is a forward simulation:
  it holds at the start, and each step of the component is one step of the specification or does not
  change its state. Then the relation holds along every run, and what is true of every reachable state
  of the specification holds, through the relation, of the component.
\<close>

locale simulation =
  fixes init :: "'s \<Rightarrow> bool" and step :: "'s \<Rightarrow> 's \<Rightarrow> bool"
    and spec_init :: "'a \<Rightarrow> bool" and spec_step :: "'a \<Rightarrow> 'a \<Rightarrow> bool"
    and rel :: "'s \<Rightarrow> 'a \<Rightarrow> bool"
  assumes sim_init: "init s \<Longrightarrow> \<exists>a. spec_init a \<and> rel s a"
    and sim_step: "reach init step s \<Longrightarrow> rel s a \<Longrightarrow> step s t \<Longrightarrow> \<exists>b. (b = a \<or> spec_step a b) \<and> rel t b"
begin

lemma sim_reach:
  assumes "reach init step s"
  shows "\<exists>a. reach spec_init spec_step a \<and> rel s a"
  using assms
proof (induction rule: reach.induct)
  case (reach_init s)
  then show ?case using sim_init reach.reach_init by metis
next
  case (reach_step s t)
  then show ?case using sim_step reach.reach_step by metis
qed

lemma sim_transfer:
  assumes "reach init step s" and "\<And>a. reach spec_init spec_step a \<Longrightarrow> rel s a \<Longrightarrow> P"
  shows P
  using sim_reach [OF assms(1)] assms(2) by blast

end

end
