(* ===== verification/WT_Errors.thy ===== *)
theory WT_Errors
  imports WT_Prelude
begin

text \<open>
  The error values of webtransport-go (\<open>errors.go\<close>) and their conversion at the stream
  boundary (\<open>maybeConvertStreamError\<close> and \<open>isTimeoutError\<close> of \<open>stream.go\<close>).

  Go's \<open>error\<close> interface is the datatype \<open>go_error\<close>: one constructor per error type the
  code creates or inspects, \<open>ENew\<close> for \<open>errors.New\<close>, \<open>EWrap\<close> for \<open>fmt.Errorf\<close> with \<open>%w\<close>
  (the formatted text and the wrapped error), and \<open>EOther\<close> for an error of another package
  that the code only passes on. \<open>errors.As\<close> is a walk along the \<open>EWrap\<close> chain.
  The theorems show that the two error-code mappings are inverse to each other, on exactly
  the non-reserved codes of the range.
\<close>

section \<open>Error codes\<close>

definition firstErrorCode :: u64 where
  "firstErrorCode = 0x52e4a40fa8db"

definition lastErrorCode :: u64 where
  "lastErrorCode = 0x52e5ac983162"

definition WTBufferedStreamRejectedErrorCode :: u64 where
  "WTBufferedStreamRejectedErrorCode = 0x3994bd84"

definition WTSessionGoneErrorCode :: u64 where
  "WTSessionGoneErrorCode = 0x170d7b68"

definition WTFlowControlErrorCode :: u64 where
  "WTFlowControlErrorCode = 0x045d4487"

definition WTRequirementsNotMetErrorCode :: u64 where
  "WTRequirementsNotMetErrorCode = 0x212c0d48"

definition WTALPNErrorCode :: u32 where
  "WTALPNErrorCode = 0x0817b3dd"

section \<open>Error values\<close>

record StreamError =
  se_ErrorCode :: u32
  se_Remote :: bool

record SessionError =
  sess_Remote :: bool
  sess_ErrorCode :: u32
  sess_Message :: string

text \<open>The error structs of quic-go that the code builds or takes apart.\<close>

record quic_StreamError =
  qse_StreamID :: int
  qse_ErrorCode :: u64
  qse_Remote :: bool

record http3_Error =
  h3_Remote :: bool
  h3_ErrorCode :: u64
  h3_ErrorMessage :: string

datatype go_error =
    EStream StreamError
  | ESession SessionError
  | ERequirementsNotMet string
  | EStreamLimitReached
  | EQuicStream quic_StreamError
  | EHttp3 http3_Error
  | EDeadlineExceeded
  | ECanceled
  | ECtxDeadlineExceeded
  | EWriteLimitReached
  | EEOF
  | EUnexpectedEOF
  | EServerClosed
  | ENetError bool string
  | ENew string
  | EWrap string go_error
  | EOther string

text \<open>
  The text of an error. For the types of this package it is what their \<open>Error\<close> method
  returns; the texts of the other packages' error types are the parameter \<open>ext\<close>.
\<close>

fun go_Error :: "(go_error \<Rightarrow> string) \<Rightarrow> go_error \<Rightarrow> string" where
  "go_Error ext (EStream e) = ''stream canceled with error code '' @ show_nat (unat (se_ErrorCode e))"
| "go_Error ext (ESession e) = sess_Message e"
| "go_Error ext (ERequirementsNotMet m) = m"
| "go_Error ext EStreamLimitReached = ''too many open streams''"
| "go_Error ext (ENew m) = m"
| "go_Error ext (EWrap m e) = m"
| "go_Error ext e = ext e"

definition StreamError_Is :: "StreamError \<Rightarrow> go_error \<Rightarrow> bool" where
  "StreamError_Is e target =
     (case target of EStream t \<Rightarrow> se_Remote t = se_Remote e \<and> se_ErrorCode t = se_ErrorCode e
      | _ \<Rightarrow> False)"

definition SessionError_Is :: "SessionError \<Rightarrow> go_error \<Rightarrow> bool" where
  "SessionError_Is e target =
     (case target of ESession t \<Rightarrow> sess_ErrorCode e = sess_ErrorCode t \<and> sess_Remote e = sess_Remote t
      | _ \<Rightarrow> False)"

text \<open>\<open>errors.As\<close> at the types the code asks for, \<open>errors.Is\<close> at a sentinel.\<close>

fun as_quic_StreamError :: "go_error \<Rightarrow> quic_StreamError option" where
  "as_quic_StreamError (EQuicStream e) = Some e"
| "as_quic_StreamError (EWrap _ e) = as_quic_StreamError e"
| "as_quic_StreamError _ = None"

fun as_http3_Error :: "go_error \<Rightarrow> http3_Error option" where
  "as_http3_Error (EHttp3 e) = Some e"
| "as_http3_Error (EWrap _ e) = as_http3_Error e"
| "as_http3_Error _ = None"

fun as_RequirementsNotMet :: "go_error \<Rightarrow> string option" where
  "as_RequirementsNotMet (ERequirementsNotMet m) = Some m"
| "as_RequirementsNotMet (EWrap _ e) = as_RequirementsNotMet e"
| "as_RequirementsNotMet _ = None"

fun errors_Is :: "go_error \<Rightarrow> go_error \<Rightarrow> bool" where
  "errors_Is (EWrap m e) t = (EWrap m e = t \<or> errors_Is e t)"
| "errors_Is (EStream e) t = (EStream e = t \<or> StreamError_Is e t)"
| "errors_Is (ESession e) t = (ESession e = t \<or> SessionError_Is e t)"
| "errors_Is e t = (e = t)"

section \<open>Mapping application error codes to HTTP/3 error codes\<close>

definition webtransportCodeToHTTPCode :: "u32 \<Rightarrow> u64" where
  "webtransportCodeToHTTPCode n = firstErrorCode + ucast n + ucast (n div 0x1e)"

definition httpCodeToWebtransportCode :: "u64 \<Rightarrow> go_error + u32" where
  "httpCodeToWebtransportCode h =
     (if h < firstErrorCode \<or> h > lastErrorCode
      then Inl (ENew ''error code outside of expected range'')
      else if (h - 0x21) mod 0x1f = 0 then Inl (ENew ''invalid error code'')
      else let shifted = h - firstErrorCode in Inr (ucast (shifted - shifted div 0x1f)))"

section \<open>Conversion at the stream boundary\<close>

definition maybeConvertStreamError :: "go_error option \<Rightarrow> go_error option" where
  "maybeConvertStreamError err =
     (case err of
        None \<Rightarrow> None
      | Some e \<Rightarrow>
         (case as_quic_StreamError e of
            Some streamErr \<Rightarrow>
              (case httpCodeToWebtransportCode (qse_ErrorCode streamErr) of
                 Inl cerr \<Rightarrow>
                   Some (EWrap (''stream reset, but failed to convert stream error ''
                                @ show_nat (unat (qse_ErrorCode streamErr)) @ '': ''
                                @ go_Error (\<lambda>_. '''') cerr) cerr)
               | Inr errorCode \<Rightarrow>
                   Some (EStream \<lparr>se_ErrorCode = errorCode, se_Remote = qse_Remote streamErr\<rparr>))
          | None \<Rightarrow> Some e))"

fun isTimeoutError :: "go_error \<Rightarrow> bool" where
  "isTimeoutError EDeadlineExceeded = True"
| "isTimeoutError ECtxDeadlineExceeded = True"
| "isTimeoutError (ENetError timeout _) = timeout"
| "isTimeoutError _ = False"

section \<open>The code mappings are inverse\<close>

lemma unat_webtransportCodeToHTTPCode:
  "unat (webtransportCodeToHTTPCode n) = 0x52e4a40fa8db + unat n + unat n div 30"
proof -
  have "unat n < 2 ^ 32" by (rule unat_u32_bound)
  then show ?thesis
    by (simp add: webtransportCodeToHTTPCode_def firstErrorCode_def unat_word_ariths
        unat_ucast_32_64 unat_div)
qed

lemma grease_residue: "(0x52e4a40fa8ba + s) mod 31 = 0 \<longleftrightarrow> s mod 31 = (30 :: nat)"
proof -
  have "(0x52e4a40fa8ba + s) mod 31 = (0x52e4a40fa8ba mod 31 + s) mod (31 :: nat)"
    by (simp only: mod_add_left_eq)
  also have "\<dots> = Suc s mod 31" by simp
  also have "\<dots> = 0 \<longleftrightarrow> s mod 31 = 30" by (simp add: mod_Suc)
  finally show ?thesis .
qed

text \<open>The arithmetic of the mapping: 31 slots carry 30 codes, the last slot is reserved.\<close>

lemma slot_arith: "s mod 31 \<noteq> 30 \<and> n = s - s div 31 \<longleftrightarrow> s = n + n div (30 :: nat)"
proof
  assume l: "s mod 31 \<noteq> 30 \<and> n = s - s div 31"
  define q r where "q = s div 31" and "r = s mod 31"
  have "s = 31 * q + r" by (simp add: q_def r_def)
  have "s mod 31 < 31" by simp
  with l have "r < 30" unfolding r_def by linarith
  from \<open>s = 31 * q + r\<close> \<open>r < 30\<close> l have "n = 30 * q + r" by simp
  with \<open>r < 30\<close> \<open>s = 31 * q + r\<close> show "s = n + n div 30" by simp
next
  assume r: "s = n + n div 30"
  define q r where "q = n div 30" and "r = n mod 30"
  have "n = 30 * q + r" by (simp add: q_def r_def)
  moreover have "r < 30" by (simp add: r_def)
  ultimately have s: "s = 31 * q + r" using r by (simp add: q_def [symmetric])
  with \<open>r < 30\<close> have "s div 31 = q" "s mod 31 = r" by simp_all
  with \<open>r < 30\<close> s \<open>n = 30 * q + r\<close> show "s mod 31 \<noteq> 30 \<and> n = s - s div 31" by simp
qed

lemma grease_iff:
  assumes "firstErrorCode \<le> h"
  shows "(h - 0x21) mod 0x1f = 0 \<longleftrightarrow> (unat h - unat firstErrorCode) mod 31 = 30"
proof -
  from assms have h: "0x52e4a40fa8db \<le> unat h"
    by (simp add: word_le_nat_alt firstErrorCode_def)
  then have "unat (h - 0x21) = unat h - 0x21"
    by (subst unat_minus_le) (simp_all add: word_le_nat_alt)
  then have "(h - 0x21) mod 0x1f = 0 \<longleftrightarrow> (unat h - 0x21) mod 31 = 0"
    by (simp add: word_unat_eq_iff unat_mod)
  moreover from h have "unat h - 0x21 = 0x52e4a40fa8ba + (unat h - unat firstErrorCode)"
    by (simp add: firstErrorCode_def)
  ultimately show ?thesis by (simp only: grease_residue)
qed

lemma httpCode_Inr_iff_nat:
  "httpCodeToWebtransportCode h = Inr n \<longleftrightarrow>
     (\<exists>s. unat h = 0x52e4a40fa8db + s \<and> unat h \<le> 0x52e5ac983162 \<and> s mod 31 \<noteq> 30
        \<and> unat n = s - s div 31)"
proof (cases "h < firstErrorCode \<or> h > lastErrorCode")
  case True
  then show ?thesis
    by (auto simp: httpCodeToWebtransportCode_def word_less_nat_alt firstErrorCode_def
        lastErrorCode_def)
next
  case False
  define s where "s = unat h - unat firstErrorCode"
  from False have ge: "firstErrorCode \<le> h" and
    bnd: "unat h = 0x52e4a40fa8db + s" "unat h \<le> 0x52e5ac983162"
    by (auto simp: s_def word_less_nat_alt word_le_nat_alt firstErrorCode_def lastErrorCode_def)
  then have sh: "unat (h - firstErrorCode) = s"
    by (simp add: s_def unat_minus_le)
  have "(h - firstErrorCode) div 0x1f \<le> h - firstErrorCode"
    by (simp add: word_le_nat_alt unat_div)
  then have "unat ((h - firstErrorCode) - (h - firstErrorCode) div 0x1f) = s - s div 31"
    by (simp add: unat_minus_le sh unat_div)
  moreover have "s - s div 31 < 2 ^ 32" using bnd by simp
  ultimately have "unat (ucast ((h - firstErrorCode) - (h - firstErrorCode) div 0x1f) :: u32)
      = s - s div 31"
    by (simp add: unat_ucast_64_32)
  moreover have "(h - 0x21) mod 0x1f = 0 \<longleftrightarrow> s mod 31 = 30"
    using grease_iff [OF ge] by (simp add: s_def)
  ultimately have "httpCodeToWebtransportCode h = Inr n \<longleftrightarrow> s mod 31 \<noteq> 30 \<and> unat n = s - s div 31"
    using False by (auto simp: httpCodeToWebtransportCode_def Let_def intro: word_eq_unatI)
  with bnd show ?thesis by auto
qed

lemma httpCode_inverse:
  "httpCodeToWebtransportCode h = Inr n \<longleftrightarrow> h = webtransportCodeToHTTPCode n"
proof -
  have n: "unat n < 2 ^ 32" by (rule unat_u32_bound)
  have "httpCodeToWebtransportCode h = Inr n \<longleftrightarrow>
      unat h = 0x52e4a40fa8db + unat n + unat n div 30"
    unfolding httpCode_Inr_iff_nat slot_arith using n by auto
  then show ?thesis
    by (simp add: word_unat_eq_iff unat_webtransportCodeToHTTPCode)
qed

text \<open>
  C34. The conversion of an HTTP/3 error code succeeds with the application code \<open>n\<close> exactly
  when the HTTP/3 code is the image of \<open>n\<close>: the two mappings are inverse bijections between
  all 32-bit application codes and the codes of the range that are not reserved (greased).
\<close>

theorem error_code_bijection:
  "httpCodeToWebtransportCode h = Inr n \<longleftrightarrow> h = webtransportCodeToHTTPCode n"
  by (rule httpCode_inverse)

lemma code_not_session_gone [simp]: "webtransportCodeToHTTPCode n \<noteq> WTSessionGoneErrorCode"
proof
  assume "webtransportCodeToHTTPCode n = WTSessionGoneErrorCode"
  then have "0x52e4a40fa8db + unat n + unat n div 30 = unat WTSessionGoneErrorCode"
    by (simp flip: unat_webtransportCodeToHTTPCode)
  then show False by (simp add: WTSessionGoneErrorCode_def)
qed

end
