(* ===== verification/WT_Protocol.thy ===== *)
theory WT_Protocol
  imports WT_Errors
begin

text \<open>
  The protocol constants and checks of \<open>protocol.go\<close>, and the byte-counting reader that
  measures the length of a stream header.

  \<open>quicvarint\<close> is a package of quic-go: its functions are the parameter \<open>quicvarint\<close>, a
  record of the operations the code calls. \<open>quicvarint.Read\<close> only calls \<open>ReadByte\<close> of the reader
  it is given, so it is a \<open>byte_prog\<close>, a program over that one operation, which can be run
  against any byte reader. The locale \<open>varint_codec\<close> states what the code relies on; it is
  interpreted on the encoding of RFC 9000, section 16, which is what the package documents.
\<close>

section \<open>Constants and checks\<close>

definition settingsEnableWebtransportDraft06 :: u64 where
  "settingsEnableWebtransportDraft06 = 0x2b603742"

definition settingsWebTransportEnabled :: u64 where
  "settingsWebTransportEnabled = 0x2c7cf000"

definition settingsWebTransportMaxSessions :: u64 where
  "settingsWebTransportMaxSessions = 0x14e9cd29"

definition settingsWebTransportInitialMaxStreamsUni :: u64 where
  "settingsWebTransportInitialMaxStreamsUni = 0x2b64"

definition settingsWebTransportInitialMaxStreamsBidi :: u64 where
  "settingsWebTransportInitialMaxStreamsBidi = 0x2b65"

definition settingsWebTransportInitialMaxData :: u64 where
  "settingsWebTransportInitialMaxData = 0x2b61"

lemmas settings_ids =
  settingsEnableWebtransportDraft06_def settingsWebTransportEnabled_def
  settingsWebTransportMaxSessions_def settingsWebTransportInitialMaxStreamsUni_def
  settingsWebTransportInitialMaxStreamsBidi_def settingsWebTransportInitialMaxData_def

definition protocolHeader :: string where
  "protocolHeader = ''webtransport-h3''"

definition protocolHeaderLegacy :: string where
  "protocolHeaderLegacy = ''webtransport''"

definition isWebTransportProtocol :: "string \<Rightarrow> bool" where
  "isWebTransportProtocol s \<longleftrightarrow> s = protocolHeader \<or> s = protocolHeaderLegacy"

definition isValidSessionID :: "u64 \<Rightarrow> bool" where
  "isValidSessionID i \<longleftrightarrow> i mod 4 = 0"

text \<open>The two low bits of a QUIC stream ID say who opened the stream and in which direction.\<close>

lemma isValidSessionID_iff: "isValidSessionID i \<longleftrightarrow> 4 dvd unat i"
  by (simp add: isValidSessionID_def word_unat_eq_iff unat_mod dvd_eq_mod_eq_0)

section \<open>Byte readers\<close>

text \<open>\<open>io.ByteReader\<close>: one operation on the reader's state.\<close>

type_synonym 's byte_reader = "'s \<Rightarrow> (go_error + byte) \<times> 's"

datatype 'a byte_prog = Done "go_error + 'a" | ReadByte "(go_error + byte) \<Rightarrow> 'a byte_prog"

primrec run_prog :: "'a byte_prog \<Rightarrow> 's byte_reader \<Rightarrow> 's \<Rightarrow> (go_error + 'a) \<times> 's" where
  "run_prog (Done x) r s = (x, s)"
| "run_prog (ReadByte k) r s = (let (b, s') = r s in run_prog (k b) r s')"

text \<open>The number of successful \<open>ReadByte\<close> calls of a run.\<close>

primrec bytes_consumed :: "'a byte_prog \<Rightarrow> 's byte_reader \<Rightarrow> 's \<Rightarrow> nat" where
  "bytes_consumed (Done x) r s = 0"
| "bytes_consumed (ReadByte k) r s =
     (let (b, s') = r s in (case b of Inl _ \<Rightarrow> 0 | Inr _ \<Rightarrow> 1) + bytes_consumed (k b) r s')"

text \<open>\<open>byteCountingReader\<close>: the embedded reader's state and the counter.\<close>

record 's byteCountingReader =
  ByteReader :: 's
  BytesRead :: u64

definition byteCountingReader_ReadByte ::
  "'s byte_reader \<Rightarrow> 's byteCountingReader byte_reader" where
  "byteCountingReader_ReadByte r c =
     (let (b, s') = r (ByteReader c); c' = c\<lparr>ByteReader := s'\<rparr>
      in case b of
           Inl err \<Rightarrow> (Inl err, c')
         | Inr x \<Rightarrow> (Inr x, c'\<lparr>BytesRead := BytesRead c' + 1\<rparr>))"

lemma counting_ReadByte:
  "r (ByteReader c) = (b, s') \<Longrightarrow>
     byteCountingReader_ReadByte r c =
       (b, c\<lparr>ByteReader := s', BytesRead := BytesRead c + (case b of Inl _ \<Rightarrow> 0 | Inr _ \<Rightarrow> 1)\<rparr>)"
  by (cases c; cases b) (simp_all add: byteCountingReader_ReadByte_def)

lemma run_prog_counting:
  "run_prog p (byteCountingReader_ReadByte r) c =
     (let (x, s) = run_prog p r (ByteReader c)
      in (x, c\<lparr>ByteReader := s, BytesRead := BytesRead c + of_nat (bytes_consumed p r (ByteReader c))\<rparr>))"
proof (induction p arbitrary: c)
  case (Done x)
  then show ?case by simp
next
  case (ReadByte k)
  obtain b s' where r: "r (ByteReader c) = (b, s')" by fastforce
  show ?case
    by (cases b) (simp_all add: r counting_ReadByte [of r, OF r] ReadByte.IH [OF rangeI] split: prod.split)
qed

section \<open>Reading from a list of bytes\<close>

text \<open>A reader over bytes that are all there: it ends with \<open>io.EOF\<close>.\<close>

fun list_reader :: "bytes byte_reader" where
  "list_reader [] = (Inl EEOF, [])"
| "list_reader (b # bs) = (Inr b, bs)"

lemma list_reader_consumed:
  "length bs = bytes_consumed p list_reader bs + length (snd (run_prog p list_reader bs))"
proof (induction p arbitrary: bs)
  case (Done x)
  then show ?case by simp
next
  case (ReadByte k)
  show ?case
    by (cases bs) (simp_all add: ReadByte.IH [OF rangeI, symmetric])
qed

section \<open>Variable-length integers\<close>

record quicvarint =
  vi_Append :: "bytes \<Rightarrow> u64 \<Rightarrow> bytes option"
  vi_Len :: "u64 \<Rightarrow> nat option"
  vi_Read :: "u64 byte_prog"

definition quicvarint_Max :: u64 where
  "quicvarint_Max = 4611686018427387903"

definition vi_enc :: "quicvarint \<Rightarrow> u64 \<Rightarrow> bytes" where
  "vi_enc qv v = the (vi_Append qv [] v)"

text \<open>
  What the code relies on: \<open>Append\<close> and \<open>Len\<close> agree and panic on values of more than 62 bits,
  \<open>Read\<close> gives back what \<open>Append\<close> wrote, consumes exactly that, and never returns more than 62
  bits.
\<close>

locale varint_codec =
  fixes qv :: quicvarint
  assumes append_ok: "v \<le> quicvarint_Max \<Longrightarrow> vi_Append qv b v = Some (b @ vi_enc qv v)"
    and append_panic: "quicvarint_Max < v \<Longrightarrow> vi_Append qv b v = None"
    and len_ok: "v \<le> quicvarint_Max \<Longrightarrow> vi_Len qv v = Some (length (vi_enc qv v))"
    and len_panic: "quicvarint_Max < v \<Longrightarrow> vi_Len qv v = None"
    and enc_length: "v \<le> quicvarint_Max \<Longrightarrow> 1 \<le> length (vi_enc qv v) \<and> length (vi_enc qv v) \<le> 8"
    and read_enc: "v \<le> quicvarint_Max \<Longrightarrow>
          run_prog (vi_Read qv) list_reader (vi_enc qv v @ rest) = (Inr v, rest)"
    and read_bound: "run_prog (vi_Read qv) list_reader bs = (Inr v, rest) \<Longrightarrow> v \<le> quicvarint_Max"
begin

lemma read_enc_consumed:
  assumes "v \<le> quicvarint_Max"
  shows "bytes_consumed (vi_Read qv) list_reader (vi_enc qv v @ rest) = length (vi_enc qv v)"
  using list_reader_consumed [of "vi_enc qv v @ rest" "vi_Read qv"] read_enc [OF assms, of rest]
  by simp

text \<open>A second integer read after a first one, as every stream header is read.\<close>

lemma read_two:
  assumes "v \<le> quicvarint_Max" "w \<le> quicvarint_Max"
  shows "run_prog (vi_Read qv) list_reader (snd (run_prog (vi_Read qv) list_reader
           (vi_enc qv v @ vi_enc qv w @ rest))) = (Inr w, rest)"
  using assms by (simp add: read_enc)

lemma enc_inject:
  assumes "v \<le> quicvarint_Max" "w \<le> quicvarint_Max" "vi_enc qv v = vi_enc qv w"
  shows "v = w"
  using read_enc [OF assms(1), of "[]"] read_enc [OF assms(2), of "[]"] assms(3) by simp

end

section \<open>The encoding of RFC 9000\<close>

text \<open>
  The two high bits of the first byte give the base-2 logarithm of the length; the value
  follows in network byte order.
\<close>

definition rfc_tag :: "nat \<Rightarrow> nat" where
  "rfc_tag n = (if n < 64 then 0 else if n < 16384 then 1 else if n < 1073741824 then 2 else 3)"

definition rfc_tail :: "nat \<Rightarrow> nat" where
  "rfc_tail t = 2 ^ t - 1"

definition rfc_enc :: "nat \<Rightarrow> bytes" where
  "rfc_enc n = (let t = rfc_tag n; k = rfc_tail t
                in of_nat (t * 64 + n div 256 ^ k) # be_bytes k (n mod 256 ^ k))"

primrec rfc_more :: "nat \<Rightarrow> nat \<Rightarrow> u64 byte_prog" where
  "rfc_more 0 acc = Done (Inr (of_nat acc))"
| "rfc_more (Suc k) acc =
     ReadByte (\<lambda>x. case x of Inl e \<Rightarrow> Done (Inl e) | Inr b \<Rightarrow> rfc_more k (acc * 256 + unat b))"

definition rfc_read :: "u64 byte_prog" where
  "rfc_read = ReadByte (\<lambda>x. case x of Inl e \<Rightarrow> Done (Inl e)
     | Inr b \<Rightarrow> rfc_more (rfc_tail (unat b div 64)) (unat b mod 64))"

definition rfc9000 :: quicvarint where
  "rfc9000 = \<lparr>vi_Append = (\<lambda>b v. if v \<le> quicvarint_Max then Some (b @ rfc_enc (unat v)) else None),
              vi_Len = (\<lambda>v. if v \<le> quicvarint_Max then Some (length (rfc_enc (unat v))) else None),
              vi_Read = rfc_read\<rparr>"

lemma rfc_more_be_bytes:
  "n < 256 ^ k \<Longrightarrow>
     run_prog (rfc_more k acc) list_reader (be_bytes k n @ rest) = (Inr (of_nat (acc * 256 ^ k + n)), rest)"
proof (induction k arbitrary: n acc)
  case 0
  then show ?case by simp
next
  case (Suc k)
  have "n div 256 ^ k < 256"
    using Suc.prems by (simp add: less_mult_imp_div_less)
  then have "unat (of_nat (n div 256 ^ k) :: byte) = n div 256 ^ k"
    by (simp add: unat_of_nat)
  moreover have "acc * 256 * 256 ^ k + n div 256 ^ k * 256 ^ k + n mod 256 ^ k = acc * 256 ^ Suc k + n"
    by (simp only: add.assoc div_mult_mod_eq power_Suc mult.assoc)
  ultimately show ?case
    by (simp add: Suc.IH algebra_simps)
qed

lemma rfc_more_bound:
  assumes "run_prog (rfc_more k acc) list_reader bs = (Inr v, rest)"
  shows "unat v < (acc + 1) * 256 ^ k"
  using assms
proof (induction k arbitrary: acc bs)
  case 0
  then show ?case using take_bit_nat_less_eq_self [of 64 acc]
    by (auto simp: unsigned_of_nat less_Suc_eq_le)
next
  case (Suc k)
  then obtain b bs' where bs: "bs = b # bs'" by (cases bs) auto
  have "unat b < 2 ^ LENGTH(8)" by (rule unsigned_less)
  then have "acc * 256 + unat b + 1 \<le> (acc + 1) * 256" by simp
  then have "(acc * 256 + unat b + 1) * 256 ^ k \<le> (acc + 1) * 256 * 256 ^ k"
    by (rule mult_le_mono1)
  moreover have "unat v < (acc * 256 + unat b + 1) * 256 ^ k"
    using Suc.IH Suc.prems bs by simp
  ultimately have "unat v < (acc + 1) * 256 * 256 ^ k" by (rule order_less_le_trans [rotated])
  then show ?case by (simp only: power_Suc mult.assoc)
qed

lemma rfc_tag_bounds:
  assumes "n < 2 ^ 62"
  shows "rfc_tag n < 4" "n div 256 ^ rfc_tail (rfc_tag n) < 64"
proof -
  show "rfc_tag n < 4" by (simp add: rfc_tag_def)
  have "n < 64 * 256 ^ rfc_tail (rfc_tag n)"
    using assms by (auto simp: rfc_tag_def rfc_tail_def)
  then show "n div 256 ^ rfc_tail (rfc_tag n) < 64"
    by (simp add: less_mult_imp_div_less)
qed

lemma rfc_read_enc:
  assumes "n < 2 ^ 62"
  shows "run_prog rfc_read list_reader (rfc_enc n @ rest) = (Inr (of_nat n), rest)"
proof -
  let ?t = "rfc_tag n" and ?k = "rfc_tail (rfc_tag n)"
  have "?t * 64 + n div 256 ^ ?k < 256" using rfc_tag_bounds [OF assms] by linarith
  then have "unat (of_nat (?t * 64 + n div 256 ^ ?k) :: byte) = ?t * 64 + n div 256 ^ ?k"
    by (simp add: unat_of_nat del: of_nat_add of_nat_mult)
  then show ?thesis
    using rfc_tag_bounds [OF assms]
    by (simp add: rfc_read_def rfc_enc_def Let_def rfc_more_be_bytes div_mult_mod_eq
        del: of_nat_add of_nat_mult)
qed

lemma rfc_read_bound:
  assumes "run_prog rfc_read list_reader bs = (Inr v, rest)"
  shows "unat v < 2 ^ 62"
proof -
  from assms obtain b bs' where bs: "bs = b # bs'" by (cases bs) (auto simp: rfc_read_def)
  let ?t = "unat b div 64"
  have "unat b < 2 ^ LENGTH(8)" by (rule unsigned_less)
  then have "?t < 4" by simp
  then have t: "?t = 0 \<or> ?t = 1 \<or> ?t = 2 \<or> ?t = 3" by linarith
  have "unat v < (unat b mod 64 + 1) * 256 ^ rfc_tail ?t"
    using assms bs by (auto simp: rfc_read_def dest: rfc_more_bound)
  also have "\<dots> \<le> 64 * 256 ^ rfc_tail ?t" by (rule mult_le_mono1) simp
  also have "\<dots> \<le> 2 ^ 62" using t by (auto simp: rfc_tail_def)
  finally show ?thesis .
qed

lemma le_quicvarint_Max_iff: "v \<le> quicvarint_Max \<longleftrightarrow> unat v < 2 ^ 62"
  by (auto simp: word_le_nat_alt quicvarint_Max_def)

lemma vi_enc_rfc9000: "v \<le> quicvarint_Max \<Longrightarrow> vi_enc rfc9000 v = rfc_enc (unat v)"
  by (simp add: vi_enc_def rfc9000_def)

interpretation rfc: varint_codec rfc9000
proof unfold_locales
  fix v :: u64 and b bs rest :: bytes
  show "vi_Append rfc9000 b v = Some (b @ vi_enc rfc9000 v)" if "v \<le> quicvarint_Max"
    using that by (simp add: vi_enc_rfc9000) (simp add: rfc9000_def)
  show "vi_Append rfc9000 b v = None" if "quicvarint_Max < v"
    using that by (simp add: rfc9000_def)
  show "vi_Len rfc9000 v = Some (length (vi_enc rfc9000 v))" if "v \<le> quicvarint_Max"
    using that by (simp add: vi_enc_rfc9000) (simp add: rfc9000_def)
  show "vi_Len rfc9000 v = None" if "quicvarint_Max < v"
    using that by (simp add: rfc9000_def)
  show "1 \<le> length (vi_enc rfc9000 v) \<and> length (vi_enc rfc9000 v) \<le> 8" if "v \<le> quicvarint_Max"
    using that by (simp add: vi_enc_rfc9000 rfc_enc_def Let_def rfc_tail_def rfc_tag_def)
  show "run_prog (vi_Read rfc9000) list_reader (vi_enc rfc9000 v @ rest) = (Inr v, rest)"
    if "v \<le> quicvarint_Max"
    using that rfc_read_enc [of "unat v" rest]
    by (simp add: vi_enc_rfc9000 le_quicvarint_Max_iff) (simp add: rfc9000_def)
  show "v \<le> quicvarint_Max" if "run_prog (vi_Read rfc9000) list_reader bs = (Inr v, rest)"
    using that rfc_read_bound by (simp add: rfc9000_def le_quicvarint_Max_iff)
qed

end
