(* ===== verification/WT_Config.thy ===== *)
theory WT_Config
  imports WT_Protocol
begin

text \<open>
  The configuration of a client or server (\<open>config.go\<close>): which HTTP/3 settings it advertises
  and how the local configuration and the peer's settings give the flow-control parameters of
  a session. The fields of \<open>Config\<close> are \<open>int64\<close>, those of a settings map \<open>uint64\<close>.
  The theorems show that two endpoints that exchange their settings agree: both or neither
  enable flow control, and what one may send is what the other is ready to receive.
\<close>

section \<open>Definitions\<close>

record Config =
  MaxIncomingStreams :: i64
  MaxIncomingUniStreams :: i64
  MaxIncomingData :: i64

record sessionFlowControl =
  fc_Enabled :: bool
  fc_MaxIncomingStreams :: u64
  fc_MaxIncomingUniStreams :: u64
  fc_MaxOutgoingStreams :: u64
  fc_MaxOutgoingUniStreams :: u64
  fc_MaxIncomingData :: i64
  fc_MaxOutgoingData :: i64

definition maxStreamsLimit :: u64 where
  "maxStreamsLimit = 1152921504606846976"

lemma unat_maxStreamsLimit: "unat maxStreamsLimit = 2 ^ 60"
  by (simp add: maxStreamsLimit_def)

text \<open>\<open>http3.Settings\<close>: the parsed settings frame of the peer.\<close>

record http3_Settings =
  EnableDatagrams :: bool
  EnableExtendedConnect :: bool
  Other :: "(u64 \<rightharpoonup> u64) option"

text \<open>Reading a Go map of type \<open>map[uint64]uint64\<close>; a nil map reads as empty.\<close>

definition settings_get :: "(u64 \<rightharpoonup> u64) option \<Rightarrow> u64 \<Rightarrow> u64" where
  "settings_get m k = (case m of None \<Rightarrow> 0 | Some f \<Rightarrow> (case f k of None \<Rightarrow> 0 | Some v \<Rightarrow> v))"

definition streamLimit :: "i64 \<Rightarrow> u64" where
  "streamLimit limit = (if limit \<le> 0 then 0 else min (of_int limit) maxStreamsLimit)"

definition dataLimit :: "i64 \<Rightarrow> i64" where
  "dataLimit limit = min (max limit 0) (sint quicvarint_Max)"

definition addSettings :: "Config \<Rightarrow> (u64 \<rightharpoonup> u64) \<Rightarrow> (u64 \<rightharpoonup> u64)" where
  "addSettings c settings =
     (let s0 = settings(settingsWebTransportInitialMaxStreamsBidi := None,
                        settingsWebTransportInitialMaxStreamsUni := None,
                        settingsWebTransportInitialMaxData := None);
          s1 = (if MaxIncomingStreams c \<noteq> 0
                then s0(settingsWebTransportInitialMaxStreamsBidi \<mapsto> streamLimit (MaxIncomingStreams c))
                else s0);
          s2 = (if MaxIncomingUniStreams c \<noteq> 0
                then s1(settingsWebTransportInitialMaxStreamsUni \<mapsto> streamLimit (MaxIncomingUniStreams c))
                else s1)
      in if MaxIncomingData c \<noteq> 0
         then s2(settingsWebTransportInitialMaxData \<mapsto> of_int (dataLimit (MaxIncomingData c)))
         else s2)"

definition zero_sessionFlowControl :: sessionFlowControl where
  "zero_sessionFlowControl =
     \<lparr>fc_Enabled = False, fc_MaxIncomingStreams = 0, fc_MaxIncomingUniStreams = 0,
      fc_MaxOutgoingStreams = 0, fc_MaxOutgoingUniStreams = 0, fc_MaxIncomingData = 0,
      fc_MaxOutgoingData = 0\<rparr>"

definition Config_sessionFlowControl :: "Config \<Rightarrow> http3_Settings option \<Rightarrow> sessionFlowControl" where
  "Config_sessionFlowControl c remote =
     (let localEnabled = MaxIncomingStreams c > 0 \<or> MaxIncomingUniStreams c > 0 \<or> MaxIncomingData c > 0
      in case remote of
           None \<Rightarrow> zero_sessionFlowControl
         | Some r \<Rightarrow>
            if \<not> localEnabled then zero_sessionFlowControl
            else
              let peerSettings = Other r;
                  peerEnabled = settings_get peerSettings settingsWebTransportInitialMaxStreamsBidi > 0
                    \<or> settings_get peerSettings settingsWebTransportInitialMaxStreamsUni > 0
                    \<or> settings_get peerSettings settingsWebTransportInitialMaxData > 0
              in if \<not> peerEnabled then zero_sessionFlowControl
                 else \<lparr>fc_Enabled = True,
                       fc_MaxIncomingStreams = streamLimit (MaxIncomingStreams c),
                       fc_MaxIncomingUniStreams = streamLimit (MaxIncomingUniStreams c),
                       fc_MaxOutgoingStreams =
                         settings_get peerSettings settingsWebTransportInitialMaxStreamsBidi,
                       fc_MaxOutgoingUniStreams =
                         settings_get peerSettings settingsWebTransportInitialMaxStreamsUni,
                       fc_MaxIncomingData = dataLimit (MaxIncomingData c),
                       fc_MaxOutgoingData =
                         sint (settings_get peerSettings settingsWebTransportInitialMaxData)\<rparr>)"

section \<open>Limits\<close>

definition wf_Config :: "Config \<Rightarrow> bool" where
  "wf_Config c \<longleftrightarrow> in_i64 (MaxIncomingStreams c) \<and> in_i64 (MaxIncomingUniStreams c)
     \<and> in_i64 (MaxIncomingData c)"

lemma unat_of_int_pos: "0 \<le> x \<Longrightarrow> x < 2 ^ 63 \<Longrightarrow> unat (of_int x :: u64) = nat x"
  by (simp add: unsigned_of_int take_bit_eq_mod)

lemma unat_streamLimit:
  "in_i64 x \<Longrightarrow> unat (streamLimit x) = nat (min (max x 0) (2 ^ 60))"
  unfolding in_i64_def streamLimit_def maxStreamsLimit_def
  by (auto simp: min_def word_le_nat_alt unat_of_int_pos)

lemma streamLimit_pos_iff: "in_i64 x \<Longrightarrow> 0 < streamLimit x \<longleftrightarrow> 0 < x"
  by (simp add: word_less_nat_alt unat_streamLimit less_max_iff_disj)

lemma streamLimit_le: "streamLimit x \<le> maxStreamsLimit"
  by (simp add: streamLimit_def)

lemma sint_quicvarint_Max: "sint quicvarint_Max = 2 ^ 62 - 1"
  by (simp add: quicvarint_Max_def)

lemma dataLimit_nonneg [simp]: "0 \<le> dataLimit x"
  by (simp add: dataLimit_def sint_quicvarint_Max)

lemma dataLimit_le [simp]: "dataLimit x \<le> 4611686018427387903"
  by (simp add: dataLimit_def sint_quicvarint_Max)

lemma dataLimit_less_63: "dataLimit x < 2 ^ 63"
  by (rule order_le_less_trans [OF dataLimit_le]) simp

lemma dataLimit_pos_iff: "0 < dataLimit x \<longleftrightarrow> 0 < x"
  by (simp add: dataLimit_def sint_quicvarint_Max less_max_iff_disj)

lemma sint_of_int_dataLimit: "sint (of_int (dataLimit x) :: u64) = dataLimit x"
proof -
  have "- (2 ^ 63) \<le> dataLimit x" by (rule order_trans [OF _ dataLimit_nonneg]) simp
  then show ?thesis
    using dataLimit_less_63 [of x] by (simp add: signed_of_int signed_take_bit_int_eq_self)
qed

lemma of_int_dataLimit_pos_iff: "0 < (of_int (dataLimit x) :: u64) \<longleftrightarrow> 0 < x"
  unfolding word_less_nat_alt unat_of_int_pos [OF dataLimit_nonneg dataLimit_less_63]
  by (simp add: dataLimit_pos_iff)

section \<open>What the peer sees\<close>

text \<open>
  The settings another endpoint advertises, read back by key: an absent key reads as zero,
  which is also what a zero limit advertises.
\<close>

lemma addSettings_get:
  "settings_get (Some (addSettings c s)) settingsWebTransportInitialMaxStreamsBidi
     = streamLimit (MaxIncomingStreams c)"
  "settings_get (Some (addSettings c s)) settingsWebTransportInitialMaxStreamsUni
     = streamLimit (MaxIncomingUniStreams c)"
  "settings_get (Some (addSettings c s)) settingsWebTransportInitialMaxData
     = of_int (dataLimit (MaxIncomingData c))"
  by (simp_all add: settings_get_def addSettings_def Let_def settings_ids streamLimit_def
      dataLimit_def sint_quicvarint_Max)

lemma addSettings_other:
  assumes "k \<notin> {settingsWebTransportInitialMaxStreamsBidi, settingsWebTransportInitialMaxStreamsUni,
                 settingsWebTransportInitialMaxData}"
  shows "addSettings c s k = s k"
  using assms by (simp add: addSettings_def Let_def)

text \<open>The two conditions for flow control, and the result when they hold.\<close>

definition fc_offered :: "Config \<Rightarrow> bool" where
  "fc_offered c \<longleftrightarrow> MaxIncomingStreams c > 0 \<or> MaxIncomingUniStreams c > 0 \<or> MaxIncomingData c > 0"

lemma sessionFlowControl_off:
  "\<not> fc_offered c \<Longrightarrow> Config_sessionFlowControl c r = zero_sessionFlowControl"
  by (cases r) (simp_all add: Config_sessionFlowControl_def fc_offered_def)

lemma sessionFlowControl_peer:
  assumes "fc_offered c" "wf_Config d" "Other r = Some (addSettings d s)"
  shows "Config_sessionFlowControl c (Some r) =
    (if fc_offered d then
       \<lparr>fc_Enabled = True,
        fc_MaxIncomingStreams = streamLimit (MaxIncomingStreams c),
        fc_MaxIncomingUniStreams = streamLimit (MaxIncomingUniStreams c),
        fc_MaxOutgoingStreams = streamLimit (MaxIncomingStreams d),
        fc_MaxOutgoingUniStreams = streamLimit (MaxIncomingUniStreams d),
        fc_MaxIncomingData = dataLimit (MaxIncomingData c),
        fc_MaxOutgoingData = dataLimit (MaxIncomingData d)\<rparr>
     else zero_sessionFlowControl)"
  using assms
  by (simp add: Config_sessionFlowControl_def Let_def addSettings_get wf_Config_def streamLimit_pos_iff
      of_int_dataLimit_pos_iff sint_of_int_dataLimit fc_offered_def)

lemma sessionFlowControl_dual:
  assumes "wf_Config c" and "wf_Config d"
    and "Other rd = Some (addSettings d sd)" and "Other rc = Some (addSettings c sc)"
  defines "A \<equiv> Config_sessionFlowControl c (Some rd)" and "B \<equiv> Config_sessionFlowControl d (Some rc)"
  shows "fc_Enabled A = fc_Enabled B
    \<and> fc_MaxOutgoingStreams A = fc_MaxIncomingStreams B
    \<and> fc_MaxOutgoingUniStreams A = fc_MaxIncomingUniStreams B
    \<and> fc_MaxOutgoingData A = fc_MaxIncomingData B
    \<and> fc_MaxIncomingStreams A = fc_MaxOutgoingStreams B
    \<and> fc_MaxIncomingUniStreams A = fc_MaxOutgoingUniStreams B
    \<and> fc_MaxIncomingData A = fc_MaxOutgoingData B"
  unfolding A_def B_def
  using sessionFlowControl_peer [of c d rd sd] sessionFlowControl_peer [of d c rc sc] assms(1-4)
  by (cases "fc_offered c"; cases "fc_offered d")
    (simp_all add: sessionFlowControl_off zero_sessionFlowControl_def)

text \<open>
  Two endpoints that receive each other's settings agree on flow control: it is enabled at
  one exactly when it is enabled at the other, and then each endpoint's outgoing limits are the
  incoming limits of the other, for both stream directions and for data.
\<close>

theorem flow_control_agreement:
  assumes "wf_Config c" and "wf_Config d"
    and "Other rd = Some (addSettings d sd)" and "Other rc = Some (addSettings c sc)"
  defines "A \<equiv> Config_sessionFlowControl c (Some rd)" and "B \<equiv> Config_sessionFlowControl d (Some rc)"
  shows "fc_Enabled A = fc_Enabled B
    \<and> fc_MaxOutgoingStreams A = fc_MaxIncomingStreams B
    \<and> fc_MaxOutgoingUniStreams A = fc_MaxIncomingUniStreams B
    \<and> fc_MaxOutgoingData A = fc_MaxIncomingData B
    \<and> fc_MaxIncomingStreams A = fc_MaxOutgoingStreams B
    \<and> fc_MaxIncomingUniStreams A = fc_MaxOutgoingUniStreams B
    \<and> fc_MaxIncomingData A = fc_MaxOutgoingData B"
  unfolding A_def B_def using assms(1-4) by (rule sessionFlowControl_dual)

lemma sessionFlowControl_enabled:
  assumes "fc_Enabled (Config_sessionFlowControl c r)"
  shows "fc_MaxIncomingStreams (Config_sessionFlowControl c r) = streamLimit (MaxIncomingStreams c)
    \<and> fc_MaxIncomingUniStreams (Config_sessionFlowControl c r) = streamLimit (MaxIncomingUniStreams c)
    \<and> fc_MaxIncomingData (Config_sessionFlowControl c r) = dataLimit (MaxIncomingData c)"
proof (cases r)
  case None
  with assms show ?thesis by (simp add: Config_sessionFlowControl_def zero_sessionFlowControl_def)
next
  case (Some s)
  have "fc_offered c" using assms sessionFlowControl_off [of c r]
    by (cases "fc_offered c") (simp_all add: zero_sessionFlowControl_def)
  then show ?thesis
    using assms Some
    by (simp add: Config_sessionFlowControl_def Let_def fc_offered_def zero_sessionFlowControl_def
        split: if_split_asm) blast
qed

theorem flow_control_agreement_witness:
  "wf_Config \<lparr>MaxIncomingStreams = 10, MaxIncomingUniStreams = 0, MaxIncomingData = -5\<rparr>
   \<and> fc_Enabled (Config_sessionFlowControl
        \<lparr>MaxIncomingStreams = 10, MaxIncomingUniStreams = 0, MaxIncomingData = -5\<rparr>
        (Some \<lparr>EnableDatagrams = True, EnableExtendedConnect = True,
               Other = Some (addSettings \<lparr>MaxIncomingStreams = 3, MaxIncomingUniStreams = 7,
                 MaxIncomingData = 0\<rparr> Map.empty)\<rparr>))
   \<and> fc_MaxOutgoingUniStreams (Config_sessionFlowControl
        \<lparr>MaxIncomingStreams = 10, MaxIncomingUniStreams = 0, MaxIncomingData = -5\<rparr>
        (Some \<lparr>EnableDatagrams = True, EnableExtendedConnect = True,
               Other = Some (addSettings \<lparr>MaxIncomingStreams = 3, MaxIncomingUniStreams = 7,
                 MaxIncomingData = 0\<rparr> Map.empty)\<rparr>)) = 7"
proof -
  let ?c = "\<lparr>MaxIncomingStreams = 10, MaxIncomingUniStreams = 0, MaxIncomingData = -5\<rparr>"
  let ?d = "\<lparr>MaxIncomingStreams = 3, MaxIncomingUniStreams = 7, MaxIncomingData = 0\<rparr>"
  let ?r = "\<lambda>c. \<lparr>EnableDatagrams = True, EnableExtendedConnect = True,
                 Other = Some (addSettings c Map.empty)\<rparr>"
  have wf: "wf_Config ?c" "wf_Config ?d" by (simp_all add: wf_Config_def in_i64_def)
  have o: "fc_offered ?d" "fc_offered ?c" by (simp_all add: fc_offered_def)
  have "streamLimit 7 = 7" by (rule word_eq_unatI) (simp add: unat_streamLimit in_i64_def)
  then show ?thesis
    using flow_control_agreement [of ?c ?d "?r ?d" Map.empty "?r ?c" Map.empty] wf o
      sessionFlowControl_peer [of ?d ?c "?r ?c" Map.empty]
    by simp
qed

text \<open>
  Every limit of an enabled session is within its protocol range: stream limits that we
  advertise are at most \<open>2^60\<close>, and data limits fit the 62 bits of a variable-length integer.
\<close>

theorem flow_control_limits:
  assumes "fc_Enabled (Config_sessionFlowControl c r)"
  shows "fc_MaxIncomingStreams (Config_sessionFlowControl c r) \<le> maxStreamsLimit
    \<and> fc_MaxIncomingUniStreams (Config_sessionFlowControl c r) \<le> maxStreamsLimit
    \<and> 0 \<le> fc_MaxIncomingData (Config_sessionFlowControl c r)
    \<and> fc_MaxIncomingData (Config_sessionFlowControl c r) \<le> 2 ^ 62 - 1"
  using sessionFlowControl_enabled [OF assms] by (simp add: streamLimit_le)

theorem flow_control_limits_witness:
  "fc_Enabled (Config_sessionFlowControl \<lparr>MaxIncomingStreams = 2 ^ 62, MaxIncomingUniStreams = 0, MaxIncomingData = 1\<rparr>
     (Some \<lparr>EnableDatagrams = True, EnableExtendedConnect = True, Other = Some [0x2b65 \<mapsto> 1]\<rparr>))
   \<and> fc_MaxIncomingStreams (Config_sessionFlowControl
        \<lparr>MaxIncomingStreams = 2 ^ 62, MaxIncomingUniStreams = 0, MaxIncomingData = 1\<rparr>
        (Some \<lparr>EnableDatagrams = True, EnableExtendedConnect = True, Other = Some [0x2b65 \<mapsto> 1]\<rparr>))
      \<le> maxStreamsLimit"
proof -
  let ?c = "\<lparr>MaxIncomingStreams = 2 ^ 62, MaxIncomingUniStreams = 0, MaxIncomingData = 1\<rparr>"
  let ?r = "Some \<lparr>EnableDatagrams = True, EnableExtendedConnect = True, Other = Some [0x2b65 \<mapsto> 1]\<rparr>"
  have "fc_Enabled (Config_sessionFlowControl ?c ?r)"
    by (simp add: Config_sessionFlowControl_def Let_def settings_get_def settings_ids)
  then show ?thesis using flow_control_limits [of ?c ?r] by blast
qed

end
