(* ===== verification/WT_Capsule.thy ===== *)
theory WT_Capsule
  imports WT_Config "HOL-Library.Monad_Syntax"
begin

text \<open>
  The capsules sent on the CONNECT stream (\<open>capsule.go\<close>): their encoding, the parser of the next
  known capsule, and the truncation of close messages at UTF-8 boundaries.

  The HTTP/3 capsule parser and reader are types of quic-go. They are the parameter
  \<open>http3_capsules\<close>, a record of the operations the code calls: a reader of type \<open>'r\<close> carries the
  stream it reads from, and \<open>cp_resume\<close> is the parser once the reader is done. \<open>io.ReadFull\<close> and
  \<open>io.ReadAll\<close> are loops of Go's library over \<open>Read\<close>; a reader that returns neither bytes nor an
  error would keep them running, so they are partial (\<open>None\<close> is: never returns), and the theorems
  show that parsing returns. The locale \<open>capsule_stream\<close> states the documented behaviour of parser
  and readers on a stream of complete capsules (RFC 9297, section 3.2); it is interpreted on a
  parser over a list of bytes.
\<close>

section \<open>Capsule types\<close>

definition closeSessionCapsuleType :: u64 where "closeSessionCapsuleType = 0x2843"
definition maxDataCapsuleType :: u64 where "maxDataCapsuleType = 0x190b4d3d"
definition maxStreamDataCapsuleType :: u64 where "maxStreamDataCapsuleType = 0x190b4d3e"
definition maxStreamsBidiCapsuleType :: u64 where "maxStreamsBidiCapsuleType = 0x190b4d3f"
definition maxStreamsUniCapsuleType :: u64 where "maxStreamsUniCapsuleType = 0x190b4d40"
definition dataBlockedCapsuleType :: u64 where "dataBlockedCapsuleType = 0x190b4d41"
definition streamDataBlockedCapsuleType :: u64 where "streamDataBlockedCapsuleType = 0x190b4d42"
definition streamsBlockedBidiCapsuleType :: u64 where "streamsBlockedBidiCapsuleType = 0x190b4d43"
definition streamsBlockedUniCapsuleType :: u64 where "streamsBlockedUniCapsuleType = 0x190b4d44"

lemmas capsule_types =
  closeSessionCapsuleType_def maxDataCapsuleType_def maxStreamDataCapsuleType_def
  maxStreamsBidiCapsuleType_def maxStreamsUniCapsuleType_def dataBlockedCapsuleType_def
  streamDataBlockedCapsuleType_def streamsBlockedBidiCapsuleType_def streamsBlockedUniCapsuleType_def

definition maxCloseCapsuleErrorMsgLen :: nat where
  "maxCloseCapsuleErrorMsgLen = 1024"

record closeSessionCapsule =
  cs_ErrorCode :: u32
  cs_Message :: string

datatype capsule =
    CloseSession closeSessionCapsule
  | MaxData u64
  | MaxStreamsBidi u64
  | MaxStreamsUni u64
  | DataBlocked u64
  | StreamsBlockedBidi u64
  | StreamsBlockedUni u64

definition ToSessionError :: "closeSessionCapsule \<Rightarrow> SessionError" where
  "ToSessionError c = \<lparr>sess_Remote = True, sess_ErrorCode = cs_ErrorCode c, sess_Message = cs_Message c\<rparr>"

section \<open>Truncating messages\<close>

text \<open>\<open>utf8.RuneStart\<close>: not a continuation byte \<open>10xxxxxx\<close>.\<close>

definition RuneStart :: "char \<Rightarrow> bool" where
  "RuneStart c \<longleftrightarrow> (of_char c :: nat) div 64 \<noteq> 2"

fun truncateUTF8_pos :: "string \<Rightarrow> nat \<Rightarrow> nat" where
  "truncateUTF8_pos s 0 = 0"
| "truncateUTF8_pos s (Suc n) = (if \<not> RuneStart (s ! Suc n) then truncateUTF8_pos s n else Suc n)"

definition truncateUTF8 :: "string \<Rightarrow> nat \<Rightarrow> string" where
  "truncateUTF8 s n = (if length s \<le> n then s else take (truncateUTF8_pos s n) s)"

section \<open>Encoding\<close>

text \<open>\<open>quicvarint.Append\<close> panics on values of more than 62 bits, and with it \<open>Append\<close>: \<open>None\<close>.\<close>

definition closeSessionCapsule_Append ::
  "quicvarint \<Rightarrow> closeSessionCapsule \<Rightarrow> bytes \<Rightarrow> bytes option" where
  "closeSessionCapsule_Append qv c b =
     (let msg = (if length (cs_Message c) > maxCloseCapsuleErrorMsgLen
                 then truncateUTF8 (cs_Message c) maxCloseCapsuleErrorMsgLen else cs_Message c)
      in do {
        b1 \<leftarrow> vi_Append qv b closeSessionCapsuleType;
        b2 \<leftarrow> vi_Append qv b1 (of_nat (4 + length msg));
        Some (b2 @ be_bytes 4 (unat (cs_ErrorCode c)) @ bytes_of_string msg)
      })"

definition varintCapsule_Append :: "quicvarint \<Rightarrow> u64 \<Rightarrow> u64 \<Rightarrow> bytes \<Rightarrow> bytes option" where
  "varintCapsule_Append qv typ v b =
     do {
       b1 \<leftarrow> vi_Append qv b typ;
       n \<leftarrow> vi_Len qv v;
       b2 \<leftarrow> vi_Append qv b1 (of_nat n);
       vi_Append qv b2 v
     }"

fun capsule_Append :: "quicvarint \<Rightarrow> capsule \<Rightarrow> bytes \<Rightarrow> bytes option" where
  "capsule_Append qv (CloseSession c) b = closeSessionCapsule_Append qv c b"
| "capsule_Append qv (MaxData v) b = varintCapsule_Append qv maxDataCapsuleType v b"
| "capsule_Append qv (MaxStreamsBidi v) b = varintCapsule_Append qv maxStreamsBidiCapsuleType v b"
| "capsule_Append qv (MaxStreamsUni v) b = varintCapsule_Append qv maxStreamsUniCapsuleType v b"
| "capsule_Append qv (DataBlocked v) b = varintCapsule_Append qv dataBlockedCapsuleType v b"
| "capsule_Append qv (StreamsBlockedBidi v) b = varintCapsule_Append qv streamsBlockedBidiCapsuleType v b"
| "capsule_Append qv (StreamsBlockedUni v) b = varintCapsule_Append qv streamsBlockedUniCapsuleType v b"

section \<open>Readers\<close>

record ('p, 'r) http3_capsules =
  cp_Next :: "'p \<Rightarrow> (go_error \<times> 'p) + (u64 \<times> 'r)"
  cp_resume :: "'r \<Rightarrow> 'p"
  cr_Read :: "nat \<Rightarrow> 'r \<Rightarrow> (bytes \<times> go_error option) \<times> 'r"
  cr_ReadByte :: "'r byte_reader"
  cr_Remaining :: "'r \<Rightarrow> nat"
  cr_Discard :: "'r \<Rightarrow> go_error option \<times> 'r"

text \<open>The loop of \<open>io.ReadFull\<close>: read until \<open>want\<close> bytes are there or an error is returned.\<close>

partial_function (option) readFull_loop ::
  "(nat \<Rightarrow> 'r \<Rightarrow> (bytes \<times> go_error option) \<times> 'r) \<Rightarrow> nat \<Rightarrow> bytes \<Rightarrow> 'r
     \<Rightarrow> ((bytes \<times> go_error option) \<times> 'r) option" where
  "readFull_loop rd want acc r =
     (if length acc < want
      then case rd (want - length acc) r of ((bs, err), r') \<Rightarrow>
        (case err of
           None \<Rightarrow> readFull_loop rd want (acc @ bs) r'
         | Some e \<Rightarrow> Some ((acc @ bs, Some e), r'))
      else Some ((acc, None), r))"

definition io_ReadFull ::
  "(nat \<Rightarrow> 'r \<Rightarrow> (bytes \<times> go_error option) \<times> 'r) \<Rightarrow> nat \<Rightarrow> 'r
     \<Rightarrow> ((bytes \<times> go_error option) \<times> 'r) option" where
  "io_ReadFull rd n r =
     map_option (\<lambda>((bs, err), r').
       ((bs, if n \<le> length bs then None
             else if bs \<noteq> [] \<and> err = Some EEOF then Some EUnexpectedEOF else err), r'))
       (readFull_loop rd n [] r)"

text \<open>
  \<open>io.ReadAll\<close> over an \<open>io.LimitReader\<close>: at most \<open>left\<close> more bytes, in pieces of the buffer's
  free space (512 bytes).
\<close>

partial_function (option) io_ReadAll_limited ::
  "(nat \<Rightarrow> 'r \<Rightarrow> (bytes \<times> go_error option) \<times> 'r) \<Rightarrow> nat \<Rightarrow> bytes \<Rightarrow> 'r
     \<Rightarrow> ((bytes \<times> go_error option) \<times> 'r) option" where
  "io_ReadAll_limited rd left acc r =
     (if left = 0 then Some ((acc, None), r)
      else case rd (min 512 left) r of ((bs, err), r') \<Rightarrow>
        (case err of
           None \<Rightarrow> io_ReadAll_limited rd (left - length bs) (acc @ bs) r'
         | Some e \<Rightarrow> Some ((acc @ bs, if e = EEOF then None else Some e), r')))"

section \<open>Parsing\<close>

definition parseCloseSessionCapsule ::
  "('p, 'r) http3_capsules \<Rightarrow> 'r \<Rightarrow> ((go_error + closeSessionCapsule) \<times> 'r) option" where
  "parseCloseSessionCapsule P r =
     do {
       ((b, err1), r1) \<leftarrow> io_ReadFull (cr_Read P) 4 r;
       (case err1 of
          Some e \<Rightarrow> Some (Inl e, r1)
        | None \<Rightarrow> do {
            ((msg, err2), r2) \<leftarrow> io_ReadAll_limited (cr_Read P) maxCloseCapsuleErrorMsgLen [] r1;
            (case err2 of
               Some e \<Rightarrow> Some (Inl e, r2)
             | None \<Rightarrow>
                (case cr_Discard P r2 of
                   (Some e, r3) \<Rightarrow> Some (Inl e, r3)
                 | (None, r3) \<Rightarrow>
                     Some (Inr \<lparr>cs_ErrorCode = of_nat (be_value b), cs_Message = string_of_bytes msg\<rparr>, r3)))
          })
     }"

definition parseMaxDataCapsule ::
  "quicvarint \<Rightarrow> ('p, 'r) http3_capsules \<Rightarrow> 'r \<Rightarrow> (go_error + u64) \<times> 'r" where
  "parseMaxDataCapsule qv P r =
     (case run_prog (vi_Read qv) (cr_ReadByte P) r of
        (Inl e, r1) \<Rightarrow> (Inl e, r1)
      | (Inr maxData, r1) \<Rightarrow>
          if cr_Remaining P r1 \<noteq> 0 then (Inl (ENew ''WT_MAX_DATA capsule has trailing data''), r1)
          else (Inr maxData, r1))"

definition parseDataBlockedCapsule ::
  "quicvarint \<Rightarrow> ('p, 'r) http3_capsules \<Rightarrow> 'r \<Rightarrow> (go_error + u64) \<times> 'r" where
  "parseDataBlockedCapsule qv P r =
     (case run_prog (vi_Read qv) (cr_ReadByte P) r of
        (Inl e, r1) \<Rightarrow> (Inl e, r1)
      | (Inr maxData, r1) \<Rightarrow>
          if cr_Remaining P r1 \<noteq> 0 then (Inl (ENew ''WT_DATA_BLOCKED capsule has trailing data''), r1)
          else (Inr maxData, r1))"

definition parseMaxStreamsCapsule ::
  "quicvarint \<Rightarrow> ('p, 'r) http3_capsules \<Rightarrow> 'r \<Rightarrow> (go_error + u64) \<times> 'r" where
  "parseMaxStreamsCapsule qv P r =
     (case run_prog (vi_Read qv) (cr_ReadByte P) r of
        (Inl e, r1) \<Rightarrow> (Inl e, r1)
      | (Inr maxStreams, r1) \<Rightarrow>
          if cr_Remaining P r1 \<noteq> 0 then (Inl (ENew ''WT_MAX_STREAMS capsule has trailing data''), r1)
          else if maxStreams > maxStreamsLimit then (Inl (ENew ''WT_MAX_STREAMS value too large''), r1)
          else (Inr maxStreams, r1))"

definition parseStreamsBlockedCapsule ::
  "quicvarint \<Rightarrow> ('p, 'r) http3_capsules \<Rightarrow> 'r \<Rightarrow> (go_error + u64) \<times> 'r" where
  "parseStreamsBlockedCapsule qv P r =
     (case run_prog (vi_Read qv) (cr_ReadByte P) r of
        (Inl e, r1) \<Rightarrow> (Inl e, r1)
      | (Inr maxStreams, r1) \<Rightarrow>
          if cr_Remaining P r1 \<noteq> 0 then (Inl (ENew ''WT_STREAMS_BLOCKED capsule has trailing data''), r1)
          else if maxStreams > maxStreamsLimit then (Inl (ENew ''WT_STREAMS_BLOCKED value too large''), r1)
          else (Inr maxStreams, r1))"

text \<open>The result of one of the \<open>case\<close> branches of \<open>parseNextCapsule\<close>.\<close>

definition parsed :: "('p, 'r) http3_capsules \<Rightarrow> ('a \<Rightarrow> capsule) \<Rightarrow> (go_error + 'a) \<times> 'r
    \<Rightarrow> (go_error + capsule) \<times> 'p" where
  "parsed P C x = (map_sum id C (fst x), cp_resume P (snd x))"

partial_function (option) parseNextCapsule ::
  "quicvarint \<Rightarrow> ('p, 'r) http3_capsules \<Rightarrow> 'p \<Rightarrow> ((go_error + capsule) \<times> 'p) option" where
  "parseNextCapsule qv P p =
     (case cp_Next P p of
        Inl (err, p') \<Rightarrow> Some (Inl err, p')
      | Inr (typ, r) \<Rightarrow>
          if typ = closeSessionCapsuleType then map_option (parsed P CloseSession) (parseCloseSessionCapsule P r)
          else if typ = maxDataCapsuleType then Some (parsed P MaxData (parseMaxDataCapsule qv P r))
          else if typ = maxStreamDataCapsuleType
            then Some (Inl (ENew ''WT_MAX_STREAM_DATA capsule received''), cp_resume P r)
          else if typ = maxStreamsBidiCapsuleType
            then Some (parsed P MaxStreamsBidi (parseMaxStreamsCapsule qv P r))
          else if typ = maxStreamsUniCapsuleType
            then Some (parsed P MaxStreamsUni (parseMaxStreamsCapsule qv P r))
          else if typ = dataBlockedCapsuleType then Some (parsed P DataBlocked (parseDataBlockedCapsule qv P r))
          else if typ = streamDataBlockedCapsuleType
            then Some (Inl (ENew ''WT_STREAM_DATA_BLOCKED capsule received''), cp_resume P r)
          else if typ = streamsBlockedBidiCapsuleType
            then Some (parsed P StreamsBlockedBidi (parseStreamsBlockedCapsule qv P r))
          else if typ = streamsBlockedUniCapsuleType
            then Some (parsed P StreamsBlockedUni (parseStreamsBlockedCapsule qv P r))
          else
            (case cr_Discard P r of
               (Some err, r') \<Rightarrow> Some (Inl err, cp_resume P r')
             | (None, r') \<Rightarrow> parseNextCapsule qv P (cp_resume P r')))"

section \<open>Truncation keeps whole characters\<close>

text \<open>A character of a UTF-8 string: a start byte and its continuation bytes.\<close>

definition wf_rune :: "string \<Rightarrow> bool" where
  "wf_rune r \<longleftrightarrow> r \<noteq> [] \<and> RuneStart (hd r) \<and> (\<forall>c \<in> set (tl r). \<not> RuneStart c)"

lemma wf_rune_nth: "wf_rune r \<Longrightarrow> j < length r \<Longrightarrow> RuneStart (r ! j) \<longleftrightarrow> j = 0"
  by (cases r; cases j) (auto simp: wf_rune_def)

lemma rune_starts:
  assumes "\<forall>r \<in> set rs. wf_rune r" "j < length (concat rs)"
  shows "RuneStart (concat rs ! j) \<longleftrightarrow> (\<exists>k < length rs. j = length (concat (take k rs)))"
  using assms
proof (induction rs arbitrary: j)
  case Nil
  then show ?case by simp
next
  case (Cons r rs)
  have r: "r \<noteq> []" using Cons.prems(1) by (simp add: wf_rune_def)
  show ?case
  proof (cases "j < length r")
    case True
    then have "RuneStart (concat (r # rs) ! j) \<longleftrightarrow> j = 0"
      using Cons.prems(1) wf_rune_nth by (simp add: nth_append)
    also have "\<dots> \<longleftrightarrow> (\<exists>k < Suc (length rs). j = length (concat (take k (r # rs))))"
      using True by (auto simp: take_Cons' intro: exI [of _ 0] split: if_splits)
    finally show ?thesis by simp
  next
    case False
    then have "RuneStart (concat (r # rs) ! j) \<longleftrightarrow> RuneStart (concat rs ! (j - length r))"
      by (simp add: nth_append)
    also have "\<dots> \<longleftrightarrow> (\<exists>k < length rs. j - length r = length (concat (take k rs)))"
      using Cons.prems False by (intro Cons.IH) auto
    also have "\<dots> \<longleftrightarrow> (\<exists>k < length rs. j = length (concat (take (Suc k) (r # rs))))"
      using False by auto
    also have "\<dots> \<longleftrightarrow> (\<exists>k < Suc (length rs). j = length (concat (take k (r # rs))))"
      using False r by (auto simp: less_Suc_eq_0_disj)
    finally show ?thesis by simp
  qed
qed

lemma truncateUTF8_pos_props:
  "truncateUTF8_pos s n \<le> n \<and> (truncateUTF8_pos s n = 0 \<or> RuneStart (s ! truncateUTF8_pos s n))
   \<and> (\<forall>j. truncateUTF8_pos s n < j \<and> j \<le> n \<longrightarrow> \<not> RuneStart (s ! j))"
proof (induction n)
  case 0
  then show ?case by simp
next
  case (Suc n)
  then show ?case by (auto simp: le_Suc_eq)
qed

lemma truncateUTF8_length: "length (truncateUTF8 s n) \<le> n"
  using truncateUTF8_pos_props [of s n] by (simp add: truncateUTF8_def min_le_iff_disj)

lemma length_concat_take_mono: "j \<le> k \<Longrightarrow> length (concat (take j rs)) \<le> length (concat (take k rs))"
  by (metis concat_append le_add1 length_append min.absorb1 take_take append_take_drop_id)

text \<open>
  \<open>truncateUTF8\<close> never cuts a character: of a string of well-formed UTF-8 characters it keeps
  a whole number of them, at most \<open>n\<close> bytes, and one more character would not fit.
\<close>

theorem truncateUTF8_whole_characters:
  assumes "\<forall>r \<in> set rs. wf_rune r"
  shows "\<exists>k \<le> length rs. truncateUTF8 (concat rs) n = concat (take k rs)
    \<and> length (truncateUTF8 (concat rs) n) \<le> n
    \<and> (k < length rs \<longrightarrow> n < length (concat (take (Suc k) rs)))"
proof (cases "length (concat rs) \<le> n")
  case True
  then show ?thesis by (intro exI [of _ "length rs"]) (simp add: truncateUTF8_def)
next
  case False
  let ?s = "concat rs" and ?p = "truncateUTF8_pos (concat rs) n"
  have p: "?p \<le> n" "?p = 0 \<or> RuneStart (?s ! ?p)"
    and after: "\<And>j. ?p < j \<Longrightarrow> j \<le> n \<Longrightarrow> \<not> RuneStart (?s ! j)"
    using truncateUTF8_pos_props [of ?s n] by blast+
  have "rs \<noteq> []" using False by auto
  then obtain k where k: "k < length rs" "?p = length (concat (take k rs))"
    using p rune_starts [OF assms, of ?p] False
    by (cases "?p = 0") (auto intro: that [of 0])
  have "concat rs = concat (take k rs) @ concat (drop k rs)"
    by (metis append_take_drop_id concat_append)
  then have "truncateUTF8 ?s n = concat (take k rs)"
    using False k(2) by (simp add: truncateUTF8_def)
  moreover have "n < length (concat (take (Suc k) rs))"
  proof (rule ccontr)
    let ?q = "length (concat (take (Suc k) rs))"
    assume "\<not> n < ?q"
    then have q: "?q \<le> n" by simp
    then have "Suc k < length rs" using False k(1)
      by (metis Suc_lessI take_all_iff order_refl)
    then have "RuneStart (?s ! ?q)" using rune_starts [OF assms, of ?q] q False by auto
    moreover have "?p < ?q"
      using k assms by (simp add: take_Suc_conv_app_nth) (simp add: wf_rune_def)
    ultimately show False using after [of ?q] q by blast
  qed
  ultimately show ?thesis using k(1) truncateUTF8_length [of ?s n] by (intro exI [of _ k]) simp
qed

text \<open>A two-byte character (\<open>C3 A9\<close>) that does not fit into the last byte is dropped.\<close>

theorem truncateUTF8_whole_characters_witness:
  "truncateUTF8 (concat [''a'', ''b'', [CHR 0xC3, CHR 0xA9]]) 3 = ''ab''
   \<and> (\<exists>k \<le> 3. truncateUTF8 (concat [''a'', ''b'', [CHR 0xC3, CHR 0xA9]]) 3
        = concat (take k [''a'', ''b'', [CHR 0xC3, CHR 0xA9]]))"
proof
  show "truncateUTF8 (concat [''a'', ''b'', [CHR 0xC3, CHR 0xA9]]) 3 = ''ab''"
    by code_simp
  have "\<forall>r \<in> set [''a'', ''b'', [CHR 0xC3, CHR 0xA9]]. wf_rune r"
    by code_simp
  from truncateUTF8_whole_characters [OF this, of 3]
  show "\<exists>k \<le> 3. truncateUTF8 (concat [''a'', ''b'', [CHR 0xC3, CHR 0xA9]]) 3
        = concat (take k [''a'', ''b'', [CHR 0xC3, CHR 0xA9]])"
    by (auto simp: eval_nat_numeral)
qed

section \<open>Streams of complete capsules\<close>

text \<open>
  The payload a reader has still to deliver (\<open>pend\<close>), the capsules after it (\<open>rest\<close>), and the
  capsules a parser has still to deliver (\<open>caps\<close>), with the behaviour that quic-go and Go's
  \<open>io.Reader\<close> contract document. \<open>parser\<close> is \<open>http3.NewCapsuleParser\<close> on a stream that delivers
  the given bytes.
\<close>

locale capsule_stream = varint_codec qv for qv +
  fixes P :: "('p, 'r) http3_capsules"
    and parser :: "bytes \<Rightarrow> 'p"
    and caps :: "'p \<Rightarrow> (u64 \<times> bytes) list"
    and pend :: "'r \<Rightarrow> bytes"
    and rest :: "'r \<Rightarrow> (u64 \<times> bytes) list"
    and good :: "'r \<Rightarrow> bool"
  assumes next_ok: "caps p = (t, pl) # cs \<Longrightarrow>
        \<exists>r. cp_Next P p = Inr (t, r) \<and> good r \<and> pend r = pl \<and> rest r = cs"
    and read_some: "good r \<Longrightarrow> pend r \<noteq> [] \<Longrightarrow> 0 < n \<Longrightarrow>
        \<exists>bs e r'. cr_Read P n r = ((bs, e), r') \<and> good r' \<and> rest r' = rest r
          \<and> bs \<noteq> [] \<and> length bs \<le> n \<and> pend r = bs @ pend r'
          \<and> (e = None \<or> e = Some EEOF \<and> pend r' = [])"
    and read_end: "good r \<Longrightarrow> pend r = [] \<Longrightarrow> 0 < n \<Longrightarrow>
        \<exists>r'. cr_Read P n r = (([], Some EEOF), r') \<and> good r' \<and> rest r' = rest r \<and> pend r' = []"
    and read_byte: "good r \<Longrightarrow>
        \<exists>r'. cr_ReadByte P r = (fst (list_reader (pend r)), r') \<and> good r' \<and> rest r' = rest r
          \<and> pend r' = snd (list_reader (pend r))"
    and remaining: "good r \<Longrightarrow> cr_Remaining P r = length (pend r)"
    and discard: "good r \<Longrightarrow>
        \<exists>r'. cr_Discard P r = (None, r') \<and> good r' \<and> rest r' = rest r \<and> pend r' = []"
    and resume: "good r \<Longrightarrow> pend r = [] \<Longrightarrow> caps (cp_resume P r) = rest r"
    and wire: "t \<le> quicvarint_Max \<Longrightarrow> of_nat (length pl) \<le> quicvarint_Max \<Longrightarrow> length pl < 2 ^ 62 \<Longrightarrow>
        caps (parser (vi_enc qv t @ vi_enc qv (of_nat (length pl)) @ pl @ bs)) = (t, pl) # caps (parser bs)"

section \<open>What the payloads mean\<close>

text \<open>
  The specification of the parser on one capsule: \<open>None\<close> for a type that is skipped, otherwise
  the value of the payload or the error.
\<close>

definition decode_varint :: "quicvarint \<Rightarrow> string \<Rightarrow> u64 \<Rightarrow> bytes \<Rightarrow> go_error + u64" where
  "decode_varint qv name bound pl =
     (case run_prog (vi_Read qv) list_reader pl of
        (Inl e, _) \<Rightarrow> Inl e
      | (Inr v, rest) \<Rightarrow>
          if rest \<noteq> [] then Inl (ENew (name @ '' capsule has trailing data''))
          else if v > bound then Inl (ENew (name @ '' value too large''))
          else Inr v)"

definition decode_close :: "bytes \<Rightarrow> go_error + closeSessionCapsule" where
  "decode_close pl =
     (if pl = [] then Inl EEOF
      else if length pl < 4 then Inl EUnexpectedEOF
      else Inr \<lparr>cs_ErrorCode = of_nat (be_value (take 4 pl)),
                cs_Message = string_of_bytes (take 1024 (drop 4 pl))\<rparr>)"

definition decode_capsule :: "quicvarint \<Rightarrow> u64 \<Rightarrow> bytes \<Rightarrow> (go_error + capsule) option" where
  "decode_capsule qv t pl =
     (if t = closeSessionCapsuleType then Some (map_sum id CloseSession (decode_close pl))
      else if t = maxDataCapsuleType
        then Some (map_sum id MaxData (decode_varint qv ''WT_MAX_DATA'' (-1) pl))
      else if t = maxStreamDataCapsuleType then Some (Inl (ENew ''WT_MAX_STREAM_DATA capsule received''))
      else if t = maxStreamsBidiCapsuleType
        then Some (map_sum id MaxStreamsBidi (decode_varint qv ''WT_MAX_STREAMS'' maxStreamsLimit pl))
      else if t = maxStreamsUniCapsuleType
        then Some (map_sum id MaxStreamsUni (decode_varint qv ''WT_MAX_STREAMS'' maxStreamsLimit pl))
      else if t = dataBlockedCapsuleType
        then Some (map_sum id DataBlocked (decode_varint qv ''WT_DATA_BLOCKED'' (-1) pl))
      else if t = streamDataBlockedCapsuleType
        then Some (Inl (ENew ''WT_STREAM_DATA_BLOCKED capsule received''))
      else if t = streamsBlockedBidiCapsuleType
        then Some (map_sum id StreamsBlockedBidi (decode_varint qv ''WT_STREAMS_BLOCKED'' maxStreamsLimit pl))
      else if t = streamsBlockedUniCapsuleType
        then Some (map_sum id StreamsBlockedUni (decode_varint qv ''WT_STREAMS_BLOCKED'' maxStreamsLimit pl))
      else None)"

fun first_known :: "quicvarint \<Rightarrow> (u64 \<times> bytes) list
    \<Rightarrow> ((go_error + capsule) \<times> (u64 \<times> bytes) list) option" where
  "first_known qv [] = None"
| "first_known qv ((t, pl) # cs) =
     (case decode_capsule qv t pl of None \<Rightarrow> first_known qv cs | Some res \<Rightarrow> Some (res, cs))"

context capsule_stream
begin

text \<open>\<open>quicvarint.Read\<close> and every other byte program sees the pending payload.\<close>

lemma run_prog_pend:
  "good r \<Longrightarrow> \<exists>r'. run_prog p (cr_ReadByte P) r = (fst (run_prog p list_reader (pend r)), r')
     \<and> good r' \<and> rest r' = rest r \<and> pend r' = snd (run_prog p list_reader (pend r))"
proof (induction p arbitrary: r)
  case (Done x)
  then show ?case by simp
next
  case (ReadByte k)
  obtain b bs where lr: "list_reader (pend r) = (b, bs)" by fastforce
  with read_byte [OF ReadByte.prems] obtain r1 where
    r1: "cr_ReadByte P r = (b, r1)" "good r1" "rest r1 = rest r" "pend r1 = bs" by auto
  from ReadByte.IH [OF rangeI r1(2)] r1 lr show ?case by auto
qed

lemma readFull_loop_pend:
  assumes "good r" "length acc \<le> want"
  shows "\<exists>r' err. readFull_loop (cr_Read P) want acc r
           = Some ((acc @ take (want - length acc) (pend r), err), r')
     \<and> good r' \<and> rest r' = rest r \<and> pend r' = drop (want - length acc) (pend r)
     \<and> (length acc + length (pend r) < want \<longrightarrow> err = Some EEOF)"
  using assms
proof (induction "want - length acc" arbitrary: acc r rule: less_induct)
  case less
  show ?case
  proof (cases "length acc < want")
    case False
    with less.prems show ?thesis by (subst readFull_loop.simps) auto
  next
    case True
    let ?n = "want - length acc"
    show ?thesis
    proof (cases "pend r = []")
      case True
      with read_end [OF less.prems(1) True, of ?n] \<open>length acc < want\<close> show ?thesis
        by (subst readFull_loop.simps) auto
    next
      case False
      from read_some [OF less.prems(1) False, of ?n] True obtain bs e r' where
        rd: "cr_Read P ?n r = ((bs, e), r')" "good r'" "rest r' = rest r" "bs \<noteq> []"
          "length bs \<le> ?n" "pend r = bs @ pend r'" "e = None \<or> e = Some EEOF \<and> pend r' = []"
        by auto
      show ?thesis
      proof (cases e)
        case None
        have lt: "want - length (acc @ bs) < want - length acc" and le: "length (acc @ bs) \<le> want"
          using rd(5) True length_greater_0_conv [of bs] rd(4) unfolding length_append by linarith+
        have d: "?n - length bs = want - length (acc @ bs)" by simp
        from less.hyps [OF lt rd(2) le] True None rd(1,3,5,6) show ?thesis
          by (subst readFull_loop.simps) (auto simp: d)
      next
        case (Some x)
        with rd True show ?thesis by (subst readFull_loop.simps) auto
      qed
    qed
  qed
qed

lemma readAll_limited_pend:
  assumes "good r"
  shows "\<exists>r'. io_ReadAll_limited (cr_Read P) left acc r = Some ((acc @ take left (pend r), None), r')
     \<and> good r' \<and> rest r' = rest r"
  using assms
proof (induction left arbitrary: acc r rule: less_induct)
  case (less left)
  show ?case
  proof (cases "left = 0")
    case True
    with less.prems show ?thesis by (subst io_ReadAll_limited.simps) auto
  next
    case left: False
    let ?n = "min 512 left"
    show ?thesis
    proof (cases "pend r = []")
      case True
      with read_end [OF less.prems True, of ?n] left show ?thesis
        by (subst io_ReadAll_limited.simps) auto
    next
      case False
      from read_some [OF less.prems False, of ?n] left obtain bs e r' where
        rd: "cr_Read P ?n r = ((bs, e), r')" "good r'" "rest r' = rest r" "bs \<noteq> []"
          "length bs \<le> ?n" "pend r = bs @ pend r'" "e = None \<or> e = Some EEOF \<and> pend r' = []"
        by auto
      show ?thesis
      proof (cases e)
        case None
        have "left - length bs < left" using rd(4) left by (simp add: Suc_leI)
        from less.IH [OF this rd(2), of "acc @ bs"] None left rd(1,3,5,6) show ?thesis
          by (subst io_ReadAll_limited.simps) auto
      next
        case (Some x)
        with rd left show ?thesis by (subst io_ReadAll_limited.simps) auto
      qed
    qed
  qed
qed

lemma parseCloseSessionCapsule_pend:
  assumes "good r"
  shows "\<exists>r'. parseCloseSessionCapsule P r = Some (decode_close (pend r), r')
     \<and> (\<forall>c. decode_close (pend r) = Inr c \<longrightarrow> good r' \<and> rest r' = rest r \<and> pend r' = [])"
proof -
  from readFull_loop_pend [OF assms, of "[]" 4] obtain r1 err where
    l: "readFull_loop (cr_Read P) 4 [] r = Some ((take 4 (pend r), err), r1)"
    and r1: "good r1" "rest r1 = rest r" "pend r1 = drop 4 (pend r)"
    and e: "length (pend r) < 4 \<longrightarrow> err = Some EEOF"
    by auto
  show ?thesis
  proof (cases "length (pend r) < 4")
    case True
    with l e show ?thesis
      by (auto simp: parseCloseSessionCapsule_def io_ReadFull_def decode_close_def)
  next
    case False
    from readAll_limited_pend [OF r1(1), of 1024 "[]"] obtain r2 where
      r2: "io_ReadAll_limited (cr_Read P) 1024 [] r1 = Some ((take 1024 (drop 4 (pend r)), None), r2)"
        "good r2" "rest r2 = rest r1"
      using r1(3) by auto
    from discard [OF r2(2)] obtain r3 where
      "cr_Discard P r2 = (None, r3)" "good r3" "rest r3 = rest r2" "pend r3 = []" by auto
    with False l r1 r2 show ?thesis
      by (auto simp: parseCloseSessionCapsule_def io_ReadFull_def decode_close_def
          maxCloseCapsuleErrorMsgLen_def)
  qed
qed

text \<open>The four parsers of a single integer agree with the specification.\<close>

lemma varint_parsers_pend:
  assumes "good r"
  obtains r' where
    "parseMaxDataCapsule qv P r = (decode_varint qv ''WT_MAX_DATA'' (-1) (pend r), r')"
    "parseDataBlockedCapsule qv P r = (decode_varint qv ''WT_DATA_BLOCKED'' (-1) (pend r), r')"
    "parseMaxStreamsCapsule qv P r = (decode_varint qv ''WT_MAX_STREAMS'' maxStreamsLimit (pend r), r')"
    "parseStreamsBlockedCapsule qv P r = (decode_varint qv ''WT_STREAMS_BLOCKED'' maxStreamsLimit (pend r), r')"
    "good r'" "rest r' = rest r"
    "\<And>name bound v. decode_varint qv name bound (pend r) = Inr v \<Longrightarrow> pend r' = []"
proof -
  obtain res bs where lr: "run_prog (vi_Read qv) list_reader (pend r) = (res, bs)" by fastforce
  with run_prog_pend [OF assms, of "vi_Read qv"] obtain r' where
    r': "run_prog (vi_Read qv) (cr_ReadByte P) r = (res, r')" "good r'" "rest r' = rest r" "pend r' = bs"
    by auto
  note defs = parseMaxDataCapsule_def parseDataBlockedCapsule_def parseMaxStreamsCapsule_def
    parseStreamsBlockedCapsule_def decode_varint_def
  have le: "v \<le> (-1 :: u64)" for v by (rule word_n1_ge)
  show ?thesis
    by (rule that [of r'])
      (use r' lr remaining [OF r'(2)] in \<open>auto simp: defs le not_less split: sum.splits if_splits\<close>)
qed

lemma parseNextCapsule_unfold:
  assumes "caps p = (t, pl) # cs"
  shows "\<exists>p'. parseNextCapsule qv P p =
      (case decode_capsule qv t pl of None \<Rightarrow> parseNextCapsule qv P p' | Some res \<Rightarrow> Some (res, p'))
     \<and> (decode_capsule qv t pl = None \<longrightarrow> caps p' = cs)
     \<and> (\<forall>c. decode_capsule qv t pl = Some (Inr c) \<longrightarrow> caps p' = cs)"
proof -
  from next_ok [OF assms] obtain r where
    r: "cp_Next P p = Inr (t, r)" "good r" "pend r = pl" "rest r = cs" by blast
  from parseCloseSessionCapsule_pend [OF r(2)] obtain rc where
    c: "parseCloseSessionCapsule P r = Some (decode_close pl, rc)"
      "\<And>c. decode_close pl = Inr c \<Longrightarrow> caps (cp_resume P rc) = cs"
    using r resume by (metis (full_types))
  from varint_parsers_pend [OF r(2)] obtain rv where
    v: "parseMaxDataCapsule qv P r = (decode_varint qv ''WT_MAX_DATA'' (-1) pl, rv)"
      "parseDataBlockedCapsule qv P r = (decode_varint qv ''WT_DATA_BLOCKED'' (-1) pl, rv)"
      "parseMaxStreamsCapsule qv P r = (decode_varint qv ''WT_MAX_STREAMS'' maxStreamsLimit pl, rv)"
      "parseStreamsBlockedCapsule qv P r = (decode_varint qv ''WT_STREAMS_BLOCKED'' maxStreamsLimit pl, rv)"
      "\<And>name bound v. decode_varint qv name bound pl = Inr v \<Longrightarrow> caps (cp_resume P rv) = cs"
    using r resume by (metis (full_types))
  from discard [OF r(2)] obtain rd where
    d: "cr_Discard P r = (None, rd)" "caps (cp_resume P rd) = cs" using r resume by auto
  have m: "map_sum id C x = Inr y \<Longrightarrow> \<exists>z. x = Inr z" for C :: "'x \<Rightarrow> capsule" and x :: "go_error + 'x" and y
    by (cases x) auto
  show ?thesis
    unfolding parseNextCapsule.simps [of qv P p] decode_capsule_def
    using r(1) c v d by (auto simp: parsed_def dest!: m)
qed

theorem parseNextCapsule_first_known:
  assumes "first_known qv (caps p) = Some (res, cs)"
  shows "\<exists>p'. parseNextCapsule qv P p = Some (res, p') \<and> (\<forall>c. res = Inr c \<longrightarrow> caps p' = cs)"
  using assms
proof (induction "caps p" arbitrary: p)
  case Nil
  then show ?case by simp
next
  case (Cons x xs)
  obtain t pl where x: "x = (t, pl)" by fastforce
  from parseNextCapsule_unfold [of p t pl xs] Cons.hyps(2) x obtain p' where
    p': "parseNextCapsule qv P p =
      (case decode_capsule qv t pl of None \<Rightarrow> parseNextCapsule qv P p' | Some res \<Rightarrow> Some (res, p'))"
      "decode_capsule qv t pl = None \<longrightarrow> caps p' = xs"
      "\<forall>c. decode_capsule qv t pl = Some (Inr c) \<longrightarrow> caps p' = xs" by auto
  show ?case
  proof (cases "decode_capsule qv t pl")
    case None
    with Cons.hyps(1) [of p'] Cons.prems Cons.hyps(2) [symmetric] x p' show ?thesis by simp
  next
    case (Some res')
    with Cons.prems Cons.hyps(2) [symmetric] x p' show ?thesis by auto
  qed
qed

end

section \<open>Encoding and parsing agree\<close>

text \<open>The payload of an encoded capsule, and the capsule its receiver gets.\<close>

fun capsule_payload :: "quicvarint \<Rightarrow> capsule \<Rightarrow> u64 \<times> bytes" where
  "capsule_payload qv (CloseSession c) =
     (closeSessionCapsuleType, be_bytes 4 (unat (cs_ErrorCode c)) @ bytes_of_string (truncateUTF8 (cs_Message c) 1024))"
| "capsule_payload qv (MaxData v) = (maxDataCapsuleType, vi_enc qv v)"
| "capsule_payload qv (MaxStreamsBidi v) = (maxStreamsBidiCapsuleType, vi_enc qv v)"
| "capsule_payload qv (MaxStreamsUni v) = (maxStreamsUniCapsuleType, vi_enc qv v)"
| "capsule_payload qv (DataBlocked v) = (dataBlockedCapsuleType, vi_enc qv v)"
| "capsule_payload qv (StreamsBlockedBidi v) = (streamsBlockedBidiCapsuleType, vi_enc qv v)"
| "capsule_payload qv (StreamsBlockedUni v) = (streamsBlockedUniCapsuleType, vi_enc qv v)"

fun received_capsule :: "capsule \<Rightarrow> capsule" where
  "received_capsule (CloseSession c) = CloseSession (c\<lparr>cs_Message := truncateUTF8 (cs_Message c) 1024\<rparr>)"
| "received_capsule c = c"

text \<open>The values that fit: 62 bits, and at most \<open>2^60\<close> streams.\<close>

fun valid_capsule :: "capsule \<Rightarrow> bool" where
  "valid_capsule (CloseSession c) = True"
| "valid_capsule (MaxData v) = (v \<le> quicvarint_Max)"
| "valid_capsule (DataBlocked v) = (v \<le> quicvarint_Max)"
| "valid_capsule (MaxStreamsBidi v) = (v \<le> maxStreamsLimit)"
| "valid_capsule (MaxStreamsUni v) = (v \<le> maxStreamsLimit)"
| "valid_capsule (StreamsBlockedBidi v) = (v \<le> maxStreamsLimit)"
| "valid_capsule (StreamsBlockedUni v) = (v \<le> maxStreamsLimit)"

lemma maxStreamsLimit_le_Max: "v \<le> maxStreamsLimit \<Longrightarrow> v \<le> quicvarint_Max"
  by (erule order_trans) (simp add: maxStreamsLimit_def quicvarint_Max_def)

lemma of_nat_le_Max: "n < 2 ^ 62 \<Longrightarrow> of_nat n \<le> quicvarint_Max"
  by (simp add: le_quicvarint_Max_iff unsigned_of_nat take_bit_nat_eq_self)

lemma capsule_types_le_Max:
  "closeSessionCapsuleType \<le> quicvarint_Max" "maxDataCapsuleType \<le> quicvarint_Max"
  "maxStreamsBidiCapsuleType \<le> quicvarint_Max" "maxStreamsUniCapsuleType \<le> quicvarint_Max"
  "dataBlockedCapsuleType \<le> quicvarint_Max" "streamsBlockedBidiCapsuleType \<le> quicvarint_Max"
  "streamsBlockedUniCapsuleType \<le> quicvarint_Max"
  by (simp_all add: capsule_types quicvarint_Max_def)

lemma sent_message:
  "(if length m > maxCloseCapsuleErrorMsgLen then truncateUTF8 m maxCloseCapsuleErrorMsgLen else m)
     = truncateUTF8 m 1024"
  by (simp add: maxCloseCapsuleErrorMsgLen_def truncateUTF8_def)

context varint_codec
begin

lemma varintCapsule_Append_ok:
  assumes "typ \<le> quicvarint_Max" "v \<le> quicvarint_Max"
  shows "varintCapsule_Append qv typ v b
    = Some (b @ vi_enc qv typ @ vi_enc qv (of_nat (length (vi_enc qv v))) @ vi_enc qv v)"
proof -
  have "length (vi_enc qv v) < 2 ^ 62" using enc_length [OF assms(2)] by simp
  with assms show ?thesis
    by (simp add: varintCapsule_Append_def append_ok len_ok of_nat_le_Max)
qed

lemma capsule_Append_ok:
  assumes "valid_capsule c" "capsule_payload qv c = (t, pl)"
  shows "capsule_Append qv c b = Some (b @ vi_enc qv t @ vi_enc qv (of_nat (length pl)) @ pl)"
    and "t \<le> quicvarint_Max" and "length pl < 2 ^ 62"
proof -
  have v: "length (vi_enc qv v) < 2 ^ 62" if "v \<le> quicvarint_Max" for v
    using enc_length [OF that] by simp
  have m: "4 + length (truncateUTF8 x 1024) < 2 ^ 62" for x
    using truncateUTF8_length [of x 1024] by simp
  show "length pl < 2 ^ 62"
    using assms v m by (cases c) (auto dest: maxStreamsLimit_le_Max)
  show "t \<le> quicvarint_Max" using assms by (cases c) (auto simp: capsule_types_le_Max)
  have "closeSessionCapsule_Append qv x b = Some (b @ vi_enc qv closeSessionCapsuleType
      @ vi_enc qv (of_nat (4 + length (truncateUTF8 (cs_Message x) 1024)))
      @ be_bytes 4 (unat (cs_ErrorCode x)) @ bytes_of_string (truncateUTF8 (cs_Message x) 1024))" for x
    using of_nat_le_Max [OF m [of "cs_Message x"]]
    unfolding closeSessionCapsule_Append_def sent_message Let_def
    by (simp add: append_ok capsule_types_le_Max)
  with assms show "capsule_Append qv c b = Some (b @ vi_enc qv t @ vi_enc qv (of_nat (length pl)) @ pl)"
    by (cases c) (auto simp: varintCapsule_Append_ok capsule_types_le_Max dest: maxStreamsLimit_le_Max)
qed

lemma decode_varint_enc:
  assumes "v \<le> quicvarint_Max" "v \<le> bound"
  shows "decode_varint qv name bound (vi_enc qv v) = Inr v"
  using read_enc [OF assms(1), of "[]"] assms(2) by (simp add: decode_varint_def)

lemma decode_capsule_payload:
  assumes "valid_capsule c" "capsule_payload qv c = (t, pl)"
  shows "decode_capsule qv t pl = Some (Inr (received_capsule c))"
proof (cases c)
  case (CloseSession x)
  have "be_value (be_bytes 4 (unat (cs_ErrorCode x))) = unat (cs_ErrorCode x)"
    using unat_u32_bound [of "cs_ErrorCode x"] by (intro be_value_be_bytes) simp
  moreover have "take 1024 (bytes_of_string (truncateUTF8 (cs_Message x) 1024))
      = bytes_of_string (truncateUTF8 (cs_Message x) 1024)"
    using truncateUTF8_length [of "cs_Message x" 1024] by simp
  ultimately have "decode_close (be_bytes 4 (unat (cs_ErrorCode x))
      @ bytes_of_string (truncateUTF8 (cs_Message x) 1024))
      = Inr (x\<lparr>cs_Message := truncateUTF8 (cs_Message x) 1024\<rparr>)"
    using length_be_bytes [of 4 "unat (cs_ErrorCode x)"]
    by (cases x) (auto simp: decode_close_def simp del: be_bytes.simps length_be_bytes)
  with CloseSession assms show ?thesis by (auto simp: decode_capsule_def)
qed (use assms in \<open>auto simp: decode_capsule_def decode_varint_enc capsule_types word_n1_ge
      maxStreamsLimit_le_Max\<close>)

end

context capsule_stream
begin

lemma append_parse:
  assumes "valid_capsule c"
  shows "\<exists>bs. capsule_Append qv c [] = Some bs
    \<and> (\<forall>ws p. caps p = caps (parser (bs @ ws)) \<longrightarrow>
         (\<exists>p'. parseNextCapsule qv P p = Some (Inr (received_capsule c), p') \<and> caps p' = caps (parser ws)))"
proof -
  obtain t pl where tp: "capsule_payload qv c = (t, pl)" by fastforce
  note a = capsule_Append_ok [OF assms tp]
  have w: "caps (parser (vi_enc qv t @ vi_enc qv (of_nat (length pl)) @ pl @ ws)) = (t, pl) # caps (parser ws)" for ws
    using a of_nat_le_Max by (intro wire) auto
  have "\<exists>p'. parseNextCapsule qv P p = Some (Inr (received_capsule c), p') \<and> caps p' = caps (parser ws)"
    if "caps p = caps (parser (vi_enc qv t @ vi_enc qv (of_nat (length pl)) @ pl @ ws))" for p ws
  proof -
    have "first_known qv (caps p) = Some (Inr (received_capsule c), caps (parser ws))"
      using decode_capsule_payload [OF assms tp] by (simp add: that w)
    from parseNextCapsule_first_known [OF this] show ?thesis by auto
  qed
  with a(1) [of "[]"] show ?thesis by auto
qed

end

text \<open>
  C7. The parser refines its specification: on any stream of complete capsules it returns (it
  does not loop), skips exactly the capsules of unknown type, and yields what the first known
  capsule means, a capsule or an error; after a capsule the stream is at the next one.
\<close>

theorem parseNextCapsule_refines:
  assumes "capsule_stream qv P parser caps pend rest good"
    and "first_known qv (caps p) = Some (res, cs)"
  shows "\<exists>p'. parseNextCapsule qv P p = Some (res, p') \<and> (\<forall>c. res = Inr c \<longrightarrow> caps p' = cs)"
  using capsule_stream.parseNextCapsule_first_known [OF assms] .


section \<open>A parser over a list of bytes\<close>

lemma rfc_read_shorter:
  assumes "run_prog rfc_read list_reader bs = (Inr v, bs')"
  shows "length bs' < length bs"
proof -
  from assms obtain b bs1 where bs: "bs = b # bs1" by (cases bs) (auto simp: rfc_read_def)
  have "length (snd (run_prog q list_reader bs1)) \<le> length bs1" for q :: "u64 byte_prog"
    using list_reader_consumed [of bs1 q] by simp
  with assms bs show ?thesis by (auto simp: rfc_read_def less_Suc_eq_le) (metis snd_conv)
qed

text \<open>The next complete capsule of a byte string: type, payload and the bytes after it.\<close>

definition split_capsule :: "bytes \<Rightarrow> (u64 \<times> bytes \<times> bytes) option" where
  "split_capsule bs =
     (case run_prog rfc_read list_reader bs of
        (Inr t, b1) \<Rightarrow>
          (case run_prog rfc_read list_reader b1 of
             (Inr n, b2) \<Rightarrow> if unat n \<le> length b2 then Some (t, take (unat n) b2, drop (unat n) b2) else None
           | _ \<Rightarrow> None)
      | _ \<Rightarrow> None)"

lemma split_capsule_shorter: "split_capsule bs = Some (t, pl, bs') \<Longrightarrow> length bs' < length bs"
  by (auto simp: split_capsule_def dest!: rfc_read_shorter split: prod.splits sum.splits if_splits)

function list_caps :: "bytes \<Rightarrow> (u64 \<times> bytes) list" where
  "list_caps bs = (case split_capsule bs of None \<Rightarrow> [] | Some (t, pl, bs') \<Rightarrow> (t, pl) # list_caps bs')"
  by pat_completeness auto
termination
  by (relation "measure length") (auto dest: split_capsule_shorter)

declare list_caps.simps [simp del]

record list_capsule_reader =
  lr_pend :: bytes
  lr_after :: bytes

definition list_capsules :: "(bytes, list_capsule_reader) http3_capsules" where
  "list_capsules =
     \<lparr>cp_Next = (\<lambda>bs. case split_capsule bs of
          None \<Rightarrow> Inl (if bs = [] then EEOF else EUnexpectedEOF, bs)
        | Some (t, pl, bs') \<Rightarrow> Inr (t, \<lparr>lr_pend = pl, lr_after = bs'\<rparr>)),
      cp_resume = lr_after,
      cr_Read = (\<lambda>n r. if lr_pend r = [] then (([], Some EEOF), r)
          else ((take n (lr_pend r), None), r\<lparr>lr_pend := drop n (lr_pend r)\<rparr>)),
      cr_ReadByte = (\<lambda>r. (fst (list_reader (lr_pend r)), r\<lparr>lr_pend := snd (list_reader (lr_pend r))\<rparr>)),
      cr_Remaining = (\<lambda>r. length (lr_pend r)),
      cr_Discard = (\<lambda>r. (None, r\<lparr>lr_pend := []\<rparr>))\<rparr>"

lemma split_capsule_wire:
  assumes "t \<le> quicvarint_Max" "length pl < 2 ^ 62"
  shows "split_capsule (vi_enc rfc9000 t @ vi_enc rfc9000 (of_nat (length pl)) @ pl @ bs) = Some (t, pl, bs)"
proof -
  have l: "of_nat (length pl) \<le> quicvarint_Max" by (rule of_nat_le_Max [OF assms(2)])
  have "unat (of_nat (length pl) :: u64) = length pl"
    using assms(2) by (simp add: unsigned_of_nat take_bit_nat_eq_self)
  moreover have "vi_Read rfc9000 = rfc_read" by (simp add: rfc9000_def)
  ultimately show ?thesis
    using rfc.read_enc [OF assms(1), of "vi_enc rfc9000 (of_nat (length pl)) @ pl @ bs"]
      rfc.read_enc [OF l, of "pl @ bs"]
    by (simp add: split_capsule_def)
qed

interpretation lcs: capsule_stream rfc9000 list_capsules "\<lambda>bs. bs" list_caps lr_pend
  "\<lambda>r. list_caps (lr_after r)" "\<lambda>_. True"
proof unfold_locales
  show "\<exists>r. cp_Next list_capsules p = Inr (t, r) \<and> True \<and> lr_pend r = pl \<and> list_caps (lr_after r) = cs"
    if "list_caps p = (t, pl) # cs" for p t pl cs
    using that by (subst (asm) list_caps.simps) (auto simp: list_capsules_def split: option.splits)
qed (auto simp: list_capsules_def list_caps.simps [of "_ @ _"] split_capsule_wire)

theorem parseNextCapsule_refines_witness:
  "\<exists>p'. parseNextCapsule rfc9000 list_capsules
       (vi_enc rfc9000 0x21 @ vi_enc rfc9000 1 @ [7]
        @ vi_enc rfc9000 maxStreamDataCapsuleType @ vi_enc rfc9000 0) =
     Some (Inl (ENew ''WT_MAX_STREAM_DATA capsule received''), p')"
proof -
  let ?b2 = "vi_enc rfc9000 maxStreamDataCapsuleType @ vi_enc rfc9000 0"
  have "list_caps ?b2 = (maxStreamDataCapsuleType, []) # list_caps []"
    using lcs.wire [of maxStreamDataCapsuleType "[]" "[]"]
    by (simp add: capsule_types quicvarint_Max_def)
  moreover have "list_caps (vi_enc rfc9000 0x21 @ vi_enc rfc9000 1 @ [7] @ ?b2) = (0x21, [7]) # list_caps ?b2"
    using lcs.wire [of "0x21" "[7]" ?b2] by (simp add: quicvarint_Max_def)
  ultimately have "first_known rfc9000 (list_caps (vi_enc rfc9000 0x21 @ vi_enc rfc9000 1 @ [7] @ ?b2))
      = Some (Inl (ENew ''WT_MAX_STREAM_DATA capsule received''), list_caps [])"
    by (simp add: decode_capsule_def capsule_types)
  from parseNextCapsule_refines [OF lcs.capsule_stream_axioms this]
  show "\<exists>p'. parseNextCapsule rfc9000 list_capsules
         (vi_enc rfc9000 0x21 @ vi_enc rfc9000 1 @ [7]
          @ vi_enc rfc9000 maxStreamDataCapsuleType @ vi_enc rfc9000 0) =
        Some (Inl (ENew ''WT_MAX_STREAM_DATA capsule received''), p')"
    by auto
qed


end
