(* ===== verification/WT_Credit.thy ===== *)
theory WT_Credit
  imports WT_Prelude
begin

text \<open>
  The credit protocol behind both kinds of WebTransport flow control. A sender may use units
  (bytes, streams) up to a limit; the receiver counts what arrives and announces larger limits
  in capsules that travel in order on the CONNECT stream. Data flow control and stream limits
  are two instances: the interfaces are the locales \<open>credit_sender\<close> and \<open>credit_receiver\<close>, the
  protocol of both ends is \<open>net_step\<close>, and its safety is proved once, in \<open>credit_protocol\<close>.
\<close>

section \<open>Two endpoints and the wire between them\<close>

record ('s, 'r) net =
  n_snd :: 's
  n_rcv :: 'r
  n_flight :: int         \<comment> \<open>units sent and not yet processed by the receiver\<close>
  n_caps :: "int list"    \<comment> \<open>announced limits on their way, oldest first\<close>
  n_err :: bool           \<comment> \<open>one of the ends reported a flow control error\<close>

text \<open>
  \<open>send\<close> uses credit (how much is the sender's choice), \<open>upd\<close> processes an announced limit and
  says if it accepts it, \<open>rstep\<close> is an event at the receiver: it may take \<open>units\<close> from the
  wire, says if they were accepted, and returns the limits it announces. A run is considered
  up to a total of \<open>budget\<close> units.
\<close>

inductive net_step ::
  "('d \<Rightarrow> 's \<Rightarrow> int \<times> 's) \<Rightarrow> (int \<Rightarrow> 's \<Rightarrow> bool \<times> 's) \<Rightarrow> ('s \<Rightarrow> int)
    \<Rightarrow> ('e \<Rightarrow> 'r \<Rightarrow> (bool \<times> int list) \<times> 'r) \<Rightarrow> ('e \<Rightarrow> int) \<Rightarrow> int
    \<Rightarrow> ('s, 'r) net \<Rightarrow> ('s, 'r) net \<Rightarrow> bool"
  for send upd sent rstep units budget where
  net_send: "send d (n_snd n) = (a, s') \<Longrightarrow> sent s' \<le> budget \<Longrightarrow>
     net_step send upd sent rstep units budget n (n\<lparr>n_snd := s', n_flight := n_flight n + a\<rparr>)"
| net_recv: "0 \<le> units e \<Longrightarrow> units e \<le> n_flight n \<Longrightarrow> rstep e (n_rcv n) = ((ok, as), r') \<Longrightarrow>
     net_step send upd sent rstep units budget n
       (n\<lparr>n_rcv := r', n_flight := n_flight n - units e, n_caps := n_caps n @ as,
          n_err := (n_err n \<or> \<not> ok)\<rparr>)"
| net_limit: "n_caps n = l # ls \<Longrightarrow> upd l (n_snd n) = (ok, s') \<Longrightarrow>
     net_step send upd sent rstep units budget n
       (n\<lparr>n_snd := s', n_caps := ls, n_err := (n_err n \<or> \<not> ok)\<rparr>)"

definition net_init :: "'s \<Rightarrow> 'r \<Rightarrow> ('s, 'r) net \<Rightarrow> bool" where
  "net_init s r n \<longleftrightarrow> n = \<lparr>n_snd = s, n_rcv = r, n_flight = 0, n_caps = [], n_err = False\<rparr>"

section \<open>The interfaces\<close>

locale credit_sender =
  fixes sinv :: "'s \<Rightarrow> bool"
    and sent :: "'s \<Rightarrow> int"
    and lim :: "'s \<Rightarrow> int"
    and send :: "'d \<Rightarrow> 's \<Rightarrow> int \<times> 's"
    and upd :: "int \<Rightarrow> 's \<Rightarrow> bool \<times> 's"
    and top :: int
  assumes sent_le_lim: "sinv s \<Longrightarrow> sent s \<le> lim s"
    and send_law: "sinv s \<Longrightarrow> send d s = (a, s') \<Longrightarrow>
          sinv s' \<and> 0 \<le> a \<and> sent s' = sent s + a \<and> lim s' = lim s"
    and upd_accept: "sinv s \<Longrightarrow> lim s < l \<Longrightarrow> l \<le> top \<Longrightarrow> upd l s = (ok, s') \<Longrightarrow>
          ok \<and> sinv s' \<and> lim s' = l \<and> sent s' = sent s"
    and upd_reject: "sinv s \<Longrightarrow> 0 \<le> l \<Longrightarrow> l \<le> lim s \<Longrightarrow> \<not> fst (upd l s)"

locale credit_receiver =
  fixes rinv :: "'r \<Rightarrow> bool"
    and rcvd :: "'r \<Rightarrow> int"
    and adv :: "'r \<Rightarrow> int"     \<comment> \<open>what the receiver accepts\<close>
    and ann :: "'r \<Rightarrow> int"     \<comment> \<open>the last limit it announced\<close>
    and rstep :: "'e \<Rightarrow> 'r \<Rightarrow> (bool \<times> int list) \<times> 'r"
    and units :: "'e \<Rightarrow> int"
    and budget :: int
    and top :: int
  assumes ann_le_adv: "rinv r \<Longrightarrow> ann r \<le> adv r"
    and recv_law: "rinv r \<Longrightarrow> 0 \<le> units e \<Longrightarrow> rcvd r + units e \<le> adv r \<Longrightarrow>
          rcvd r + units e \<le> budget \<Longrightarrow> rstep e r = ((ok, as), r') \<Longrightarrow>
          ok \<and> rinv r' \<and> rcvd r' = rcvd r + units e \<and>
          (as = [] \<and> ann r' = ann r \<or> as = [ann r'] \<and> ann r < ann r' \<and> ann r' \<le> top)"

section \<open>The protocol is safe\<close>

locale credit_protocol =
  S: credit_sender sinv sent lim send upd top +
  R: credit_receiver rinv rcvd adv ann rstep units budget top
  for sinv :: "'s \<Rightarrow> bool" and sent lim
    and send :: "'d \<Rightarrow> 's \<Rightarrow> int \<times> 's" and upd
    and rinv :: "'r \<Rightarrow> bool" and rcvd adv ann
    and rstep :: "'e \<Rightarrow> 'r \<Rightarrow> (bool \<times> int list) \<times> 'r" and units and budget and top
begin

text \<open>
  Everything the sender used is either in flight or counted by the receiver; the limits the
  sender has still to process are larger than its own one, increase, and end with the
  receiver's last announcement.
\<close>

definition net_inv :: "('s, 'r) net \<Rightarrow> bool" where
  "net_inv n \<longleftrightarrow> sinv (n_snd n) \<and> rinv (n_rcv n) \<and> \<not> n_err n \<and> 0 \<le> n_flight n
     \<and> sent (n_snd n) = rcvd (n_rcv n) + n_flight n
     \<and> sent (n_snd n) \<le> budget
     \<and> sorted_wrt (<) (lim (n_snd n) # n_caps n)
     \<and> (\<forall>l \<in> set (n_caps n). l \<le> top)
     \<and> last (lim (n_snd n) # n_caps n) = ann (n_rcv n)"

lemma net_invD:
  assumes "net_inv n"
  shows "lim (n_snd n) \<le> ann (n_rcv n)" "sent (n_snd n) \<le> adv (n_rcv n)"
proof -
  from assms have "sorted_wrt (<) (lim (n_snd n) # n_caps n)"
    and l: "last (lim (n_snd n) # n_caps n) = ann (n_rcv n)"
    by (simp_all add: net_inv_def)
  then show *: "lim (n_snd n) \<le> ann (n_rcv n)"
    by (cases "n_caps n") (auto simp flip: l dest: order_less_imp_le)
  from assms have "rinv (n_rcv n)" "sinv (n_snd n)" by (simp_all add: net_inv_def)
  then have "ann (n_rcv n) \<le> adv (n_rcv n)" "sent (n_snd n) \<le> lim (n_snd n)"
    by (simp_all add: R.ann_le_adv S.sent_le_lim)
  with * show "sent (n_snd n) \<le> adv (n_rcv n)" by linarith
qed

lemma net_inv_send:
  assumes "net_inv n" "send d (n_snd n) = (a, s')" "sent s' \<le> budget"
  shows "net_inv (n\<lparr>n_snd := s', n_flight := n_flight n + a\<rparr>)"
  using assms S.send_law [OF _ assms(2)] by (auto simp: net_inv_def)

lemma net_inv_recv:
  assumes inv: "net_inv n" and u: "0 \<le> units e" "units e \<le> n_flight n"
    and r: "rstep e (n_rcv n) = ((ok, as), r')"
  shows "net_inv (n\<lparr>n_rcv := r', n_flight := n_flight n - units e, n_caps := n_caps n @ as,
                    n_err := (n_err n \<or> \<not> ok)\<rparr>)"
proof -
  let ?L = "lim (n_snd n) # n_caps n"
  from inv have ri: "rinv (n_rcv n)" and sm: "sent (n_snd n) = rcvd (n_rcv n) + n_flight n"
    and sb: "sent (n_snd n) \<le> budget" and so: "sorted_wrt (<) ?L"
    and la: "last ?L = ann (n_rcv n)"
    by (simp_all add: net_inv_def)
  from sm sb u net_invD(2) [OF inv]
  have "rcvd (n_rcv n) + units e \<le> adv (n_rcv n)" "rcvd (n_rcv n) + units e \<le> budget"
    by linarith+
  from R.recv_law [OF ri u(1) this r]
  have *: "ok" "rinv r'" "rcvd r' = rcvd (n_rcv n) + units e"
    and as: "as = [] \<and> ann r' = ann (n_rcv n) \<or> as = [ann r'] \<and> ann (n_rcv n) < ann r' \<and> ann r' \<le> top"
    by blast+
  have below: "\<forall>x \<in> set ?L. x \<le> ann (n_rcv n)"
    unfolding la [symmetric] using sorted_wrt_less_last [OF so] by blast
  with as so have "sorted_wrt (<) (?L @ as)"
    by (auto simp: sorted_wrt_append)
  moreover from as la have "last (?L @ as) = ann r'" by auto
  ultimately show ?thesis
    using inv * as u sm by (auto simp: net_inv_def)
qed

lemma net_inv_limit:
  assumes inv: "net_inv n" and c: "n_caps n = l # ls" and u: "upd l (n_snd n) = (ok, s')"
  shows "net_inv (n\<lparr>n_snd := s', n_caps := ls, n_err := (n_err n \<or> \<not> ok)\<rparr>)"
proof -
  from inv c have "sinv (n_snd n)" "lim (n_snd n) < l" "l \<le> top" by (simp_all add: net_inv_def)
  from S.upd_accept [OF this u] inv c show ?thesis by (auto simp: net_inv_def)
qed

lemma net_inv_reach:
  assumes "reach (net_init s0 r0) (net_step send upd sent rstep units budget) n"
    and "sinv s0" "rinv r0" "sent s0 = rcvd r0" "sent s0 \<le> budget" "lim s0 = ann r0"
  shows "net_inv n"
  using assms(1)
proof (rule reach_invariant)
  show "net_inv s" if "net_init s0 r0 s" for s
    using that assms(2-) by (simp add: net_init_def net_inv_def)
next
  fix m n
  assume "net_inv m" "net_step send upd sent rstep units budget m n"
  from this(2,1) show "net_inv n"
    by (cases rule: net_step.cases) (auto intro: net_inv_send net_inv_recv net_inv_limit)
qed

text \<open>When nothing is on the wire, the sender's limit is the receiver's last announcement.\<close>

lemma net_inv_quiescent:
  assumes "net_inv n" "n_flight n = 0" "n_caps n = []"
  shows "sent (n_snd n) = rcvd (n_rcv n)" "lim (n_snd n) = ann (n_rcv n)"
  using assms by (simp_all add: net_inv_def)

end

end
