(* ===== verification/WT_Outgoing.thy ===== *)
theory WT_Outgoing
  imports WT_Capsule WT_Credit
begin

text \<open>
  The streams this endpoint opens (\<open>streams_map_outgoing.go\<close>): \<open>OpenStream\<close>, the blocking
  \<open>OpenStreamSync\<close> with its queue of waiting goroutines, limit updates and closing.

  Each critical section of the mutex \<open>mx\<close> is one function on the record \<open>outgoingStreamsMap\<close>.
  The wait channels (\<open>chan struct{}\<close> of capacity 1) live in a store \<open>osm_chan\<close>, since the map, the
  waiting goroutine and \<open>CloseSession\<close> share them; \<open>osm_nextChan\<close> is the next free address. What
  would be a run-time panic (a write to the nil map, a send on or close of a closed channel,
  slicing an empty queue) sets \<open>osm_panic\<close>. \<open>OpenStreamSync\<close> leaves the mutex several times: its
  sections are connected by the step relation of the theory \<open>WT_OutgoingSync\<close>, which proves them
  correct for any number of goroutines. The opening of the QUIC stream is a call into quic-go:
  its result is an argument.
\<close>

section \<open>State\<close>

record wait_chan =
  ch_token :: bool
  ch_closed :: bool

record 't outgoingStreamsMap =
  osm_closeErr :: "go_error option"
  osm_streamCtxs :: "(int \<times> nat) list"   \<comment> \<open>cancel functions, by the goroutine they cancel\<close>
  osm_openQueue :: "nat list"
  osm_numStreams :: u64
  osm_maxStreams :: u64
  osm_blockedSent :: bool
  osm_m :: "(int \<times> 't) list option"
  osm_chan :: "nat \<Rightarrow> wait_chan"
  osm_nextChan :: nat
  osm_panic :: bool

definition open_chan :: wait_chan where
  "open_chan = \<lparr>ch_token = False, ch_closed = False\<rparr>"

definition newOutgoingStreamsMap :: "u64 \<Rightarrow> 't outgoingStreamsMap" where
  "newOutgoingStreamsMap maxStreams =
     \<lparr>osm_closeErr = None, osm_streamCtxs = [], osm_openQueue = [], osm_numStreams = 0,
      osm_maxStreams = maxStreams, osm_blockedSent = False, osm_m = Some [],
      osm_chan = (\<lambda>_. open_chan), osm_nextChan = 0, osm_panic = False\<rparr>"

definition errMaxStreamsNotIncreased :: go_error where
  "errMaxStreamsNotIncreased = ENew ''webtransport: WT_MAX_STREAMS capsule didn't increase stream limit''"

definition invalidStreamID :: int where
  "invalidStreamID = -1"

section \<open>Stream headers\<close>

definition webTransportFrameType :: u64 where "webTransportFrameType = 0x41"
definition webTransportUniStreamType :: u64 where "webTransportUniStreamType = 0x54"

definition newOutgoingStreamHeader :: "quicvarint \<Rightarrow> u64 \<Rightarrow> u64 \<Rightarrow> bytes option" where
  "newOutgoingStreamHeader qv streamType sessionID =
     do {
       _ \<leftarrow> vi_Len qv sessionID;
       hdr \<leftarrow> vi_Append qv [] streamType;
       vi_Append qv hdr sessionID
     }"

section \<open>Opening without waiting\<close>

definition out_removeStream :: "int \<Rightarrow> 't outgoingStreamsMap \<Rightarrow> 't outgoingStreamsMap" where
  "out_removeStream i s = s\<lparr>osm_m := map_option (AList.delete i) (osm_m s)\<rparr>"

text \<open>\<open>s.m[id] = str\<close>.\<close>

definition out_putStream :: "int \<Rightarrow> 't \<Rightarrow> 't outgoingStreamsMap \<Rightarrow> 't outgoingStreamsMap" where
  "out_putStream i str s =
     (case osm_m s of
        None \<Rightarrow> s\<lparr>osm_panic := True\<rparr>
      | Some m \<Rightarrow> s\<lparr>osm_m := Some (AList.update i str m)\<rparr>)"

text \<open>Unblock the first waiting goroutine, unless it already has its token.\<close>

definition maybeUnblockOpenSync :: "'t outgoingStreamsMap \<Rightarrow> 't outgoingStreamsMap" where
  "maybeUnblockOpenSync s =
     (case osm_openQueue s of
        [] \<Rightarrow> s
      | c # _ \<Rightarrow>
          if osm_numStreams s \<ge> osm_maxStreams s then s
          else if ch_closed (osm_chan s c) then s\<lparr>osm_panic := True\<rparr>
          else s\<lparr>osm_chan := (osm_chan s)(c := (osm_chan s c)\<lparr>ch_token := True\<rparr>)\<rparr>)"

text \<open>
  \<open>OpenStream\<close>: the result, and the limit for which \<open>queueBlocked\<close> is called after the mutex is
  released. \<open>opened\<close> is the result of \<open>openStream()\<close>.
\<close>

definition OpenStream ::
  "(go_error + int \<times> 't) \<Rightarrow> 't outgoingStreamsMap
     \<Rightarrow> ((go_error + 't) \<times> u64 option) \<times> 't outgoingStreamsMap" where
  "OpenStream opened s =
     (case osm_closeErr s of
        Some e \<Rightarrow> ((Inl e, None), s)
      | None \<Rightarrow>
          if osm_openQueue s \<noteq> [] then ((Inl EStreamLimitReached, None), s)
          else if osm_numStreams s \<ge> osm_maxStreams s
          then (if \<not> osm_blockedSent s
                then ((Inl EStreamLimitReached, Some (osm_maxStreams s)), s\<lparr>osm_blockedSent := True\<rparr>)
                else ((Inl EStreamLimitReached, None), s))
          else
            let s1 = s\<lparr>osm_numStreams := osm_numStreams s + 1\<rparr>
            in case opened of
                 Inl err \<Rightarrow>
                   ((Inl err, None), maybeUnblockOpenSync (s1\<lparr>osm_numStreams := osm_numStreams s1 - 1\<rparr>))
               | Inr (i, str) \<Rightarrow> ((Inr str, None), out_putStream i str s1))"

section \<open>The sections of OpenStreamSync\<close>

text \<open>Registering the cancel function under the first random number that is free.\<close>

fun addStreamCtxCancel :: "int list \<Rightarrow> nat \<Rightarrow> 't outgoingStreamsMap \<Rightarrow> (int \<times> 't outgoingStreamsMap) option" where
  "addStreamCtxCancel [] g s = None"
| "addStreamCtxCancel (r # rands) g s =
     (if r \<in> fst ` set (osm_streamCtxs s) then addStreamCtxCancel rands g s
      else Some (r, s\<lparr>osm_streamCtxs := (r, g) # osm_streamCtxs s\<rparr>))"

datatype wait_result =
    WaitErr go_error
  | Reserved                      \<comment> \<open>a stream is reserved\<close>
  | Queued nat "u64 option"       \<comment> \<open>waits on a channel; a limit to report as blocked\<close>
  | ReservedBlocked u64           \<comment> \<open>reserved, and the next goroutine is blocked at a limit\<close>

text \<open>
  The entry of \<open>OpenStreamSync\<close> up to the first time the mutex is released: \<open>ctxErr\<close> is
  \<open>ctx.Err()\<close>.
\<close>

definition openSync_enter ::
  "go_error option \<Rightarrow> 't outgoingStreamsMap \<Rightarrow> wait_result \<times> 't outgoingStreamsMap" where
  "openSync_enter ctxErr s =
     (case osm_closeErr s of
        Some e \<Rightarrow> (WaitErr e, s)
      | None \<Rightarrow>
          (case ctxErr of
             Some e \<Rightarrow> (WaitErr e, s)
           | None \<Rightarrow>
               if osm_openQueue s = [] \<and> osm_numStreams s < osm_maxStreams s
               then (Reserved, s\<lparr>osm_numStreams := osm_numStreams s + 1\<rparr>)
               else
                 let waitChan = osm_nextChan s;
                     s1 = s\<lparr>osm_chan := (osm_chan s)(waitChan := open_chan), osm_nextChan := Suc waitChan,
                            osm_openQueue := osm_openQueue s @ [waitChan]\<rparr>
                 in if osm_numStreams s1 \<ge> osm_maxStreams s1 \<and> \<not> osm_blockedSent s1
                    then (Queued waitChan (Some (osm_maxStreams s1)), s1\<lparr>osm_blockedSent := True\<rparr>)
                    else (Queued waitChan None, s1)))"

text \<open>The branch of the \<open>select\<close> in which the context is done.\<close>

definition openSync_cancelled :: "nat \<Rightarrow> 't outgoingStreamsMap \<Rightarrow> 't outgoingStreamsMap" where
  "openSync_cancelled waitChan s =
     maybeUnblockOpenSync (s\<lparr>osm_openQueue := filter (\<lambda>c. c \<noteq> waitChan) (osm_openQueue s)\<rparr>)"

text \<open>The section after the wait channel delivered.\<close>

definition openSync_woken ::
  "go_error option \<Rightarrow> nat \<Rightarrow> 't outgoingStreamsMap \<Rightarrow> wait_result \<times> 't outgoingStreamsMap" where
  "openSync_woken ctxErr waitChan s =
     (case osm_closeErr s of
        Some e \<Rightarrow> (WaitErr e, s)
      | None \<Rightarrow>
          (case ctxErr of
             Some e \<Rightarrow> (WaitErr e, openSync_cancelled waitChan s)
           | None \<Rightarrow>
               let s1 = s\<lparr>osm_numStreams := osm_numStreams s + 1\<rparr>;
                   s2 = (case osm_openQueue s1 of
                           [] \<Rightarrow> s1\<lparr>osm_panic := True\<rparr>
                         | _ # q \<Rightarrow> s1\<lparr>osm_openQueue := q\<rparr>)
               in if osm_openQueue s2 \<noteq> [] \<and> osm_numStreams s2 \<ge> osm_maxStreams s2
                  then (if \<not> osm_blockedSent s2
                        then (ReservedBlocked (osm_maxStreams s2), s2\<lparr>osm_blockedSent := True\<rparr>)
                        else (Reserved, s2))
                  else (Reserved, maybeUnblockOpenSync s2)))"

text \<open>
  The last section: \<open>i\<close> is the number of the cancel function, \<open>opened\<close> the result of
  \<open>openStreamSync(ctx)\<close>; an error comes with \<open>invalidStreamID\<close>. Returns also the stream that is
  closed because the session was closed in the meantime.
\<close>

definition openSync_finish ::
  "int \<Rightarrow> (go_error + int \<times> 't) \<Rightarrow> 't outgoingStreamsMap
     \<Rightarrow> ((go_error + 't) \<times> ('t \<times> go_error) list) \<times> 't outgoingStreamsMap" where
  "openSync_finish i opened s =
     (let s1 = s\<lparr>osm_streamCtxs := AList.delete i (osm_streamCtxs s)\<rparr>
      in case opened of
           Inr (sid, str) \<Rightarrow>
             (case osm_closeErr s1 of
                Some e \<Rightarrow> ((Inl e, [(str, e)]), s1)
              | None \<Rightarrow> ((Inr str, []), out_putStream sid str s1))
         | Inl err \<Rightarrow>
             (case osm_closeErr s1 of
                Some e \<Rightarrow> ((Inl e, []), s1)
              | None \<Rightarrow>
                  ((Inl err, []), maybeUnblockOpenSync (s1\<lparr>osm_numStreams := osm_numStreams s1 - 1\<rparr>))))"

section \<open>Limits and closing\<close>

definition UpdateStreamLimit ::
  "u64 \<Rightarrow> 't outgoingStreamsMap \<Rightarrow> go_error option \<times> 't outgoingStreamsMap" where
  "UpdateStreamLimit limit s =
     (case osm_closeErr s of
        Some _ \<Rightarrow> (None, s)
      | None \<Rightarrow>
          if limit \<le> osm_maxStreams s
          then (Some (EWrap (go_Error (\<lambda>_. '''') errMaxStreamsNotIncreased
                    @ '': current limit: '' @ show_nat (unat (osm_maxStreams s))
                    @ '', received limit: '' @ show_nat (unat limit)) errMaxStreamsNotIncreased), s)
          else (None, maybeUnblockOpenSync (s\<lparr>osm_maxStreams := limit, osm_blockedSent := False\<rparr>)))"

text \<open>
  \<open>CloseSession\<close>: the goroutines whose contexts are cancelled, and the streams that are closed.
\<close>

definition out_CloseSession ::
  "go_error \<Rightarrow> 't outgoingStreamsMap \<Rightarrow> (nat list \<times> ('t \<times> go_error) list) \<times> 't outgoingStreamsMap" where
  "out_CloseSession err s =
     (case osm_closeErr s of
        Some _ \<Rightarrow> (([], []), s)
      | None \<Rightarrow>
          ((map snd (osm_streamCtxs s),
            map (\<lambda>(_, str). (str, err)) (case osm_m s of None \<Rightarrow> [] | Some m \<Rightarrow> m)),
           s\<lparr>osm_closeErr := Some err,
             osm_panic := (osm_panic s \<or> (\<exists>c \<in> set (osm_openQueue s). ch_closed (osm_chan s c))),
             osm_chan := (\<lambda>c. if c \<in> set (osm_openQueue s) then (osm_chan s c)\<lparr>ch_closed := True\<rparr> else osm_chan s c),
             osm_openQueue := [], osm_m := None\<rparr>))"

lemmas out_defs [wt_defs] =
  out_removeStream_def out_putStream_def OpenStream_def openSync_enter_def openSync_cancelled_def
  openSync_woken_def openSync_finish_def UpdateStreamLimit_def out_CloseSession_def

end
