(* ===== verification/WT_FlowControl.thy ===== *)
theory WT_FlowControl
  imports WT_Errors WT_Credit
begin

text \<open>
  The session-level data flow controllers (\<open>flow_control.go\<close>). Both are guarded by a mutex, so
  every method is one atomic operation on its record. The channel \<open>updated\<close> of the sender,
  which \<open>UpdateMaxData\<close> closes and replaces, is the number of the current channel: a channel
  obtained earlier is closed exactly when its number is smaller (\<open>updated_closed\<close>).
  \<open>AddBytesRead\<close> returns, besides its error, the limits it passed to \<open>queueWindowUpdate\<close>.

  The theorems: no overflow and no grant above the limit; a blocked limit is reported once; no
  wake-up of a blocked writer is lost; sender and receiver together never raise a flow control
  error and never deadlock.
\<close>

section \<open>Sending\<close>

record outgoingDataFlowController =
  out_maxData :: i64
  out_bytesSent :: i64
  out_lastBlockedAt :: i64
  out_updated :: nat

definition newOutgoingDataFlowController :: "i64 \<Rightarrow> outgoingDataFlowController" where
  "newOutgoingDataFlowController maxData =
     \<lparr>out_maxData = maxData, out_bytesSent = 0, out_lastBlockedAt = -1, out_updated = 0\<rparr>"

definition AddBytesSent :: "i64 \<Rightarrow> outgoingDataFlowController \<Rightarrow> i64 \<times> outgoingDataFlowController" where
  "AddBytesSent n f =
     (let added = (if out_bytesSent f < out_maxData f
                   then min n (wrap64 (out_maxData f - out_bytesSent f)) else 0)
      in (added, f\<lparr>out_bytesSent := wrap64 (out_bytesSent f + added)\<rparr>))"

definition IsNewlyBlocked :: "outgoingDataFlowController \<Rightarrow> (bool \<times> i64) \<times> outgoingDataFlowController" where
  "IsNewlyBlocked f =
     (if out_bytesSent f < out_maxData f \<or> out_maxData f = out_lastBlockedAt f then ((False, 0), f)
      else ((True, out_maxData f), f\<lparr>out_lastBlockedAt := out_maxData f\<rparr>))"

definition errMaxDataNotIncreased :: go_error where
  "errMaxDataNotIncreased = ENew ''webtransport: WT_MAX_DATA capsule didn't increase data limit''"

definition UpdateMaxData ::
  "i64 \<Rightarrow> outgoingDataFlowController \<Rightarrow> go_error option \<times> outgoingDataFlowController" where
  "UpdateMaxData maxData f =
     (if maxData \<le> out_maxData f
      then (Some (EWrap (go_Error (\<lambda>_. '''') errMaxDataNotIncreased
                    @ '': current limit: '' @ show_int (out_maxData f)
                    @ '', received limit: '' @ show_int maxData) errMaxDataNotIncreased), f)
      else (None, f\<lparr>out_maxData := maxData, out_updated := Suc (out_updated f)\<rparr>))"

definition NextUpdate :: "outgoingDataFlowController \<Rightarrow> nat" where
  "NextUpdate f = out_updated f"

definition updated_closed :: "nat \<Rightarrow> outgoingDataFlowController \<Rightarrow> bool" where
  "updated_closed ch f \<longleftrightarrow> ch < out_updated f"

section \<open>Receiving\<close>

record incomingDataFlowController =
  in_bytesRead :: i64
  in_maxData :: i64
  in_receiveWindow :: i64

definition newIncomingDataFlowController :: "i64 \<Rightarrow> i64 \<Rightarrow> incomingDataFlowController" where
  "newIncomingDataFlowController bytesRead maxData =
     \<lparr>in_bytesRead = bytesRead, in_maxData = maxData, in_receiveWindow = wrap64 (maxData - bytesRead)\<rparr>"

definition AddBytesRead ::
  "i64 \<Rightarrow> incomingDataFlowController \<Rightarrow> (go_error option \<times> i64 list) \<times> incomingDataFlowController" where
  "AddBytesRead n f =
     (if n > wrap64 (in_maxData f - in_bytesRead f)
      then ((Some (ENew (''webtransport: received more than '' @ show_int (in_maxData f)
                         @ '' bytes of stream data'')), []), f)
      else
        let f1 = f\<lparr>in_bytesRead := wrap64 (in_bytesRead f + n)\<rparr>
        in if wrap64 (in_maxData f1 - in_bytesRead f1)
                > wrap64 (in_receiveWindow f1 - go_div4 (in_receiveWindow f1))
           then ((None, []), f1)
           else
             let maxData = wrap64 (in_bytesRead f1 + in_receiveWindow f1)
             in if maxData = in_maxData f1 then ((None, []), f1)
                else ((None, [maxData]), f1\<lparr>in_maxData := maxData\<rparr>))"

section \<open>The sender's invariant\<close>

definition out_inv :: "outgoingDataFlowController \<Rightarrow> bool" where
  "out_inv f \<longleftrightarrow> 0 \<le> out_bytesSent f \<and> out_bytesSent f \<le> out_maxData f \<and> out_maxData f < 2 ^ 63
     \<and> -1 \<le> out_lastBlockedAt f \<and> out_lastBlockedAt f \<le> out_maxData f"

lemma new_out_inv [wt_inv]: "0 \<le> m \<Longrightarrow> m < 2 ^ 63 \<Longrightarrow> out_inv (newOutgoingDataFlowController m)"
  by (simp add: out_inv_def newOutgoingDataFlowController_def)

lemma AddBytesSent_eq:
  assumes "out_inv f" "0 \<le> n"
  shows "AddBytesSent n f =
    (min n (out_maxData f - out_bytesSent f),
     f\<lparr>out_bytesSent := out_bytesSent f + min n (out_maxData f - out_bytesSent f)\<rparr>)"
proof (cases "out_bytesSent f < out_maxData f")
  case True
  let ?d = "out_maxData f - out_bytesSent f"
  have "wrap64 ?d = ?d" "wrap64 (out_bytesSent f + min n ?d) = out_bytesSent f + min n ?d"
    using assms by (auto intro!: wrap64_id simp: in_i64_def out_inv_def)
  with True show ?thesis by (simp add: AddBytesSent_def Let_def)
next
  case False
  with assms have "wrap64 (out_bytesSent f) = out_bytesSent f" "out_maxData f - out_bytesSent f = 0"
    by (auto intro!: wrap64_id simp: in_i64_def out_inv_def)
  with False assms show ?thesis by (simp add: AddBytesSent_def)
qed

lemma AddBytesSent_inv [wt_inv]:
  "out_inv f \<Longrightarrow> 0 \<le> n \<Longrightarrow> out_inv (snd (AddBytesSent n f))"
  by (simp add: AddBytesSent_eq) (auto simp: out_inv_def)

lemma IsNewlyBlocked_inv [wt_inv]: "out_inv f \<Longrightarrow> out_inv (snd (IsNewlyBlocked f))"
  by (auto simp: IsNewlyBlocked_def out_inv_def)

lemma UpdateMaxData_inv [wt_inv]: "out_inv f \<Longrightarrow> m < 2 ^ 63 \<Longrightarrow> out_inv (snd (UpdateMaxData m f))"
  by (auto simp: UpdateMaxData_def out_inv_def)

text \<open>The calls on one controller, in the order the mutex serialises them.\<close>

datatype out_op = OpAdd nat | OpBlocked | OpUpdate i64

fun out_exec :: "out_op \<Rightarrow> outgoingDataFlowController \<Rightarrow> outgoingDataFlowController" where
  "out_exec (OpAdd n) f = snd (AddBytesSent (int n) f)"
| "out_exec OpBlocked f = snd (IsNewlyBlocked f)"
| "out_exec (OpUpdate m) f = snd (UpdateMaxData (wrap64 m) f)"

fun out_run :: "out_op list \<Rightarrow> outgoingDataFlowController \<Rightarrow> outgoingDataFlowController" where
  "out_run [] f = f"
| "out_run (x # xs) f = out_run xs (out_exec x f)"

lemma out_exec_inv [wt_inv]: "out_inv f \<Longrightarrow> out_inv (out_exec x f)"
proof (cases x)
  case (OpUpdate m)
  assume "out_inv f"
  moreover have "wrap64 m < 2 ^ 63" using wrap64_in_i64 [of m] by (simp add: in_i64_def)
  ultimately show ?thesis using OpUpdate by (simp add: UpdateMaxData_inv)
qed (simp_all add: AddBytesSent_inv IsNewlyBlocked_inv)

lemma out_run_inv [wt_inv]: "out_inv f \<Longrightarrow> out_inv (out_run xs f)"
  by (induction xs arbitrary: f) (simp_all add: out_exec_inv)

lemma out_run_append: "out_run (xs @ ys) f = out_run ys (out_run xs f)"
  by (induction xs arbitrary: f) simp_all

text \<open>Counters only grow, and the limit changes only together with the channel.\<close>

lemma out_exec_mono:
  assumes "out_inv f"
  shows "out_bytesSent f \<le> out_bytesSent (out_exec x f)
    \<and> out_maxData f \<le> out_maxData (out_exec x f)
    \<and> out_lastBlockedAt f \<le> out_lastBlockedAt (out_exec x f)
    \<and> out_updated f \<le> out_updated (out_exec x f)
    \<and> (out_maxData f < out_maxData (out_exec x f) \<longrightarrow> out_updated f < out_updated (out_exec x f))"
  using assms
  by (cases x) (auto simp: AddBytesSent_eq IsNewlyBlocked_def UpdateMaxData_def out_inv_def)

lemma out_run_mono:
  assumes "out_inv f"
  shows "out_bytesSent f \<le> out_bytesSent (out_run xs f)
    \<and> out_maxData f \<le> out_maxData (out_run xs f)
    \<and> out_lastBlockedAt f \<le> out_lastBlockedAt (out_run xs f)
    \<and> out_updated f \<le> out_updated (out_run xs f)
    \<and> (out_maxData f < out_maxData (out_run xs f) \<longrightarrow> out_updated f < out_updated (out_run xs f))"
  using assms
proof (induction xs arbitrary: f)
  case Nil
  then show ?case by simp
next
  case (Cons x xs)
  show ?case
    using out_exec_mono [OF Cons.prems, of x] Cons.IH [OF out_exec_inv [OF Cons.prems, of x]]
    by (simp, linarith)
qed

text \<open>
  Granting: in a state that keeps the invariant, \<open>AddBytesSent\<close> grants exactly the smaller
  of the request and the remaining credit, counts it without overflow, and keeps the sent bytes
  within the limit.
\<close>

theorem AddBytesSent_exact:
  assumes "out_inv f" and "0 \<le> n"
  shows "fst (AddBytesSent n f) = min n (out_maxData f - out_bytesSent f)
    \<and> out_bytesSent (snd (AddBytesSent n f)) = out_bytesSent f + fst (AddBytesSent n f)
    \<and> out_bytesSent (snd (AddBytesSent n f)) \<le> out_maxData (snd (AddBytesSent n f))
    \<and> out_inv (snd (AddBytesSent n f))"
proof -
  note eq = AddBytesSent_eq [OF assms]
  have "out_inv (snd (AddBytesSent n f))" by (rule AddBytesSent_inv [OF assms])
  then show ?thesis by (simp add: eq)
qed

theorem AddBytesSent_exact_witness:
  "out_inv (newOutgoingDataFlowController 10) \<and> fst (AddBytesSent 25 (newOutgoingDataFlowController 10)) = 10"
  using AddBytesSent_exact [of "newOutgoingDataFlowController 10" 25] new_out_inv [of 10]
  by (simp add: newOutgoingDataFlowController_def)

text \<open>
  C33. No lost wake-up: a writer takes the channel \<open>NextUpdate\<close> first and only then finds the
  credit exhausted. Whatever calls run in between and afterwards, as soon as there is credit
  again the channel it waits on is closed.
\<close>

theorem blocked_writer_is_woken:
  assumes "out_inv f"
    and "f1 = out_run xs f" and "out_bytesSent f1 = out_maxData f1"
    and "f2 = out_run ys f1" and "out_bytesSent f2 < out_maxData f2"
  shows "updated_closed (NextUpdate f) f2"
proof -
  have i1: "out_inv f1" using assms(1,2) out_run_inv by blast
  then have "out_maxData f1 < out_maxData f2"
    using assms(3-5) out_run_mono [OF i1, of ys] by simp
  then have "out_updated f1 < out_updated f2"
    using assms(4) out_run_mono [OF i1, of ys] by simp
  moreover have "out_updated f \<le> out_updated f1"
    using assms(1,2) out_run_mono by simp
  ultimately show ?thesis by (simp add: updated_closed_def NextUpdate_def)
qed

theorem blocked_writer_is_woken_witness:
  "updated_closed (NextUpdate (newOutgoingDataFlowController 4))
     (out_run [OpBlocked, OpUpdate 9] (out_run [OpAdd 7] (newOutgoingDataFlowController 4)))"
  by (rule blocked_writer_is_woken [OF _ refl _ refl])
    (simp_all add: out_inv_def newOutgoingDataFlowController_def AddBytesSent_def IsNewlyBlocked_def
      UpdateMaxData_def wrap64_def)

section \<open>Reporting a blocked limit\<close>

text \<open>The limits for which \<open>IsNewlyBlocked\<close> asked for a WT_DATA_BLOCKED capsule, in order.\<close>

fun blocked_reports :: "out_op list \<Rightarrow> outgoingDataFlowController \<Rightarrow> i64 list" where
  "blocked_reports [] f = []"
| "blocked_reports (x # xs) f =
     (if x = OpBlocked \<and> fst (fst (IsNewlyBlocked f)) then [snd (fst (IsNewlyBlocked f))] else [])
     @ blocked_reports xs (out_exec x f)"

lemma blocked_reports_above:
  assumes "out_inv f"
  shows "sorted_wrt (<) (out_lastBlockedAt f # blocked_reports xs f)"
  using assms
proof (induction xs arbitrary: f)
  case Nil
  then show ?case by simp
next
  case (Cons x xs)
  let ?f = "out_exec x f"
  have IH: "sorted_wrt (<) (out_lastBlockedAt ?f # blocked_reports xs ?f)"
    by (rule Cons.IH [OF out_exec_inv [OF Cons.prems]])
  show ?case
  proof (cases "x = OpBlocked \<and> fst (fst (IsNewlyBlocked f))")
    case True
    then have "out_lastBlockedAt ?f = snd (fst (IsNewlyBlocked f))"
      "out_lastBlockedAt f < snd (fst (IsNewlyBlocked f))"
      using Cons.prems by (auto simp: IsNewlyBlocked_def out_inv_def split: if_splits)
    with True IH show ?thesis by (auto intro: order_less_trans)
  next
    case False
    with IH out_exec_mono [OF Cons.prems, of x] show ?thesis
      by (auto intro: order_le_less_trans)
  qed
qed

text \<open>
  The sender reports that it is blocked at most once for each limit: over any sequence of
  calls the reported limits are strictly increasing, and each is a limit at which all credit
  was used.
\<close>

theorem blocked_reported_once:
  assumes "out_inv f"
  shows "sorted_wrt (<) (blocked_reports xs f) \<and> distinct (blocked_reports xs f)"
proof -
  have "sorted_wrt (<) (blocked_reports xs f)"
    using blocked_reports_above [OF assms, of xs] by simp
  then show ?thesis by (simp add: strict_sorted_iff)
qed

theorem blocked_reported_once_witness:
  "blocked_reports [OpBlocked, OpAdd 3, OpBlocked, OpBlocked, OpUpdate 8, OpBlocked, OpAdd 9, OpBlocked]
     (newOutgoingDataFlowController 2) = [2, 8]
   \<and> distinct (blocked_reports [OpBlocked, OpAdd 3, OpBlocked, OpBlocked, OpUpdate 8, OpBlocked, OpAdd 9,
       OpBlocked] (newOutgoingDataFlowController 2))"
proof
  show "blocked_reports [OpBlocked, OpAdd 3, OpBlocked, OpBlocked, OpUpdate 8, OpBlocked, OpAdd 9, OpBlocked]
     (newOutgoingDataFlowController 2) = [2, 8]"
    by (simp add: newOutgoingDataFlowController_def AddBytesSent_def IsNewlyBlocked_def
        UpdateMaxData_def wrap64_def)
  have "out_inv (newOutgoingDataFlowController 2)" by (rule new_out_inv) simp_all
  from blocked_reported_once [OF this]
  show "distinct (blocked_reports [OpBlocked, OpAdd 3, OpBlocked, OpBlocked, OpUpdate 8, OpBlocked, OpAdd 9,
       OpBlocked] (newOutgoingDataFlowController 2))" by (rule conjunct2)
qed

section \<open>The receiver's window\<close>

definition in_inv :: "incomingDataFlowController \<Rightarrow> bool" where
  "in_inv f \<longleftrightarrow> 0 \<le> in_bytesRead f \<and> in_bytesRead f \<le> 2 ^ 62 \<and> in_bytesRead f \<le> in_maxData f
     \<and> 0 \<le> in_receiveWindow f \<and> in_receiveWindow f < 2 ^ 62
     \<and> in_maxData f - in_bytesRead f \<le> in_receiveWindow f
     \<and> (in_maxData f - in_bytesRead f = in_receiveWindow f
        \<or> in_receiveWindow f - go_div4 (in_receiveWindow f) < in_maxData f - in_bytesRead f)"

lemma new_in_inv [wt_inv]: "0 \<le> m \<Longrightarrow> m < 2 ^ 62 \<Longrightarrow> in_inv (newIncomingDataFlowController 0 m)"
  by (simp add: in_inv_def newIncomingDataFlowController_def wrap64_id in_i64_def)

lemma AddBytesRead_error_iff:
  assumes "in_inv f"
  shows "fst (fst (AddBytesRead n f)) \<noteq> None \<longleftrightarrow> n > in_maxData f - in_bytesRead f"
proof -
  have "wrap64 (in_maxData f - in_bytesRead f) = in_maxData f - in_bytesRead f"
    using assms by (intro wrap64_id) (auto simp: in_i64_def in_inv_def)
  then show ?thesis by (simp add: AddBytesRead_def Let_def)
qed

text \<open>Within the window there is no overflow: the operation on plain integers.\<close>

lemma AddBytesRead_eq:
  assumes "in_inv f" "0 \<le> n" "in_bytesRead f + n \<le> in_maxData f" "in_bytesRead f + n \<le> 2 ^ 62"
  shows "AddBytesRead n f =
    (let f1 = f\<lparr>in_bytesRead := in_bytesRead f + n\<rparr>; m = in_bytesRead f + n + in_receiveWindow f
     in if in_receiveWindow f - go_div4 (in_receiveWindow f) < in_maxData f - (in_bytesRead f + n)
           \<or> m = in_maxData f
        then ((None, []), f1) else ((None, [m]), f1\<lparr>in_maxData := m\<rparr>))"
proof -
  let ?w = "in_receiveWindow f"
  have "0 \<le> go_div4 ?w" "4 * go_div4 ?w \<le> ?w"
    using assms(1) go_div4_bounds [of ?w] by (auto simp: in_inv_def)
  then have "wrap64 (in_maxData f - in_bytesRead f) = in_maxData f - in_bytesRead f"
    "wrap64 (in_bytesRead f + n) = in_bytesRead f + n"
    "wrap64 (in_maxData f - (in_bytesRead f + n)) = in_maxData f - (in_bytesRead f + n)"
    "wrap64 (?w - go_div4 ?w) = ?w - go_div4 ?w"
    "wrap64 (in_bytesRead f + n + ?w) = in_bytesRead f + n + ?w"
    "wrap64 (in_maxData f) = in_maxData f"
    using assms by (auto intro!: wrap64_id simp: in_i64_def in_inv_def)
  moreover have "\<not> in_maxData f - in_bytesRead f < n" using assms(3) by simp
  ultimately show ?thesis by (simp add: AddBytesRead_def Let_def)
qed

text \<open>
  Receiving within the advertised limit: the bytes are accepted and counted, the invariant
  is kept, and a new limit is announced only if it is larger than the old one and then restores
  the full window.
\<close>

theorem AddBytesRead_within_limit:
  assumes "in_inv f" and "0 \<le> n" and "in_bytesRead f + n \<le> in_maxData f"
    and "in_bytesRead f + n \<le> 2 ^ 62" and "AddBytesRead n f = ((err, announced), f')"
  shows "err = None \<and> in_inv f' \<and> in_bytesRead f' = in_bytesRead f + n
    \<and> (announced = [] \<and> in_maxData f' = in_maxData f
       \<or> announced = [in_maxData f'] \<and> in_maxData f < in_maxData f'
         \<and> in_maxData f' = in_bytesRead f' + in_receiveWindow f')"
  using assms
  unfolding AddBytesRead_eq [OF assms(1-4)] by (auto simp: in_inv_def Let_def split: if_splits)

theorem AddBytesRead_within_limit_witness:
  "in_inv (newIncomingDataFlowController 0 8)
   \<and> AddBytesRead 2 (newIncomingDataFlowController 0 8)
      = ((None, [10]), \<lparr>in_bytesRead = 2, in_maxData = 10, in_receiveWindow = 8\<rparr>)
   \<and> in_inv \<lparr>in_bytesRead = 2, in_maxData = 10, in_receiveWindow = 8\<rparr>"
proof -
  have "AddBytesRead 2 (newIncomingDataFlowController 0 8)
      = ((None, [10]), \<lparr>in_bytesRead = 2, in_maxData = 10, in_receiveWindow = 8\<rparr>)"
    by (simp add: AddBytesRead_def newIncomingDataFlowController_def wrap64_def go_div4_def)
  moreover have "in_inv (newIncomingDataFlowController 0 8)" by (rule new_in_inv) simp_all
  ultimately show ?thesis
    using AddBytesRead_within_limit [of "newIncomingDataFlowController 0 8" 2]
    by (simp add: newIncomingDataFlowController_def)
qed

section \<open>Both ends together\<close>

text \<open>The sender's calls between two limit updates, and the receiver's reads, as protocol events.\<close>

fun fc_send :: "nat option \<Rightarrow> outgoingDataFlowController \<Rightarrow> int \<times> outgoingDataFlowController" where
  "fc_send (Some n) f = AddBytesSent (int n) f"
| "fc_send None f = (0, snd (IsNewlyBlocked f))"

definition fc_update :: "int \<Rightarrow> outgoingDataFlowController \<Rightarrow> bool \<times> outgoingDataFlowController" where
  "fc_update l f = (let (err, f') = UpdateMaxData l f in (err = None, f'))"

definition fc_recv ::
  "int \<Rightarrow> incomingDataFlowController \<Rightarrow> (bool \<times> int list) \<times> incomingDataFlowController" where
  "fc_recv n f = (let ((err, as), f') = AddBytesRead n f in ((err = None, as), f'))"

text \<open>
  A session is followed up to \<open>2^62\<close> bytes, the range of a QUIC offset; limits then stay
  within \<open>int64\<close>.
\<close>

definition data_budget :: int where
  "data_budget = 2 ^ 62"

definition data_top :: int where
  "data_top = 2 ^ 63 - 1"

interpretation fc_out: credit_sender out_inv out_bytesSent out_maxData fc_send fc_update data_top
proof
  fix s s' :: outgoingDataFlowController and d :: "nat option" and a l :: int and ok :: bool
  show "out_bytesSent s \<le> out_maxData s" if "out_inv s" using that by (simp add: out_inv_def)
  show "out_inv s' \<and> 0 \<le> a \<and> out_bytesSent s' = out_bytesSent s + a \<and> out_maxData s' = out_maxData s"
    if "out_inv s" "fc_send d s = (a, s')"
    using that AddBytesSent_inv [of s] IsNewlyBlocked_inv [of s]
    by (cases d) (auto simp: AddBytesSent_eq IsNewlyBlocked_def out_inv_def split: if_splits)
  show "ok \<and> out_inv s' \<and> out_maxData s' = l \<and> out_bytesSent s' = out_bytesSent s"
    if "out_inv s" "out_maxData s < l" "l \<le> data_top" "fc_update l s = (ok, s')"
    using that UpdateMaxData_inv [of s l] by (auto simp: fc_update_def UpdateMaxData_def data_top_def)
  show "\<not> fst (fc_update l s)" if "out_inv s" "l \<le> out_maxData s"
    using that by (simp add: fc_update_def UpdateMaxData_def)
qed

interpretation fc_in: credit_receiver in_inv in_bytesRead in_maxData in_maxData fc_recv id data_budget data_top
proof
  fix r r' :: incomingDataFlowController and e :: int and ok :: bool and as :: "int list"
  show "in_maxData r \<le> in_maxData r" by simp
  show "ok \<and> in_inv r' \<and> in_bytesRead r' = in_bytesRead r + id e \<and>
      (as = [] \<and> in_maxData r' = in_maxData r
       \<or> as = [in_maxData r'] \<and> in_maxData r < in_maxData r' \<and> in_maxData r' \<le> data_top)"
    if a: "in_inv r" "0 \<le> id e" "in_bytesRead r + id e \<le> in_maxData r" "in_bytesRead r + id e \<le> data_budget"
      and f: "fc_recv e r = ((ok, as), r')"
  proof -
    obtain err where e: "AddBytesRead e r = ((err, as), r')" "ok = (err = None)"
      using f by (auto simp: fc_recv_def split: prod.splits)
    have "in_maxData r' \<le> data_top" if "in_inv r'"
      using that by (auto simp: in_inv_def data_top_def)
    with e(2) AddBytesRead_within_limit [OF a(1) _ _ _ e(1)] a show ?thesis by (auto simp: data_budget_def)
  qed
qed

interpretation fc_net: credit_protocol
  out_inv out_bytesSent out_maxData fc_send fc_update in_inv in_bytesRead in_maxData in_maxData
  fc_recv id data_budget data_top
  by unfold_locales

text \<open>The run of two endpoints whose session starts with the data limit \<open>m\<close>.\<close>

abbreviation fc_reach ::
  "i64 \<Rightarrow> (outgoingDataFlowController, incomingDataFlowController) net \<Rightarrow> bool" where
  "fc_reach m \<equiv> reach (net_init (newOutgoingDataFlowController m) (newIncomingDataFlowController 0 m))
     (net_step fc_send fc_update out_bytesSent fc_recv id data_budget)"

lemma fc_reach_inv:
  assumes "fc_reach m n" "0 \<le> m" "m < 2 ^ 62"
  shows "fc_net.net_inv n"
proof (rule fc_net.net_inv_reach [OF assms(1)])
  show "out_inv (newOutgoingDataFlowController m)" using assms(2,3) by (intro new_out_inv) auto
  show "in_inv (newIncomingDataFlowController 0 m)" by (rule new_in_inv [OF assms(2,3)])
qed (simp_all add: newOutgoingDataFlowController_def newIncomingDataFlowController_def data_budget_def)

lemma AddBytesRead_window: "in_receiveWindow (snd (AddBytesRead n f)) = in_receiveWindow f"
  by (simp add: AddBytesRead_def Let_def)

lemma fc_reach_window:
  assumes "fc_reach m n" "0 \<le> m" "m < 2 ^ 62"
  shows "in_receiveWindow (n_rcv n) = m"
  using assms(1)
proof (rule reach_invariant)
  show "in_receiveWindow (n_rcv s) = m"
    if "net_init (newOutgoingDataFlowController m) (newIncomingDataFlowController 0 m) s" for s
    using that assms(2,3)
    by (simp add: net_init_def newIncomingDataFlowController_def wrap64_id in_i64_def)
next
  fix s t :: "(outgoingDataFlowController, incomingDataFlowController) net"
  assume "in_receiveWindow (n_rcv s) = m"
    "net_step fc_send fc_update out_bytesSent fc_recv id data_budget s t"
  from this(2,1) show "in_receiveWindow (n_rcv t) = m"
    using AddBytesRead_window
    by (cases rule: net_step.cases) (auto simp: fc_recv_def split: prod.splits, metis snd_conv)
qed

lemma in_inv_open_window: "in_inv f \<Longrightarrow> 0 < in_receiveWindow f \<Longrightarrow> in_bytesRead f < in_maxData f"
  using go_div4_bounds [of "in_receiveWindow f"] by (auto simp: in_inv_def)

text \<open>
  C3. Data flow control is safe end to end: when a sender obeys \<open>AddBytesSent\<close> and the limits of
  the receiver's \<open>AddBytesRead\<close> arrive in order, then in every reachable state neither end has
  raised a flow control error (no limit that does not increase, no byte above the limit), and
  what was sent is within what the receiver accepts.
\<close>

theorem data_flow_control_safe:
  assumes "fc_reach m n" and "0 \<le> m" and "m < 2 ^ 62"
  shows "\<not> n_err n \<and> out_bytesSent (n_snd n) \<le> in_maxData (n_rcv n)
    \<and> out_bytesSent (n_snd n) = in_bytesRead (n_rcv n) + n_flight n"
  using fc_net.net_invD(2) [OF fc_reach_inv [OF assms]] fc_reach_inv [OF assms]
  by (simp add: fc_net.net_inv_def)

text \<open>
  C31. Data flow control does not deadlock: if the initial limit is positive, then whenever all
  sent bytes have been read and all announced limits have arrived, the sender has credit and its
  next request for at least one byte is granted.
\<close>

theorem data_flow_control_live:
  assumes "fc_reach m n" and "0 < m" and "m < 2 ^ 62" and "n_flight n = 0" and "n_caps n = []"
  shows "out_bytesSent (n_snd n) < out_maxData (n_snd n) \<and> 0 < fst (AddBytesSent 1 (n_snd n))"
proof -
  have inv: "fc_net.net_inv n" using assms(1-3) by (intro fc_reach_inv) simp_all
  have "in_receiveWindow (n_rcv n) = m" using assms(1-3) by (intro fc_reach_window) simp_all
  with inv assms(2) have "in_bytesRead (n_rcv n) < in_maxData (n_rcv n)"
    by (intro in_inv_open_window) (simp_all add: fc_net.net_inv_def)
  with fc_net.net_inv_quiescent [OF inv assms(4,5)]
  have "out_bytesSent (n_snd n) < out_maxData (n_snd n)" by simp
  moreover from inv have "out_inv (n_snd n)" by (simp add: fc_net.net_inv_def)
  ultimately show ?thesis by (simp add: AddBytesSent_eq)
qed

text \<open>A run in which the receiver reads everything the sender could send, and widens the limit.\<close>

definition fc_example :: "(outgoingDataFlowController, incomingDataFlowController) net" where
  "fc_example = \<lparr>n_snd = \<lparr>out_maxData = 16, out_bytesSent = 8, out_lastBlockedAt = -1, out_updated = 1\<rparr>,
     n_rcv = \<lparr>in_bytesRead = 8, in_maxData = 16, in_receiveWindow = 8\<rparr>,
     n_flight = 0, n_caps = [], n_err = False\<rparr>"

lemma fc_example_reach: "fc_reach 8 fc_example"
proof -
  let ?S = "net_step fc_send fc_update out_bytesSent fc_recv id data_budget"
  let ?s0 = "newOutgoingDataFlowController 8" and ?r0 = "newIncomingDataFlowController 0 8"
  let ?n0 = "\<lparr>n_snd = ?s0, n_rcv = ?r0, n_flight = 0, n_caps = [], n_err = False\<rparr>"
  let ?n1 = "?n0\<lparr>n_snd := ?s0\<lparr>out_bytesSent := 8\<rparr>, n_flight := 8\<rparr>"
  let ?n2 = "?n1\<lparr>n_rcv := ?r0\<lparr>in_bytesRead := 8, in_maxData := 16\<rparr>, n_flight := 0, n_caps := [16]\<rparr>"
  have r0: "fc_reach 8 ?n0" by (rule reach_init) (simp add: net_init_def)
  have "?S ?n0 ?n1"
    using net_step.net_send [where send = fc_send and upd = fc_update and sent = out_bytesSent
        and rstep = fc_recv and units = id and budget = data_budget and d = "Some 9" and n = ?n0
        and a = 8 and s' = "?s0\<lparr>out_bytesSent := 8\<rparr>"]
    by (simp add: newOutgoingDataFlowController_def AddBytesSent_def wrap64_def data_budget_def)
  then have r1: "fc_reach 8 ?n1" by (rule reach_step [OF r0])
  have "?S ?n1 ?n2"
    using net_step.net_recv [where send = fc_send and upd = fc_update and sent = out_bytesSent
        and rstep = fc_recv and units = id and budget = data_budget and e = 8 and n = ?n1
        and ok = True and as = "[16]" and r' = "?r0\<lparr>in_bytesRead := 8, in_maxData := 16\<rparr>"]
    by (simp add: newIncomingDataFlowController_def fc_recv_def AddBytesRead_def wrap64_def go_div4_def)
  then have r2: "fc_reach 8 ?n2" by (rule reach_step [OF r1])
  have "?S ?n2 fc_example"
    using net_step.net_limit [where send = fc_send and upd = fc_update and sent = out_bytesSent
        and rstep = fc_recv and units = id and budget = data_budget and n = ?n2 and l = 16
        and ls = "[]" and ok = True and s' = "n_snd fc_example"]
    by (simp add: fc_update_def UpdateMaxData_def fc_example_def newOutgoingDataFlowController_def
        newIncomingDataFlowController_def wrap64_def)
  then show ?thesis by (rule reach_step [OF r2])
qed

theorem data_flow_control_safe_witness: "fc_reach 8 fc_example \<and> \<not> n_err fc_example"
  using data_flow_control_safe [OF fc_example_reach] fc_example_reach by simp

theorem data_flow_control_live_witness:
  "fc_reach 8 fc_example \<and> 0 < fst (AddBytesSent 1 (n_snd fc_example))"
  using data_flow_control_live [OF fc_example_reach] fc_example_reach by (simp add: fc_example_def)

end
