(* ===== verification/WT_Incoming.thy ===== *)
theory WT_Incoming
  imports WT_Config WT_Credit
begin

text \<open>
  The streams the peer opened (\<open>streams_map_incoming.go\<close>): the accept queue, the map of open
  streams with its limits, and the announcements of larger limits.

  Every critical section of the code is one operation on a record. \<open>RemoveStream\<close> has two of
  them, under different mutexes, and other calls can run in between: they are \<open>RemoveStream_mx\<close>
  and \<open>RemoveStream_queue\<close>, and the theorem on announcements holds for every interleaving
  (\<open>in_step\<close>). Calls on the streams (\<open>closeWithSession\<close>) are returned as a list of effects. A
  write to the nil map would panic: \<open>None\<close>. \<open>AcceptStream\<close> waits, so it is a step relation
  (\<open>accept_step\<close>) over the notification channel, a buffer of size one.
\<close>

section \<open>The accept queue\<close>

record 't acceptQueue =
  aq_c :: bool            \<comment> \<open>the channel of capacity 1 holds a notification\<close>
  aq_queue :: "'t list"

definition newAcceptQueue :: "'t acceptQueue" where
  "newAcceptQueue = \<lparr>aq_c = False, aq_queue = []\<rparr>"

definition acceptQueue_enqueue :: "'t \<Rightarrow> 't acceptQueue \<Rightarrow> 't acceptQueue" where
  "acceptQueue_enqueue str q = q\<lparr>aq_queue := aq_queue q @ [str]\<rparr>"

definition acceptQueue_notify :: "'t acceptQueue \<Rightarrow> 't acceptQueue" where
  "acceptQueue_notify q = q\<lparr>aq_c := True\<rparr>"

definition acceptQueue_add :: "'t \<Rightarrow> 't acceptQueue \<Rightarrow> 't acceptQueue" where
  "acceptQueue_add str q = acceptQueue_notify (acceptQueue_enqueue str q)"

definition acceptQueue_next :: "'t acceptQueue \<Rightarrow> 't option \<times> 't acceptQueue" where
  "acceptQueue_next q =
     (case aq_queue q of [] \<Rightarrow> (None, q) | str # rest \<Rightarrow> (Some str, q\<lparr>aq_queue := rest\<rparr>))"

section \<open>The map of incoming streams\<close>

record 't incomingStreamsMap =
  ism_cause :: "go_error option"     \<comment> \<open>\<open>context.Cause(ctx)\<close>: set by \<open>CloseSession\<close>\<close>
  ism_acceptQueue :: "'t acceptQueue"
  ism_queuedMaxStreams :: u64
  ism_m :: "(int \<times> 't) list option"
  ism_numStreams :: u64
  ism_maxStreams :: u64
  ism_maxOpenStreams :: u64

definition newIncomingStreamsMap :: "u64 \<Rightarrow> 't incomingStreamsMap" where
  "newIncomingStreamsMap maxOpen =
     (let maxOpenStreams = min maxOpen maxStreamsLimit
      in \<lparr>ism_cause = None, ism_acceptQueue = newAcceptQueue,
          ism_queuedMaxStreams = maxOpenStreams, ism_m = Some [], ism_numStreams = 0,
          ism_maxStreams = maxOpenStreams, ism_maxOpenStreams = maxOpenStreams\<rparr>)"

text \<open>The streams closed by an operation, with the error they were closed with.\<close>

type_synonym 't closings = "('t \<times> go_error) list"

definition in_AddStream ::
  "int \<Rightarrow> 't \<Rightarrow> 't incomingStreamsMap \<Rightarrow> ((go_error option \<times> 't closings) \<times> 't incomingStreamsMap) option" where
  "in_AddStream i str s =
     (case ism_cause s of
        Some closeErr \<Rightarrow> Some ((None, [(str, closeErr)]), s)
      | None \<Rightarrow>
          if ism_numStreams s \<ge> ism_maxStreams s
          then Some ((Some (EHttp3 \<lparr>h3_Remote = False, h3_ErrorCode = WTFlowControlErrorCode,
                 h3_ErrorMessage = ''webtransport: peer opened more than ''
                   @ show_nat (unat (ism_maxStreams s)) @ '' streams''\<rparr>), []), s)
          else
            (case ism_m s of
               None \<Rightarrow> None
             | Some m \<Rightarrow>
                 Some ((None, []),
                   s\<lparr>ism_numStreams := ism_numStreams s + 1, ism_m := Some (AList.update i str m),
                     ism_acceptQueue := acceptQueue_add str (ism_acceptQueue s)\<rparr>)))"

text \<open>The first critical section of \<open>RemoveStream\<close>: the limit to announce, if any.\<close>

definition RemoveStream_mx :: "int \<Rightarrow> 't incomingStreamsMap \<Rightarrow> u64 option \<times> 't incomingStreamsMap" where
  "RemoveStream_mx i s =
     (case ism_m s of
        None \<Rightarrow> (None, s)
      | Some m0 \<Rightarrow>
          if map_of m0 i = None then (None, s)
          else
            let m = AList.delete i m0; s1 = s\<lparr>ism_m := Some m\<rparr>
            in if of_nat (length m) < ism_maxOpenStreams s1 \<and> ism_maxStreams s1 < maxStreamsLimit
               then
                 let maxStreams = min (ism_numStreams s1 + ism_maxOpenStreams s1 - of_nat (length m))
                                      maxStreamsLimit
                 in if maxStreams > ism_maxStreams s1
                    then (Some maxStreams, s1\<lparr>ism_maxStreams := maxStreams\<rparr>)
                    else (None, s1)
               else (None, s1))"

text \<open>The second one: the limits passed to \<open>queueMaxStreams\<close>.\<close>

definition RemoveStream_queue :: "u64 \<Rightarrow> 't incomingStreamsMap \<Rightarrow> u64 list \<times> 't incomingStreamsMap" where
  "RemoveStream_queue maxStreams s =
     (if maxStreams > ism_queuedMaxStreams s
      then ([maxStreams], s\<lparr>ism_queuedMaxStreams := maxStreams\<rparr>) else ([], s))"

definition RemoveStream :: "int \<Rightarrow> 't incomingStreamsMap \<Rightarrow> u64 list \<times> 't incomingStreamsMap" where
  "RemoveStream i s =
     (case RemoveStream_mx i s of
        (None, s1) \<Rightarrow> ([], s1)
      | (Some maxStreams, s1) \<Rightarrow> RemoveStream_queue maxStreams s1)"

definition in_CloseSession :: "go_error \<Rightarrow> 't incomingStreamsMap \<Rightarrow> 't closings \<times> 't incomingStreamsMap" where
  "in_CloseSession err s =
     (case ism_cause s of
        Some _ \<Rightarrow> ([], s)
      | None \<Rightarrow>
          (map (\<lambda>(_, str). (str, err)) (case ism_m s of None \<Rightarrow> [] | Some m \<Rightarrow> m),
           s\<lparr>ism_cause := Some err, ism_m := None\<rparr>))"

lemmas in_defs [wt_defs] =
  in_AddStream_def RemoveStream_mx_def RemoveStream_queue_def RemoveStream_def in_CloseSession_def

section \<open>The invariant\<close>

text \<open>
  The map exists until the session is closed; the streams that are open and those the peer may
  still open are together at most \<open>maxOpenStreams\<close>; no limit exceeds \<open>2^60\<close>.
\<close>

definition in_inv_map :: "'t incomingStreamsMap \<Rightarrow> bool" where
  "in_inv_map s \<longleftrightarrow> (ism_cause s = None \<longleftrightarrow> ism_m s \<noteq> None)
     \<and> ism_numStreams s \<le> ism_maxStreams s
     \<and> ism_maxStreams s \<le> maxStreamsLimit \<and> ism_maxOpenStreams s \<le> maxStreamsLimit
     \<and> ism_queuedMaxStreams s \<le> ism_maxStreams s
     \<and> (\<forall>m. ism_m s = Some m \<longrightarrow> distinct (map fst m)
          \<and> length m + unat (ism_maxStreams s) \<le> unat (ism_maxOpenStreams s) + unat (ism_numStreams s))"

lemma newIncomingStreamsMap_inv [wt_inv]: "in_inv_map (newIncomingStreamsMap n)"
  by (simp add: in_inv_map_def newIncomingStreamsMap_def Let_def)

lemma in_inv_mapD:
  assumes "in_inv_map s" "ism_m s = Some m"
  shows "distinct (map fst m)" "length m \<le> unat (ism_maxOpenStreams s)"
    "length m + unat (ism_maxStreams s) \<le> unat (ism_maxOpenStreams s) + unat (ism_numStreams s)"
    "unat (ism_numStreams s) \<le> unat (ism_maxStreams s)" "unat (ism_maxStreams s) \<le> 2 ^ 60"
    "unat (ism_maxOpenStreams s) \<le> 2 ^ 60"
  using assms by (auto simp: in_inv_map_def word_le_nat_alt unat_maxStreamsLimit)

lemma in_AddStream_inv [wt_inv]:
  assumes "in_inv_map s" "in_AddStream i str s = Some (r, s')"
  shows "in_inv_map s'"
proof (cases "ism_cause s = None \<and> ism_numStreams s < ism_maxStreams s")
  case False
  with assms show ?thesis by (auto simp: in_AddStream_def split: option.splits if_splits)
next
  case True
  then obtain m where m: "ism_m s = Some m" using assms(1) by (auto simp: in_inv_map_def)
  from True assms(2) m have s': "s' = s\<lparr>ism_numStreams := ism_numStreams s + 1,
      ism_m := Some (AList.update i str m), ism_acceptQueue := acceptQueue_add str (ism_acceptQueue s)\<rparr>"
    by (auto simp: in_AddStream_def split: if_splits)
  have n: "unat (ism_numStreams s + 1) = Suc (unat (ism_numStreams s))"
    using True unat_add_1_less by blast
  have "length (AList.update i str m) \<le> Suc (length m)" by (simp add: length_alist_update)
  moreover have "distinct (map fst (AList.update i str m))"
    using in_inv_mapD(1) [OF assms(1) m] by (rule AList.distinct_update)
  ultimately show ?thesis
    using assms(1) True m in_inv_mapD(3) [OF assms(1) m] unfolding s'
    by (auto simp: in_inv_map_def word_le_nat_alt word_less_nat_alt n)
qed

text \<open>What the first section of \<open>RemoveStream\<close> computes, in unbounded arithmetic.\<close>

lemma RemoveStream_mx_cases:
  assumes inv: "in_inv_map s" and r: "RemoveStream_mx i s = (v, s')"
  obtains (absent) "v = None" "s' = s"
  | (kept) m where "ism_m s = Some m" "map_of m i \<noteq> None" "v = None"
      "s' = s\<lparr>ism_m := Some (AList.delete i m)\<rparr>"
      "unat (ism_maxOpenStreams s) \<le> length (AList.delete i m)
       \<or> min (unat (ism_numStreams s) + unat (ism_maxOpenStreams s) - length (AList.delete i m)) (2 ^ 60) \<le> unat (ism_maxStreams s)"
  | (raised) m w where "ism_m s = Some m" "map_of m i \<noteq> None" "v = Some w" "ism_maxStreams s < w"
      "unat w = min (unat (ism_numStreams s) + unat (ism_maxOpenStreams s) - length (AList.delete i m)) (2 ^ 60)"
      "s' = s\<lparr>ism_m := Some (AList.delete i m), ism_maxStreams := w\<rparr>"
proof (cases "ism_m s")
  case None
  with r absent show ?thesis by (simp add: RemoveStream_mx_def)
next
  case (Some m)
  let ?d = "AList.delete i m"
  let ?w = "min (ism_numStreams s + ism_maxOpenStreams s - of_nat (length ?d)) maxStreamsLimit"
  note D = in_inv_mapD [OF inv Some]
  have len: "length ?d \<le> length m" by (simp add: AList.length_delete_le)
  then have ld: "unat (of_nat (length ?d) :: u64) = length ?d"
    using D(2,6) by (simp add: unsigned_of_nat take_bit_nat_eq_self)
  have sum: "unat (ism_numStreams s + ism_maxOpenStreams s) = unat (ism_numStreams s) + unat (ism_maxOpenStreams s)"
    using D(4-6) by (simp add: unat_word_ariths)
  then have "of_nat (length ?d) \<le> ism_numStreams s + ism_maxOpenStreams s"
    using D(2) len ld by (simp add: word_le_nat_alt)
  then have w: "unat ?w = min (unat (ism_numStreams s) + unat (ism_maxOpenStreams s) - length ?d) (2 ^ 60)"
    using sum ld by (simp add: min_def word_le_nat_alt unat_minus_le unat_maxStreamsLimit)
  show ?thesis
  proof (cases "map_of m i = None")
    case True
    with Some r absent show ?thesis by (simp add: RemoveStream_mx_def)
  next
    case False
    have "unat (ism_maxOpenStreams s) \<le> length ?d \<or> unat ?w \<le> unat (ism_maxStreams s)" if "v = None"
      using r that Some False ld w unat_maxStreamsLimit
      by (auto simp: RemoveStream_mx_def Let_def word_less_nat_alt not_less split: if_splits)
    with Some r False w kept [OF Some False] raised [OF Some False _ _ w] show ?thesis
      by (auto simp: RemoveStream_mx_def Let_def split: if_splits)
  qed
qed

lemma RemoveStream_mx_inv [wt_inv]:
  assumes inv: "in_inv_map s" and r: "RemoveStream_mx i s = (v, s')"
  shows "in_inv_map s'"
  using r
proof (cases rule: RemoveStream_mx_cases [OF inv r, case_names absent kept raised])
  case absent
  with inv show ?thesis by simp
next
  case (kept m)
  then have "length (AList.delete i m) \<le> length m" by (simp add: AList.length_delete_le)
  then show ?thesis using inv kept AList.distinct_delete [of m i] by (auto simp: in_inv_map_def)
next
  case (raised m w)
  have "length (AList.delete i m) \<le> length m" by (simp add: AList.length_delete_le)
  moreover note D = in_inv_mapD [OF inv raised(1)]
  ultimately have le: "length (AList.delete i m) + unat w \<le> unat (ism_maxOpenStreams s) + unat (ism_numStreams s)"
    using raised(5) by linarith
  have "unat w \<le> 2 ^ 60" using raised(5) by simp
  with le show ?thesis using inv raised D AList.distinct_delete [of m i]
    by (auto simp: in_inv_map_def word_le_nat_alt word_less_nat_alt unat_maxStreamsLimit)
qed

lemma RemoveStream_queue_inv [wt_inv]:
  assumes "in_inv_map s" "v \<le> ism_maxStreams s"
  shows "in_inv_map (snd (RemoveStream_queue v s))"
  using assms by (auto simp: RemoveStream_queue_def in_inv_map_def)

lemma RemoveStream_mx_max:
  assumes "in_inv_map s" "RemoveStream_mx i s = (v, s')"
  shows "case v of None \<Rightarrow> ism_maxStreams s' = ism_maxStreams s
    | Some w \<Rightarrow> ism_maxStreams s' = w \<and> ism_maxStreams s < w"
  by (rule RemoveStream_mx_cases [OF assms]) auto

lemma RemoveStream_inv [wt_inv]: "in_inv_map s \<Longrightarrow> in_inv_map (snd (RemoveStream i s))"
  using RemoveStream_mx_inv [of s i] RemoveStream_mx_max [of s i]
  by (auto simp: RemoveStream_def intro!: RemoveStream_queue_inv split: prod.splits option.splits)

lemma in_CloseSession_inv [wt_inv]: "in_inv_map s \<Longrightarrow> in_inv_map (snd (in_CloseSession e s))"
  by (auto simp: in_CloseSession_def in_inv_map_def split: option.splits)


section \<open>Every interleaving\<close>

text \<open>
  The calls of any number of goroutines: \<open>i_pending\<close> holds the limits of the \<open>RemoveStream\<close> calls
  that are between their two critical sections, \<open>i_announced\<close> the limits passed to
  \<open>queueMaxStreams\<close> so far, in order.
\<close>

record 't in_state =
  i_map :: "'t incomingStreamsMap"
  i_pending :: "u64 list"
  i_announced :: "u64 list"

inductive in_step :: "'t in_state \<Rightarrow> 't in_state \<Rightarrow> bool" where
  in_add: "in_AddStream i str (i_map s) = Some (r, m') \<Longrightarrow> in_step s (s\<lparr>i_map := m'\<rparr>)"
| in_remove: "RemoveStream_mx i (i_map s) = (v, m') \<Longrightarrow>
     in_step s (s\<lparr>i_map := m', i_pending := (case v of None \<Rightarrow> [] | Some w \<Rightarrow> [w]) @ i_pending s\<rparr>)"
| in_queue: "i_pending s = xs @ w # ys \<Longrightarrow> RemoveStream_queue w (i_map s) = (as, m') \<Longrightarrow>
     in_step s (s\<lparr>i_map := m', i_pending := xs @ ys, i_announced := i_announced s @ as\<rparr>)"
| in_accept: "in_step s (s\<lparr>i_map := (i_map s)\<lparr>ism_acceptQueue := snd (acceptQueue_next (ism_acceptQueue (i_map s)))\<rparr>\<rparr>)"
| in_close: "in_step s (s\<lparr>i_map := snd (in_CloseSession e (i_map s))\<rparr>)"

definition in_start :: "u64 \<Rightarrow> 't in_state \<Rightarrow> bool" where
  "in_start n s \<longleftrightarrow> s = \<lparr>i_map = newIncomingStreamsMap n, i_pending = [], i_announced = []\<rparr>"

definition announce_inv :: "u64 \<Rightarrow> 't in_state \<Rightarrow> bool" where
  "announce_inv n s \<longleftrightarrow> in_inv_map (i_map s)
     \<and> sorted_wrt (<) (min n maxStreamsLimit # i_announced s)
     \<and> last (min n maxStreamsLimit # i_announced s) = ism_queuedMaxStreams (i_map s)
     \<and> (\<forall>w \<in> set (i_pending s). w \<le> ism_maxStreams (i_map s))
     \<and> (ism_maxStreams (i_map s) = ism_queuedMaxStreams (i_map s)
        \<or> ism_maxStreams (i_map s) \<in> set (i_pending s))"

lemma announce_inv_start: "in_start n s \<Longrightarrow> announce_inv n s"
  by (simp add: in_start_def announce_inv_def newIncomingStreamsMap_inv)
    (simp add: newIncomingStreamsMap_def Let_def)

lemma in_AddStream_limits:
  "in_AddStream i str s = Some (r, s') \<Longrightarrow>
     ism_maxStreams s' = ism_maxStreams s \<and> ism_queuedMaxStreams s' = ism_queuedMaxStreams s"
  by (auto simp: in_AddStream_def split: option.splits if_splits)

lemma RemoveStream_mx_queued: "RemoveStream_mx i s = (v, s') \<Longrightarrow> ism_queuedMaxStreams s' = ism_queuedMaxStreams s"
  by (auto simp: RemoveStream_mx_def Let_def split: option.splits if_splits)

lemma announce_inv_queue:
  assumes inv: "announce_inv n s" and p: "i_pending s = xs @ w # ys"
    and q: "RemoveStream_queue w (i_map s) = (as, m')"
  shows "announce_inv n (s\<lparr>i_map := m', i_pending := xs @ ys, i_announced := i_announced s @ as\<rparr>)"
proof -
  let ?L = "min n maxStreamsLimit # i_announced s" and ?q = "ism_queuedMaxStreams (i_map s)"
  from inv have so: "sorted_wrt (<) ?L" and la: "last ?L = ?q"
    and im: "in_inv_map (i_map s)" and w: "w \<le> ism_maxStreams (i_map s)"
    using p by (auto simp: announce_inv_def)
  have im': "in_inv_map m'" using RemoveStream_queue_inv [OF im w] q by simp
  have below: "\<forall>x \<in> set ?L. x \<le> ?q" unfolding la [symmetric] using sorted_wrt_less_last [OF so] by blast
  show ?thesis
  proof (cases "w > ?q")
    case True
    with q have m': "as = [w]" "m' = (i_map s)\<lparr>ism_queuedMaxStreams := w\<rparr>"
      by (auto simp: RemoveStream_queue_def)
    have "sorted_wrt (<) (?L @ [w])" using so below True by (auto simp: sorted_wrt_append)
    with True inv im' p m' w show ?thesis by (auto simp: announce_inv_def in_inv_map_def)
  next
    case False
    with q have m': "as = []" "m' = i_map s" by (auto simp: RemoveStream_queue_def)
    with False inv p w show ?thesis by (auto simp: announce_inv_def in_inv_map_def)
  qed
qed

lemma announce_inv_step:
  assumes "announce_inv n s" "in_step s t"
  shows "announce_inv n t"
  using assms(2,1)
proof (cases rule: in_step.cases)
  case (in_add i str r m')
  with assms(1) show ?thesis
    using in_AddStream_inv [of "i_map s" i str r m'] in_AddStream_limits [of i str "i_map s" r m']
    by (simp add: announce_inv_def)
next
  case (in_remove i v m')
  with assms(1) show ?thesis
    using RemoveStream_mx_inv [of "i_map s" i v m'] RemoveStream_mx_max [of "i_map s" i v m']
      RemoveStream_mx_queued [of i "i_map s" v m']
    by (auto simp: announce_inv_def split: option.splits)
next
  case (in_queue xs w ys as m')
  with announce_inv_queue [OF assms(1)] show ?thesis by simp
next
  case in_accept
  with assms(1) show ?thesis by (simp add: announce_inv_def in_inv_map_def)
next
  case (in_close e)
  with assms(1) show ?thesis
    using in_CloseSession_inv [of "i_map s" e]
    by (auto simp: announce_inv_def in_CloseSession_def split: option.splits)
qed

lemma announce_inv_reach: "reach (in_start n) in_step s \<Longrightarrow> announce_inv n s"
  by (erule reach_invariant) (auto intro: announce_inv_start announce_inv_step)

text \<open>
  C26. WT_MAX_STREAMS is never announced out of order: in every interleaving of calls the announced
  limits are strictly increasing, start above the initial limit, never exceed \<open>2^60\<close>, and once
  no \<open>RemoveStream\<close> call is between its critical sections the last announcement is the limit
  that is enforced.
\<close>

theorem max_streams_announced_in_order:
  assumes "reach (in_start n) in_step s"
  shows "sorted_wrt (<) (min n maxStreamsLimit # i_announced s)
    \<and> (\<forall>l \<in> set (i_announced s). l \<le> maxStreamsLimit)
    \<and> (i_pending s = [] \<longrightarrow>
         last (min n maxStreamsLimit # i_announced s) = ism_maxStreams (i_map s))"
proof -
  let ?L = "min n maxStreamsLimit # i_announced s"
  have inv: "announce_inv n s" by (rule announce_inv_reach [OF assms])
  then have so: "sorted_wrt (<) ?L" and la: "last ?L = ism_queuedMaxStreams (i_map s)"
    and im: "in_inv_map (i_map s)" by (auto simp: announce_inv_def)
  have "l \<le> maxStreamsLimit" if "l \<in> set (i_announced s)" for l
    using sorted_wrt_less_last [OF so, of l] that la im by (auto simp: in_inv_map_def)
  with inv so la show ?thesis by (auto simp: announce_inv_def)
qed


text \<open>A stream is opened and removed again: the limit 4 is announced.\<close>

definition in_example :: "string in_state" where
  "in_example =
     \<lparr>i_map = \<lparr>ism_cause = None, ism_acceptQueue = \<lparr>aq_c = True, aq_queue = [''s'']\<rparr>,
               ism_queuedMaxStreams = 4, ism_m = Some [], ism_numStreams = 1, ism_maxStreams = 4,
               ism_maxOpenStreams = 3\<rparr>,
      i_pending = [], i_announced = [4]\<rparr>"

lemma in_example_reach: "reach (in_start 3) in_step in_example"
proof -
  let ?m0 = "newIncomingStreamsMap 3 :: string incomingStreamsMap"
  let ?m1 = "?m0\<lparr>ism_numStreams := 1, ism_m := Some [(0, ''s'')],
               ism_acceptQueue := \<lparr>aq_c = True, aq_queue = [''s'']\<rparr>\<rparr>"
  let ?m2 = "?m1\<lparr>ism_m := Some [], ism_maxStreams := 4\<rparr>"
  let ?s0 = "\<lparr>i_map = ?m0, i_pending = [], i_announced = []\<rparr>"
  note evals = newIncomingStreamsMap_def newAcceptQueue_def Let_def in_AddStream_def maxStreamsLimit_def
    acceptQueue_add_def acceptQueue_notify_def acceptQueue_enqueue_def RemoveStream_mx_def
    RemoveStream_queue_def min_def
  have "reach (in_start 3) in_step ?s0" by (rule reach_init) (simp add: in_start_def)
  moreover have "in_step ?s0 (?s0\<lparr>i_map := ?m1\<rparr>)"
    by (rule in_step.in_add [where i = 0 and str = "''s''" and r = "(None, [])"]) (simp add: evals)
  ultimately have "reach (in_start 3) in_step (?s0\<lparr>i_map := ?m1\<rparr>)" by (rule reach_step)
  moreover have "in_step (?s0\<lparr>i_map := ?m1\<rparr>) (?s0\<lparr>i_map := ?m2, i_pending := [4]\<rparr>)"
    using in_step.in_remove [of 0 "?s0\<lparr>i_map := ?m1\<rparr>" "Some 4" ?m2] by (simp add: evals)
  ultimately have "reach (in_start 3) in_step (?s0\<lparr>i_map := ?m2, i_pending := [4]\<rparr>)" by (rule reach_step)
  moreover have "in_step (?s0\<lparr>i_map := ?m2, i_pending := [4]\<rparr>) in_example"
    using in_step.in_queue [of "?s0\<lparr>i_map := ?m2, i_pending := [4]\<rparr>" "[]" 4 "[]" "[4]" "i_map in_example"]
    by (simp add: evals in_example_def)
  ultimately show ?thesis by (rule reach_step)
qed

theorem max_streams_announced_in_order_witness:
  "reach (in_start 3) in_step in_example
   \<and> last (min 3 maxStreamsLimit # i_announced in_example) = ism_maxStreams (i_map in_example)"
  using max_streams_announced_in_order [OF in_example_reach] in_example_reach
  by (simp add: in_example_def)


section \<open>Closing the session\<close>

text \<open>
  Closing is complete and happens once: the first \<open>CloseSession\<close> closes every open stream with
  the session's error; later calls do nothing; a stream that arrives afterwards is not counted
  or queued but closed at once with that same error.
\<close>

theorem in_CloseSession_complete:
  assumes "in_inv_map s" and "ism_cause s = None" and "ism_m s = Some m"
    and "in_CloseSession e s = (cl, s')"
  shows "cl = map (\<lambda>(_, str). (str, e)) m
    \<and> in_CloseSession e2 s' = ([], s')
    \<and> in_AddStream i str s' = Some ((None, [(str, e)]), s')
    \<and> RemoveStream i s' = ([], s')"
  using assms by (auto simp: wt_defs)

definition in_open_example :: "string incomingStreamsMap" where
  "in_open_example = \<lparr>ism_cause = None, ism_acceptQueue = newAcceptQueue, ism_queuedMaxStreams = 3,
     ism_m = Some [(4, ''s'')], ism_numStreams = 1, ism_maxStreams = 3, ism_maxOpenStreams = 3\<rparr>"

theorem in_CloseSession_complete_witness:
  "fst (in_CloseSession ECanceled in_open_example) = [(''s'', ECanceled)]
   \<and> in_AddStream 8 ''t'' (snd (in_CloseSession ECanceled in_open_example))
     = Some ((None, [(''t'', ECanceled)]), snd (in_CloseSession ECanceled in_open_example))"
proof -
  have "in_inv_map in_open_example" "ism_cause in_open_example = None" "ism_m in_open_example = Some [(4, ''s'')]"
    by (simp_all add: in_inv_map_def in_open_example_def maxStreamsLimit_def)
  from in_CloseSession_complete [OF this, of ECanceled "fst (in_CloseSession ECanceled in_open_example)"
      "snd (in_CloseSession ECanceled in_open_example)" _ 8 "''t''"]
  show ?thesis by simp
qed

section \<open>The peer's credit\<close>

text \<open>The receiving end of the stream limit, as an instance of the credit protocol.\<close>

datatype 't in_event = InAdd int 't | InRemove int | InQueue nat | InAccept

fun in_rstep :: "'t in_event \<Rightarrow> 't in_state \<Rightarrow> (bool \<times> int list) \<times> 't in_state" where
  "in_rstep (InAdd i str) s =
     (case in_AddStream i str (i_map s) of
        None \<Rightarrow> ((False, []), s)
      | Some ((err, _), m') \<Rightarrow> ((err = None, []), s\<lparr>i_map := m'\<rparr>))"
| "in_rstep (InRemove i) s =
     (let (v, m') = RemoveStream_mx i (i_map s)
      in ((True, []), s\<lparr>i_map := m', i_pending := (case v of None \<Rightarrow> [] | Some w \<Rightarrow> [w]) @ i_pending s\<rparr>))"
| "in_rstep (InQueue k) s =
     (if k < length (i_pending s) then
        let (as, m') = RemoveStream_queue (i_pending s ! k) (i_map s)
        in ((True, map uint as),
            s\<lparr>i_map := m', i_pending := take k (i_pending s) @ drop (Suc k) (i_pending s),
              i_announced := i_announced s @ as\<rparr>)
      else ((True, []), s))"
| "in_rstep InAccept s =
     ((True, []), s\<lparr>i_map := (i_map s)\<lparr>ism_acceptQueue := snd (acceptQueue_next (ism_acceptQueue (i_map s)))\<rparr>\<rparr>)"

fun in_units :: "'t in_event \<Rightarrow> int" where
  "in_units (InAdd _ _) = 1"
| "in_units _ = 0"

definition in_rinv :: "u64 \<Rightarrow> 't in_state \<Rightarrow> bool" where
  "in_rinv n s \<longleftrightarrow> announce_inv n s \<and> ism_cause (i_map s) = None"

definition in_rcvd :: "'t in_state \<Rightarrow> int" where
  "in_rcvd s = uint (ism_numStreams (i_map s))"

definition in_adv :: "'t in_state \<Rightarrow> int" where
  "in_adv s = uint (ism_maxStreams (i_map s))"

definition in_ann :: "'t in_state \<Rightarrow> int" where
  "in_ann s = uint (ism_queuedMaxStreams (i_map s))"

lemma uint_add_1_less: "n < m \<Longrightarrow> uint (n + 1) = uint n + 1" for n m :: u64
  using unat_add_1_less [of n m] by (simp only: uint_nat of_nat_Suc)

lemmas in_credit_defs = in_rinv_def in_rcvd_def in_adv_def in_ann_def

text \<open>Every event is a step of the interleaved map, so the invariant carries over.\<close>

lemma in_rstep_in_step:
  assumes "in_rinv n s" "in_rstep e s = ((ok, as), s')"
  shows "s' = s \<or> in_step s s'"
proof (cases e)
  case (InAdd i str)
  then show ?thesis using assms(2)
    by (auto split: option.splits prod.splits intro: in_step.in_add)
next
  case (InRemove i)
  then show ?thesis using assms(2) in_step.in_remove [of i s] by (auto split: prod.splits)
next
  case (InQueue k)
  show ?thesis
  proof (cases "k < length (i_pending s)")
    case True
    then have "i_pending s = take k (i_pending s) @ i_pending s ! k # drop (Suc k) (i_pending s)"
      by (rule id_take_nth_drop)
    with True InQueue assms(2) in_step.in_queue [OF this] show ?thesis by (auto split: prod.splits)
  qed (use InQueue assms(2) in simp)
next
  case InAccept
  then show ?thesis using assms(2) in_step.in_accept [of s] by auto
qed

lemma in_rstep_cause: "in_rstep e s = ((ok, as), s') \<Longrightarrow> ism_cause (i_map s') = ism_cause (i_map s)"
  by (cases e) (auto simp: wt_defs Let_def split: option.splits prod.splits if_splits)

lemma in_rstep_units:
  assumes inv: "in_rinv n s" and le: "in_rcvd s + in_units e \<le> in_adv s"
    and r: "in_rstep e s = ((ok, as), s')"
  shows "ok \<and> in_rcvd s' = in_rcvd s + in_units e"
proof (cases e)
  case (InAdd i str)
  from inv have m: "in_inv_map (i_map s)" "ism_cause (i_map s) = None"
    by (simp_all add: in_rinv_def announce_inv_def)
  then obtain al where al: "ism_m (i_map s) = Some al" by (auto simp: in_inv_map_def)
  from le InAdd have lt: "ism_numStreams (i_map s) < ism_maxStreams (i_map s)"
    by (simp add: in_rcvd_def in_adv_def word_less_def)
  then show ?thesis
    using r InAdd m(2) al uint_add_1_less [OF lt]
    by (auto simp: in_AddStream_def in_rcvd_def split: if_splits)
next
  case (InRemove i)
  then show ?thesis using r by (auto simp: wt_defs in_rcvd_def Let_def split: option.splits prod.splits if_splits)
next
  case (InQueue k)
  then show ?thesis using r by (auto simp: wt_defs in_rcvd_def split: prod.splits if_splits)
qed (use r in \<open>auto simp: in_rcvd_def\<close>)

lemma in_rstep_ann:
  assumes inv: "in_rinv n s" and r: "in_rstep e s = ((ok, as), s')"
  shows "as = [] \<and> in_ann s' = in_ann s \<or> as = [in_ann s'] \<and> in_ann s < in_ann s' \<and> in_ann s' \<le> 2 ^ 60"
proof (cases e)
  case (InAdd i str)
  then show ?thesis using r in_AddStream_limits [of i str "i_map s"]
    by (auto simp: in_ann_def split: option.splits)
next
  case (InRemove i)
  then show ?thesis using r RemoveStream_mx_queued [of i "i_map s"]
    by (auto simp: in_ann_def split: prod.splits)
next
  case (InQueue k)
  show ?thesis
  proof (cases "k < length (i_pending s)")
    case True
    then have "i_pending s ! k \<in> set (i_pending s)" by simp
    with inv have "i_pending s ! k \<le> maxStreamsLimit"
      by (auto simp: in_rinv_def announce_inv_def in_inv_map_def)
    then show ?thesis using True InQueue r
      by (auto simp: RemoveStream_queue_def in_ann_def word_less_def word_le_def
          maxStreamsLimit_def split: if_splits)
  qed (use InQueue r in simp)
qed (use r in \<open>auto simp: in_ann_def\<close>)

interpretation in_credit: credit_receiver "in_rinv n" in_rcvd in_adv in_ann in_rstep in_units "2 ^ 60" "2 ^ 60"
  for n
proof
  show "in_ann r \<le> in_adv r" if "in_rinv n r" for r :: "'t in_state"
    using that by (simp add: in_credit_defs announce_inv_def in_inv_map_def word_le_def)
  show "ok \<and> in_rinv n r' \<and> in_rcvd r' = in_rcvd r + in_units e \<and>
      (as = [] \<and> in_ann r' = in_ann r \<or> as = [in_ann r'] \<and> in_ann r < in_ann r' \<and> in_ann r' \<le> 2 ^ 60)"
    if "in_rinv n r" "in_rcvd r + in_units e \<le> in_adv r" "in_rstep e r = ((ok, as), r')"
    for r r' :: "'t in_state" and e ok as
  proof -
    have "announce_inv n r'"
      using that in_rstep_in_step [OF that(1,3)] announce_inv_step by (auto simp: in_rinv_def)
    then have "in_rinv n r'" using that(1) in_rstep_cause [OF that(3)] by (simp add: in_rinv_def)
    with in_rstep_units [OF that] in_rstep_ann [OF that(1,3)] show ?thesis by blast
  qed
qed

section \<open>Accepting streams\<close>

text \<open>
  Goroutines \<open>i\<close> that call \<open>AcceptStream\<close>: before a call or after it (\<open>AReady\<close>, with the result
  of the last call), about to look into the queue (\<open>ACheck\<close>), or waiting in the \<open>select\<close>
  (\<open>AWait\<close>). \<open>ac_adders\<close> counts the \<open>add\<close> calls that have appended their stream and not yet
  sent the notification; \<open>ac_added\<close> and \<open>ac_accepted\<close> record the streams in order.
\<close>

datatype 't accept_pc = AReady "(go_error + 't) option" | ACheck | AWait

record 't accept_state =
  ac_q :: "'t acceptQueue"
  ac_adders :: nat
  ac_cause :: "go_error option"
  ac_pc :: "nat \<Rightarrow> 't accept_pc"
  ac_added :: "'t list"
  ac_accepted :: "'t list"

inductive accept_step :: "'t accept_state \<Rightarrow> 't accept_state \<Rightarrow> bool" where
  acc_enqueue: "ac_cause s = None \<Longrightarrow>
     accept_step s (s\<lparr>ac_q := acceptQueue_enqueue x (ac_q s), ac_adders := Suc (ac_adders s),
                      ac_added := ac_added s @ [x]\<rparr>)"
| acc_notify: "ac_adders s = Suc n \<Longrightarrow>
     accept_step s (s\<lparr>ac_q := acceptQueue_notify (ac_q s), ac_adders := n\<rparr>)"
| acc_call: "ac_pc s i = AReady r \<Longrightarrow> ac_cause s = None \<Longrightarrow>
     accept_step s (s\<lparr>ac_pc := (ac_pc s)(i := ACheck)\<rparr>)"
| acc_call_closed: "ac_pc s i = AReady r \<Longrightarrow> ac_cause s = Some e \<Longrightarrow>
     accept_step s (s\<lparr>ac_pc := (ac_pc s)(i := AReady (Some (Inl e)))\<rparr>)"
| acc_next: "ac_pc s i = ACheck \<Longrightarrow> acceptQueue_next (ac_q s) = (Some x, q') \<Longrightarrow>
     accept_step s (s\<lparr>ac_q := q', ac_pc := (ac_pc s)(i := AReady (Some (Inr x))),
                      ac_accepted := ac_accepted s @ [x]\<rparr>)"
| acc_empty: "ac_pc s i = ACheck \<Longrightarrow> acceptQueue_next (ac_q s) = (None, q') \<Longrightarrow>
     accept_step s (s\<lparr>ac_pc := (ac_pc s)(i := AWait)\<rparr>)"
| acc_wake: "ac_pc s i = AWait \<Longrightarrow> aq_c (ac_q s) \<Longrightarrow>
     accept_step s (s\<lparr>ac_q := (ac_q s)\<lparr>aq_c := False\<rparr>, ac_pc := (ac_pc s)(i := ACheck)\<rparr>)"
| acc_closed: "ac_pc s i = AWait \<Longrightarrow> ac_cause s = Some e \<Longrightarrow>
     accept_step s (s\<lparr>ac_pc := (ac_pc s)(i := AReady (Some (Inl e)))\<rparr>)"
| acc_ctx: "ac_pc s i = AWait \<Longrightarrow>
     accept_step s (s\<lparr>ac_pc := (ac_pc s)(i := AReady (Some (Inl ctxErr)))\<rparr>)"
| acc_close: "ac_cause s = None \<Longrightarrow> accept_step s (s\<lparr>ac_cause := Some e\<rparr>)"

inductive_cases acceptE: "accept_step s t"

definition accept_start :: "'t accept_state \<Rightarrow> bool" where
  "accept_start s \<longleftrightarrow> s = \<lparr>ac_q = newAcceptQueue, ac_adders = 0, ac_cause = None,
     ac_pc = (\<lambda>_. AReady None), ac_added = [], ac_accepted = []\<rparr>"

lemmas aq_defs = acceptQueue_enqueue_def acceptQueue_notify_def acceptQueue_next_def newAcceptQueue_def

text \<open>
  Streams are accepted in the order in which they were added, each exactly once: at any time
  the accepted streams followed by the queued ones are the added ones, whatever the
  interleaving of adders and of any number of accepting goroutines.
\<close>

theorem accepted_in_order:
  assumes "reach accept_start accept_step s"
  shows "ac_added s = ac_accepted s @ aq_queue (ac_q s)"
  using assms
proof (rule reach_invariant)
  show "ac_added s = ac_accepted s @ aq_queue (ac_q s)" if "accept_start s" for s :: "'a accept_state"
    using that by (simp add: accept_start_def aq_defs)
next
  fix s t :: "'a accept_state"
  assume "ac_added s = ac_accepted s @ aq_queue (ac_q s)" "accept_step s t"
  from this(2,1) show "ac_added t = ac_accepted t @ aq_queue (ac_q t)"
    by cases (auto simp: aq_defs split: list.splits)
qed

text \<open>One goroutine accepts: the one with number 0 is the only one that ever calls.\<close>

inductive accept1_step :: "'t accept_state \<Rightarrow> 't accept_state \<Rightarrow> bool" where
  "accept_step s t \<Longrightarrow> \<forall>i > 0. ac_pc t i = ac_pc s i \<Longrightarrow> accept1_step s t"

lemma accept1_inv:
  assumes "reach accept_start accept1_step s"
  shows "(\<forall>i > 0. ac_pc s i = AReady None)
    \<and> (ac_pc s 0 = AWait \<longrightarrow> aq_queue (ac_q s) \<noteq> [] \<longrightarrow> aq_c (ac_q s) \<or> 0 < ac_adders s)"
  using assms
proof (rule reach_invariant)
  fix s t :: "'a accept_state"
  assume inv: "(\<forall>i > 0. ac_pc s i = AReady None)
    \<and> (ac_pc s 0 = AWait \<longrightarrow> aq_queue (ac_q s) \<noteq> [] \<longrightarrow> aq_c (ac_q s) \<or> 0 < ac_adders s)"
    and st1: "accept1_step s t"
  from st1 have st: "accept_step s t" and "\<forall>i > 0. ac_pc t i = ac_pc s i"
    by (simp_all add: accept1_step.simps)
  with inv have o: "\<forall>i > 0. ac_pc t i = AReady None" by simp
  from inv have w: "ac_pc s 0 = AWait \<Longrightarrow> aq_queue (ac_q s) \<noteq> [] \<Longrightarrow> aq_c (ac_q s) \<or> 0 < ac_adders s"
    by simp
  have only0: "i = 0" if "ac_pc s i = AWait" for i
    using that inv by (cases i) simp_all
  from st have "ac_pc t 0 = AWait \<longrightarrow> aq_queue (ac_q t) \<noteq> [] \<longrightarrow> aq_c (ac_q t) \<or> 0 < ac_adders t"
  proof cases
    case (acc_wake i)
    with only0 [of i] show ?thesis by simp
  next
    case (acc_next i x q')
    then show ?thesis using w by (auto simp: aq_defs split: list.splits)
  next
    case (acc_empty i q')
    then show ?thesis by (simp add: aq_defs split: list.splits)
  qed (use w in \<open>simp_all add: aq_defs\<close>)
  with o show "(\<forall>i > 0. ac_pc t i = AReady None)
    \<and> (ac_pc t 0 = AWait \<longrightarrow> aq_queue (ac_q t) \<noteq> [] \<longrightarrow> aq_c (ac_q t) \<or> 0 < ac_adders t)" by simp
qed (auto simp: accept_start_def aq_defs)

text \<open>
  C27. A single accepting goroutine never sleeps next to a waiting stream: when it waits while the
  queue is not empty, a notification is buffered or the adder is about to send it, so that its
  next step can be to wake up.
\<close>

theorem accept_no_lost_wakeup:
  assumes "reach accept_start accept1_step s" and "ac_pc s 0 = AWait" and "aq_queue (ac_q s) \<noteq> []"
  shows "aq_c (ac_q s) \<or> 0 < ac_adders s"
  using accept1_inv [OF assms(1)] assms(2,3) by simp

definition accept_waiting :: "string accept_state" where
  "accept_waiting = \<lparr>ac_q = \<lparr>aq_c = False, aq_queue = [''s'']\<rparr>, ac_adders = 1, ac_cause = None,
     ac_pc = (\<lambda>_. AReady None)(0 := AWait), ac_added = [''s''], ac_accepted = []\<rparr>"

lemma accept_waiting_reach: "reach accept_start accept1_step accept_waiting"
proof -
  let ?s0 = "\<lparr>ac_q = newAcceptQueue, ac_adders = 0, ac_cause = None, ac_pc = (\<lambda>_. AReady None),
     ac_added = [], ac_accepted = []\<rparr> :: string accept_state"
  let ?s1 = "?s0\<lparr>ac_pc := (ac_pc ?s0)(0 := ACheck)\<rparr>" and ?s2 = "?s0\<lparr>ac_pc := (ac_pc ?s0)(0 := AWait)\<rparr>"
  have "reach accept_start accept1_step ?s0" by (rule reach_init) (simp add: accept_start_def)
  moreover have "accept1_step ?s0 ?s1"
    using accept_step.acc_call [of ?s0 0 None] by (simp add: accept1_step.simps)
  ultimately have "reach accept_start accept1_step ?s1" by (rule reach_step)
  moreover have "accept1_step ?s1 ?s2"
    using accept_step.acc_empty [of ?s1 0 newAcceptQueue] by (simp add: accept1_step.simps aq_defs)
  ultimately have "reach accept_start accept1_step ?s2" by (rule reach_step)
  moreover have "accept1_step ?s2 accept_waiting"
    using accept_step.acc_enqueue [of ?s2 "''s''"]
    by (simp add: accept1_step.simps aq_defs accept_waiting_def)
  ultimately show ?thesis by (rule reach_step)
qed

lemma accept1_reach_accept: "reach accept_start accept1_step s \<Longrightarrow> reach accept_start accept_step s"
  by (induction rule: reach.induct) (auto simp: accept1_step.simps intro: reach.intros)

theorem accepted_in_order_witness:
  "ac_added accept_waiting = ac_accepted accept_waiting @ aq_queue (ac_q accept_waiting)"
  using accepted_in_order [OF accept1_reach_accept [OF accept_waiting_reach]] .

theorem accept_no_lost_wakeup_witness: "aq_c (ac_q accept_waiting) \<or> 0 < ac_adders accept_waiting"
  by (rule accept_no_lost_wakeup [OF accept_waiting_reach]) (simp_all add: accept_waiting_def)

text \<open>
  C37. With two accepting goroutines a wake-up can be lost: both wait, two streams are added before
  the first of them wakes up (the second notification finds the buffer full and is dropped),
  and one goroutine takes the first stream. Then the other one sleeps although a stream is
  queued, no notification is buffered and no adder is active; only another \<open>add\<close>, a call of
  \<open>AcceptStream\<close>, a cancelled context or the end of the session changes that.
\<close>

theorem two_acceptors_lost_wakeup:
  "\<exists>s :: string accept_state. reach accept_start accept_step s
     \<and> ac_pc s 1 = AWait \<and> aq_queue (ac_q s) \<noteq> [] \<and> \<not> aq_c (ac_q s) \<and> ac_adders s = 0
     \<and> (\<forall>i. ac_pc s i \<noteq> ACheck)"
proof -
  let ?r = "reach accept_start accept_step :: string accept_state \<Rightarrow> bool"
  let ?st = "\<lambda>q n pc added acc. \<lparr>ac_q = q, ac_adders = n, ac_cause = None, ac_pc = pc,
     ac_added = added, ac_accepted = acc\<rparr> :: string accept_state"
  let ?e = "newAcceptQueue :: string acceptQueue" and ?p0 = "\<lambda>_ :: nat. AReady None :: string accept_pc"
  let ?q = "\<lambda>c xs. \<lparr>aq_c = c, aq_queue = xs\<rparr> :: string acceptQueue"
  let ?w = "?p0(0 := AWait, 1 := AWait)"
  have "?r (?st ?e 0 ?p0 [] [])" by (rule reach_init) (simp add: accept_start_def)
  then have "?r (?st ?e 0 (?p0(0 := ACheck)) [] [])"
    by (rule reach_step) (use accept_step.acc_call [of "?st ?e 0 ?p0 [] []" 0 None] in simp)
  then have "?r (?st ?e 0 (?p0(0 := AWait)) [] [])"
    by (rule reach_step)
      (use accept_step.acc_empty [of "?st ?e 0 (?p0(0 := ACheck)) [] []" 0 ?e] in \<open>simp add: aq_defs\<close>)
  then have "?r (?st ?e 0 (?p0(0 := AWait, 1 := ACheck)) [] [])"
    by (rule reach_step) (use accept_step.acc_call [of "?st ?e 0 (?p0(0 := AWait)) [] []" 1 None] in simp)
  then have "?r (?st ?e 0 ?w [] [])"
    by (rule reach_step)
      (use accept_step.acc_empty [of "?st ?e 0 (?p0(0 := AWait, 1 := ACheck)) [] []" 1 ?e] in \<open>simp add: aq_defs\<close>)
  then have "?r (?st (?q False [''a'']) 1 ?w [''a''] [])"
    by (rule reach_step)
      (use accept_step.acc_enqueue [of "?st ?e 0 ?w [] []" "''a''"] in \<open>simp add: aq_defs\<close>)
  then have "?r (?st (?q True [''a'']) 0 ?w [''a''] [])"
    by (rule reach_step)
      (use accept_step.acc_notify [of "?st (?q False [''a'']) 1 ?w [''a''] []" 0] in \<open>simp add: aq_defs\<close>)
  then have "?r (?st (?q True [''a'', ''b'']) 1 ?w [''a'', ''b''] [])"
    by (rule reach_step)
      (use accept_step.acc_enqueue [of "?st (?q True [''a'']) 0 ?w [''a''] []" "''b''"] in \<open>simp add: aq_defs\<close>)
  then have "?r (?st (?q True [''a'', ''b'']) 0 ?w [''a'', ''b''] [])"
    by (rule reach_step)
      (use accept_step.acc_notify [of "?st (?q True [''a'', ''b'']) 1 ?w [''a'', ''b''] []" 0]
        in \<open>simp add: aq_defs\<close>)
  then have "?r (?st (?q False [''a'', ''b'']) 0 (?w(0 := ACheck)) [''a'', ''b''] [])"
    by (rule reach_step)
      (use accept_step.acc_wake [of "?st (?q True [''a'', ''b'']) 0 ?w [''a'', ''b''] []" 0] in simp)
  then have "?r (?st (?q False [''b'']) 0 (?w(0 := AReady (Some (Inr ''a'')))) [''a'', ''b''] [''a''])"
    by (rule reach_step)
      (use accept_step.acc_next [of "?st (?q False [''a'', ''b'']) 0 (?w(0 := ACheck)) [''a'', ''b''] []" 0
          "''a''" "?q False [''b'']"] in \<open>simp add: aq_defs\<close>)
  then show ?thesis by (rule exI [where x = "?st _ _ _ _ _", OF conjI]) simp
qed

end
