(* ===== verification/WT_Deadline.thy ===== *)
theory WT_Deadline
  imports WT_Errors
begin

text \<open>
  Waiting with a deadline that another goroutine may change: the pattern of \<open>waitForUpdate\<close> and of
  both \<open>handleSessionGoneError\<close> methods, with \<open>SetWriteDeadline\<close> and \<open>SetReadDeadline\<close> on the other
  side. The waiting goroutine reads the deadline under the mutex, arms a timer and waits for an
  event, the timer, or a notification on the channel of capacity 1, after which it starts over.

  \<open>wait_step\<close> is this loop over any stream type that provides the operations; the locale
  \<open>deadline_var\<close> states what they have to satisfy and shows that no change of the deadline is
  missed. \<open>WT_SendStream\<close> and \<open>WT_ReceiveStream\<close> interpret it.
\<close>

type_synonym go_time = "int option"   \<comment> \<open>the zero \<open>time.Time\<close> is \<open>None\<close>\<close>

text \<open>One iteration up to the \<open>select\<close>: an expired deadline, or the timer to arm.\<close>

definition arm_timer :: "int \<Rightarrow> go_time \<Rightarrow> go_error + go_time" where
  "arm_timer now deadline =
     (case deadline of
        None \<Rightarrow> Inr None
      | Some t \<Rightarrow> if t - now > 0 then Inr (Some t) else Inl EDeadlineExceeded)"

datatype wait_pc =
    WNone
  | WArm
  | WSelect go_time             \<comment> \<open>in the \<open>select\<close>, with the timer armed for this deadline\<close>
  | WDone "go_error option"

record 's wait_state =
  ws_s :: 's
  ws_now :: int
  ws_pc :: wait_pc

text \<open>
  \<open>mkch\<close> creates the notification channel, \<open>drain\<close> receives from it, \<open>setdl\<close> sets the deadline,
  \<open>event\<close> are the results of the events that
  have happened. \<open>other\<close> are the other operations on the
  stream.
\<close>

inductive wait_step ::
  "('s \<Rightarrow> go_time) \<Rightarrow> ('s \<Rightarrow> bool option) \<Rightarrow> ('s \<Rightarrow> 's) \<Rightarrow> ('s \<Rightarrow> 's) \<Rightarrow> (go_time \<Rightarrow> 's \<Rightarrow> 's)
    \<Rightarrow> ('s \<Rightarrow> go_error option \<Rightarrow> bool) \<Rightarrow> ('s \<Rightarrow> 's \<Rightarrow> bool) \<Rightarrow> 's wait_state \<Rightarrow> 's wait_state \<Rightarrow> bool"
  for deadline notify mkch drain setdl event other where
  wait_enter: "ws_pc x = WNone \<or> ws_pc x = WDone r \<Longrightarrow>
    wait_step deadline notify mkch drain setdl event other x (x\<lparr>ws_s := mkch (ws_s x), ws_pc := WArm\<rparr>)"
| wait_arm: "ws_pc x = WArm \<Longrightarrow>
    wait_step deadline notify mkch drain setdl event other x
      (x\<lparr>ws_pc := case arm_timer (ws_now x) (deadline (ws_s x)) of Inl e \<Rightarrow> WDone (Some e) | Inr d \<Rightarrow> WSelect d\<rparr>)"
| wait_event: "ws_pc x = WSelect d \<Longrightarrow> event (ws_s x) r \<Longrightarrow>
    wait_step deadline notify mkch drain setdl event other x (x\<lparr>ws_pc := WDone r\<rparr>)"
| wait_timer: "ws_pc x = WSelect (Some t) \<Longrightarrow> t \<le> ws_now x \<Longrightarrow>
    wait_step deadline notify mkch drain setdl event other x (x\<lparr>ws_pc := WDone (Some EDeadlineExceeded)\<rparr>)"
| wait_notify: "ws_pc x = WSelect d \<Longrightarrow> notify (ws_s x) = Some True \<Longrightarrow>
    wait_step deadline notify mkch drain setdl event other x (x\<lparr>ws_s := drain (ws_s x), ws_pc := WArm\<rparr>)"
| wait_set: "wait_step deadline notify mkch drain setdl event other x (x\<lparr>ws_s := setdl t (ws_s x)\<rparr>)"
| wait_clock: "0 \<le> k \<Longrightarrow> wait_step deadline notify mkch drain setdl event other x (x\<lparr>ws_now := ws_now x + k\<rparr>)"
| wait_other: "other (ws_s x) s' \<Longrightarrow> wait_step deadline notify mkch drain setdl event other x (x\<lparr>ws_s := s'\<rparr>)"

definition wait_start :: "'s \<Rightarrow> 's wait_state \<Rightarrow> bool" where
  "wait_start s0 x \<longleftrightarrow> ws_s x = s0 \<and> ws_pc x = WNone"

locale deadline_var =
  fixes deadline :: "'s \<Rightarrow> go_time"
    and notify :: "'s \<Rightarrow> bool option"
    and mkch :: "'s \<Rightarrow> 's"
    and drain :: "'s \<Rightarrow> 's"
    and setdl :: "go_time \<Rightarrow> 's \<Rightarrow> 's"
    and event :: "'s \<Rightarrow> go_error option \<Rightarrow> bool"
    and other :: "'s \<Rightarrow> 's \<Rightarrow> bool"
  assumes mkch_law: "deadline (mkch s) = deadline s" "notify (mkch s) \<noteq> None"
    and drain_law: "deadline (drain s) = deadline s" "notify s \<noteq> None \<Longrightarrow> notify (drain s) \<noteq> None"
    and setdl_law: "deadline (setdl t s) = t" "notify (setdl t s) = map_option (\<lambda>_. True) (notify s)"
    and other_law: "other s s' \<Longrightarrow> deadline s' = deadline s \<and> notify s' = notify s \<or> (\<exists>t. deadline s' = t
          \<and> notify s' = map_option (\<lambda>_. True) (notify s))"
begin

definition wait_inv :: "'s wait_state \<Rightarrow> bool" where
  "wait_inv x \<longleftrightarrow>
     (case ws_pc x of
        WArm \<Rightarrow> notify (ws_s x) \<noteq> None
      | WSelect d \<Rightarrow> notify (ws_s x) \<noteq> None \<and> (d = deadline (ws_s x) \<or> notify (ws_s x) = Some True)
      | _ \<Rightarrow> True)"

lemma wait_inv_step:
  "wait_step deadline notify mkch drain setdl event other x y \<Longrightarrow> wait_inv x \<Longrightarrow> wait_inv y"
proof (induction rule: wait_step.induct)
  case (wait_arm x)
  then show ?case by (auto simp: wait_inv_def arm_timer_def split: sum.splits option.splits if_splits)
next
  case (wait_other x s')
  then show ?case using other_law [OF wait_other(1)] by (auto simp: wait_inv_def split: wait_pc.splits)
next
  case (wait_set x t)
  then show ?case by (auto simp: wait_inv_def setdl_law split: wait_pc.splits)
qed (auto simp: wait_inv_def mkch_law drain_law split: wait_pc.splits)

lemma wait_inv_reach:
  "reach (wait_start s0) (wait_step deadline notify mkch drain setdl event other) x \<Longrightarrow> wait_inv x"
proof (erule reach_invariant)
  show "wait_inv x" if "wait_start s0 x" for x using that by (simp add: wait_start_def wait_inv_def)
qed (rule wait_inv_step)

text \<open>A goroutine that waits when the current deadline has passed can go on by itself.\<close>

lemma wait_not_past_deadline:
  assumes "reach (wait_start s0) (wait_step deadline notify mkch drain setdl event other) x"
    and "ws_pc x = WSelect d" and "deadline (ws_s x) = Some t" and "t \<le> ws_now x"
  shows "\<exists>y. wait_step deadline notify mkch drain setdl event other x y
      \<and> (ws_pc y = WArm \<or> ws_pc y = WDone (Some EDeadlineExceeded))"
proof -
  from wait_inv_reach [OF assms(1)] assms(2,3) have "notify (ws_s x) = Some True \<or> d = Some t"
    by (auto simp: wait_inv_def)
  then show ?thesis
  proof
    assume "notify (ws_s x) = Some True"
    from wait_step.wait_notify [OF assms(2), of notify, OF this] show ?thesis by fastforce
  next
    assume "d = Some t"
    with assms(2,4) wait_step.wait_timer [of x t] show ?thesis by fastforce
  qed
qed

end

end
