(* ===== verification/WT_ReceiveStream.thy ===== *)
theory WT_ReceiveStream
  imports WT_SendStream
begin

text \<open>
  The receiving side of a stream and the bidirectional stream (\<open>receive_stream.go\<close>, \<open>stream.go\<close>).

  The bytes of a stream are charged to the session's flow controller when they are read, or at once
  when the final size becomes known (a FIN or a reset); QUIC reports the final size through a
  callback that may run at any time, also between QUIC's \<open>Read\<close> and the accounting of its result.
  \<open>rs_step\<close> interleaves them; every byte is charged exactly once.
\<close>

section \<open>State\<close>

record ReceiveStream =
  rs_fc :: bool
  rs_bytesRead :: i64
  rs_finalSizeKnown :: bool
  rs_closeOnce :: bool
  rs_closed :: bool
  rs_closeErr :: "go_error option"
  rs_readDeadline :: go_time
  rs_deadlineNotifyCh :: "bool option"

text \<open>The second component: is the final-size callback registered.\<close>

definition newReceiveStream :: "i64 \<Rightarrow> bool \<Rightarrow> ReceiveStream \<times> bool" where
  "newReceiveStream streamHeaderLen fc =
     (\<lparr>rs_fc = fc, rs_bytesRead = streamHeaderLen, rs_finalSizeKnown = False, rs_closeOnce = False,
       rs_closed = False, rs_closeErr = None, rs_readDeadline = None, rs_deadlineNotifyCh = None\<rparr>, fc)"

section \<open>Operations\<close>

text \<open>The critical section of \<open>Read\<close> after QUIC delivered \<open>n\<close> bytes: what is to be charged.\<close>

definition Read_account :: "i64 \<Rightarrow> ReceiveStream \<Rightarrow> i64 \<times> ReceiveStream" where
  "Read_account n s =
     (if \<not> rs_fc s then (0, s)
      else if \<not> rs_finalSizeKnown s then (n, s\<lparr>rs_bytesRead := wrap64 (rs_bytesRead s + n)\<rparr>)
      else (0, s))"

definition onReceiveFinalSize :: "i64 \<Rightarrow> ReceiveStream \<Rightarrow> i64 \<times> ReceiveStream" where
  "onReceiveFinalSize finalSize s =
     (wrap64 (finalSize - rs_bytesRead s), s\<lparr>rs_bytesRead := finalSize, rs_finalSizeKnown := True\<rparr>)"

text \<open>
  \<open>addBytesRead\<close>: the controller afterwards, the limits it announced, and the error passed to
  \<open>onFlowControlError\<close> (\<open>cb\<close>: it is not nil).
\<close>

definition addBytesRead ::
  "bool \<Rightarrow> ReceiveStream \<Rightarrow> i64 \<Rightarrow> incomingDataFlowController
     \<Rightarrow> (go_error option \<times> i64 list) \<times> incomingDataFlowController" where
  "addBytesRead cb s n f =
     (if \<not> rs_fc s \<or> n = 0 then ((None, []), f)
      else
        let ((err, as), f') = AddBytesRead n f
        in ((if cb then err else None, as), f'))"

text \<open>What \<open>Read\<close> returns, as for \<open>Write\<close>.\<close>

definition Read_result ::
  "go_error option \<Rightarrow> int \<times> go_error option \<Rightarrow> (int \<times> go_error option) \<times> qcall list" where
  "Read_result gone r =
     (let (n, err) = r;
          err1 = (case err of
                    Some e \<Rightarrow>
                      (case as_quic_StreamError e of
                         Some strErr \<Rightarrow> if qse_ErrorCode strErr = WTSessionGoneErrorCode then gone else err
                       | None \<Rightarrow> err)
                  | None \<Rightarrow> err)
      in ((n, maybeConvertStreamError err1),
          (case err1 of Some e \<Rightarrow> if \<not> isTimeoutError e then [CallOnClose] else [] | None \<Rightarrow> [])))"

text \<open>
  \<open>Read\<close> when QUIC's \<open>Read\<close> returned \<open>n\<close> and \<open>err\<close>, with the error reported to the session and the
  limits announced by the flow controller. The two are separate critical sections.
\<close>

definition Read ::
  "bool \<Rightarrow> go_error option \<Rightarrow> int \<times> go_error option \<Rightarrow> ReceiveStream \<Rightarrow> incomingDataFlowController
     \<Rightarrow> ((int \<times> go_error option) \<times> qcall list \<times> go_error option \<times> i64 list)
         \<times> ReceiveStream \<times> incomingDataFlowController" where
  "Read cb gone nerr s f =
     (let (c, s1) = Read_account (fst nerr) s;
          ((fcErr, as), f1) = addBytesRead cb s1 c f;
          (r, cs) = Read_result gone nerr
      in ((r, cs, fcErr, as), s1, f1))"

definition CancelRead :: "u32 \<Rightarrow> ReceiveStream \<Rightarrow> qcall list \<times> ReceiveStream" where
  "CancelRead e s = ([QCancelRead (webtransportCodeToHTTPCode e), CallOnClose], s)"

definition recv_closeWithSession :: "go_error \<Rightarrow> ReceiveStream \<Rightarrow> qcall list \<times> ReceiveStream" where
  "recv_closeWithSession err s =
     (if rs_closeOnce s then ([], s)
      else ([QCancelRead WTSessionGoneErrorCode],
            s\<lparr>rs_closeOnce := True, rs_closeErr := Some err, rs_closed := True\<rparr>))"

definition SetReadDeadline :: "go_time \<Rightarrow> ReceiveStream \<Rightarrow> qcall list \<times> ReceiveStream" where
  "SetReadDeadline t s =
     ([QSetReadDeadline t],
      s\<lparr>rs_readDeadline := t, rs_deadlineNotifyCh := map_option (\<lambda>_. True) (rs_deadlineNotifyCh s)\<rparr>)"

section \<open>Every byte is charged once\<close>

text \<open>
  \<open>ra_pending\<close>: amounts computed and not yet passed to the controller; \<open>ra_charged\<close>: their sum so
  far. \<open>ra_read\<close> is what QUIC's \<open>Read\<close> delivered in total, \<open>ra_unaccounted\<close> the results of \<open>Read\<close>
  that were not yet processed. QUIC reports a final size once, not below what it delivered.
\<close>

record rs_state =
  ra_s :: ReceiveStream
  ra_read :: int
  ra_unaccounted :: "int list"
  ra_pending :: "int list"
  ra_charged :: int
  ra_final :: "int option"

inductive rs_step :: "int \<Rightarrow> rs_state \<Rightarrow> rs_state \<Rightarrow> bool" for h where
  rs_deliver: "0 \<le> n \<Longrightarrow> h + ra_read x + n < 2 ^ 62 \<Longrightarrow>
    (case ra_final x of None \<Rightarrow> True | Some f \<Rightarrow> h + ra_read x + n \<le> f) \<Longrightarrow>
    rs_step h x (x\<lparr>ra_read := ra_read x + n, ra_unaccounted := n # ra_unaccounted x\<rparr>)"
| rs_account: "ra_unaccounted x = as @ n # bs \<Longrightarrow> Read_account n (ra_s x) = (c, s) \<Longrightarrow>
    rs_step h x (x\<lparr>ra_s := s, ra_unaccounted := as @ bs, ra_pending := c # ra_pending x\<rparr>)"
| rs_final: "ra_final x = None \<Longrightarrow> h + ra_read x \<le> f \<Longrightarrow> f < 2 ^ 62 \<Longrightarrow>
    onReceiveFinalSize f (ra_s x) = (c, s) \<Longrightarrow>
    rs_step h x (x\<lparr>ra_s := s, ra_final := Some f, ra_pending := c # ra_pending x\<rparr>)"
| rs_charge: "ra_pending x = as @ c # bs \<Longrightarrow>
    rs_step h x (x\<lparr>ra_pending := as @ bs, ra_charged := ra_charged x + c\<rparr>)"

definition rs_start :: "int \<Rightarrow> rs_state \<Rightarrow> bool" where
  "rs_start h x \<longleftrightarrow> x = \<lparr>ra_s = fst (newReceiveStream h True), ra_read = 0, ra_unaccounted = [],
     ra_pending = [], ra_charged = 0, ra_final = None\<rparr>"

definition rs_inv :: "int \<Rightarrow> rs_state \<Rightarrow> bool" where
  "rs_inv h x \<longleftrightarrow> rs_fc (ra_s x) \<and> rs_finalSizeKnown (ra_s x) = (ra_final x \<noteq> None)
     \<and> (\<forall>n \<in> set (ra_unaccounted x). 0 \<le> n) \<and> (\<forall>c \<in> set (ra_pending x). 0 \<le> c)
     \<and> 0 \<le> ra_charged x \<and> 0 \<le> h \<and> h + ra_read x < 2 ^ 62
     \<and> sum_list (ra_unaccounted x) \<le> ra_read x
     \<and> rs_bytesRead (ra_s x) = h + ra_charged x + sum_list (ra_pending x)
     \<and> (case ra_final x of
          None \<Rightarrow> rs_bytesRead (ra_s x) = h + ra_read x - sum_list (ra_unaccounted x)
        | Some f \<Rightarrow> rs_bytesRead (ra_s x) = f)"

lemma sum_list_nonneg_int: "(\<forall>x \<in> set xs. 0 \<le> x) \<Longrightarrow> 0 \<le> sum_list xs" for xs :: "int list"
  by (rule sum_list_nonneg) simp

lemma wrap64_small: "0 \<le> x \<Longrightarrow> x < 2 ^ 62 \<Longrightarrow> wrap64 x = x"
  by (rule wrap64_id) (simp add: in_i64_def)

lemma rs_inv_account:
  assumes inv: "rs_inv h x" and u: "ra_unaccounted x = as @ n # bs" and r: "Read_account n (ra_s x) = (c, s)"
  shows "rs_inv h (x\<lparr>ra_s := s, ra_unaccounted := as @ bs, ra_pending := c # ra_pending x\<rparr>)"
proof (cases "ra_final x")
  case None
  from inv u have "0 \<le> n" "\<forall>m \<in> set (as @ bs). 0 \<le> m" by (auto simp: rs_inv_def)
  then have "0 \<le> n" "0 \<le> sum_list (as @ bs)" using sum_list_nonneg_int [of "as @ bs"] by blast+
  with inv u None have "wrap64 (rs_bytesRead (ra_s x) + n) = rs_bytesRead (ra_s x) + n"
    by (intro wrap64_small) (auto simp: rs_inv_def)
  with inv u r None \<open>0 \<le> n\<close> show ?thesis by (auto simp: rs_inv_def Read_account_def)
next
  case (Some f)
  from inv u have "0 \<le> n" by (auto simp: rs_inv_def)
  with inv u r Some show ?thesis by (auto simp: rs_inv_def Read_account_def)
qed

lemma rs_inv_final:
  assumes inv: "rs_inv h x" and n: "ra_final x = None" and f: "h + ra_read x \<le> f" "f < 2 ^ 62"
    and r: "onReceiveFinalSize f (ra_s x) = (c, s)"
  shows "rs_inv h (x\<lparr>ra_s := s, ra_final := Some f, ra_pending := c # ra_pending x\<rparr>)"
proof -
  from inv have "0 \<le> sum_list (ra_unaccounted x)" "0 \<le> sum_list (ra_pending x)"
    by (auto simp: rs_inv_def intro: sum_list_nonneg_int)
  with inv n f have "0 \<le> f - rs_bytesRead (ra_s x)" "f - rs_bytesRead (ra_s x) < 2 ^ 62"
    by (auto simp: rs_inv_def)
  with r inv have "c = f - rs_bytesRead (ra_s x)" "0 \<le> c" "s = (ra_s x)\<lparr>rs_bytesRead := f, rs_finalSizeKnown := True\<rparr>"
    by (auto simp: onReceiveFinalSize_def wrap64_small)
  with inv n show ?thesis by (auto simp: rs_inv_def)
qed

lemma rs_inv_step: "rs_step h x y \<Longrightarrow> rs_inv h x \<Longrightarrow> rs_inv h y"
proof (induction rule: rs_step.induct)
  case (rs_account x as n bs c s)
  then show ?case by (intro rs_inv_account)
next
  case (rs_final x f c s)
  then show ?case by (intro rs_inv_final)
qed (auto simp: rs_inv_def split: option.splits)

text \<open>
  C28. Every byte of a stream is charged to the session's flow controller exactly once, however
  \<open>Read\<close> calls and the final-size callback interleave: what was charged and is about to be charged
  is what was read, without the stream header, and as soon as the final size is known, the whole
  stream, including the bytes the application never reads. No charge is negative.
\<close>

theorem bytes_charged_once:
  assumes "reach (rs_start h) (rs_step h) x" and "0 \<le> h" and "h < 2 ^ 62"
  shows "(\<forall>c \<in> set (ra_pending x). 0 \<le> c)
    \<and> ra_charged x + sum_list (ra_pending x) =
      (case ra_final x of None \<Rightarrow> ra_read x - sum_list (ra_unaccounted x) | Some f \<Rightarrow> f - h)"
proof -
  have "rs_inv h x"
    using assms(1)
  proof (rule reach_invariant)
    show "rs_inv h x" if "rs_start h x" for x
      using that assms(2,3) by (simp add: rs_start_def rs_inv_def newReceiveStream_def)
  qed (rule rs_inv_step)
  then show ?thesis by (auto simp: rs_inv_def split: option.splits)
qed


text \<open>
  A stream with a two-byte header: five bytes are delivered, the callback reports a final size of
  10 before they are accounted for.
\<close>

definition rs_example :: rs_state where
  "rs_example = \<lparr>ra_s = (fst (newReceiveStream 2 True))\<lparr>rs_bytesRead := 10, rs_finalSizeKnown := True\<rparr>,
     ra_read = 5, ra_unaccounted = [], ra_pending = [0, 8], ra_charged = 0, ra_final = Some 10\<rparr>"

lemma rs_example_reach: "reach (rs_start 2) (rs_step 2) rs_example"
proof -
  let ?x0 = "\<lparr>ra_s = fst (newReceiveStream 2 True), ra_read = 0, ra_unaccounted = [], ra_pending = [],
     ra_charged = 0, ra_final = None\<rparr>"
  let ?x1 = "?x0\<lparr>ra_read := 5, ra_unaccounted := [5]\<rparr>"
  let ?x2 = "?x1\<lparr>ra_s := (fst (newReceiveStream 2 True))\<lparr>rs_bytesRead := 10, rs_finalSizeKnown := True\<rparr>,
     ra_final := Some 10, ra_pending := [8]\<rparr>"
  have 0: "reach (rs_start 2) (rs_step 2) ?x0" by (rule reach_init) (simp add: rs_start_def)
  have "rs_step 2 ?x0 ?x1"
    by (rule back_subst [where P = "rs_step 2 ?x0", OF rs_deliver [where n = 5]]) simp_all
  then have 1: "reach (rs_start 2) (rs_step 2) ?x1" by (rule reach_step [OF 0])
  have "rs_step 2 ?x1 ?x2"
    by (rule back_subst [where P = "rs_step 2 ?x1", OF rs_final [where f = 10]])
      (simp_all add: onReceiveFinalSize_def newReceiveStream_def wrap64_def)
  then have 2: "reach (rs_start 2) (rs_step 2) ?x2" by (rule reach_step [OF 1])
  have "rs_step 2 ?x2 rs_example"
    by (rule back_subst [where P = "rs_step 2 ?x2", OF rs_account [where as = "[]" and n = 5 and bs = "[]"]])
      (simp_all add: Read_account_def newReceiveStream_def rs_example_def)
  then show ?thesis by (rule reach_step [OF 2])
qed

theorem bytes_charged_once_witness:
  "ra_final rs_example = Some 10 \<and> ra_charged rs_example + sum_list (ra_pending rs_example) = 10 - 2"
  using bytes_charged_once [OF rs_example_reach] by (simp add: rs_example_def)

section \<open>Waiting with a deadline\<close>

definition recv_makeNotifyCh :: "ReceiveStream \<Rightarrow> ReceiveStream" where
  "recv_makeNotifyCh s =
     (if rs_deadlineNotifyCh s = None then s\<lparr>rs_deadlineNotifyCh := Some False\<rparr> else s)"

definition recv_drainNotifyCh :: "ReceiveStream \<Rightarrow> ReceiveStream" where
  "recv_drainNotifyCh s = s\<lparr>rs_deadlineNotifyCh := map_option (\<lambda>_. False) (rs_deadlineNotifyCh s)\<rparr>"

definition recv_gone_event :: "ReceiveStream \<Rightarrow> go_error option \<Rightarrow> bool" where
  "recv_gone_event s r \<longleftrightarrow> rs_closed s \<and> r = rs_closeErr s"

inductive recv_other :: "ReceiveStream \<Rightarrow> ReceiveStream \<Rightarrow> bool" where
  "CancelRead e s = (cs, s') \<Longrightarrow> recv_other s s'"
| "recv_closeWithSession err s = (cs, s') \<Longrightarrow> recv_other s s'"
| "Read_account n s = (c, s') \<Longrightarrow> recv_other s s'"
| "onReceiveFinalSize f s = (c, s') \<Longrightarrow> recv_other s s'"

lemma recv_other_deadline:
  "recv_other s s' \<Longrightarrow> rs_readDeadline s' = rs_readDeadline s \<and> rs_deadlineNotifyCh s' = rs_deadlineNotifyCh s"
  by (induction rule: recv_other.induct)
    (auto simp: CancelRead_def recv_closeWithSession_def Read_account_def onReceiveFinalSize_def split: if_splits)

abbreviation recv_setDeadline :: "go_time \<Rightarrow> ReceiveStream \<Rightarrow> ReceiveStream" where
  "recv_setDeadline t s \<equiv> snd (SetReadDeadline t s)"

interpretation recv_gone: deadline_var rs_readDeadline rs_deadlineNotifyCh recv_makeNotifyCh
  recv_drainNotifyCh recv_setDeadline recv_gone_event recv_other
  by unfold_locales
    (auto simp: recv_makeNotifyCh_def recv_drainNotifyCh_def SetReadDeadline_def dest: recv_other_deadline)

abbreviation recv_gone_step :: "ReceiveStream wait_state \<Rightarrow> ReceiveStream wait_state \<Rightarrow> bool" where
  "recv_gone_step \<equiv> wait_step rs_readDeadline rs_deadlineNotifyCh recv_makeNotifyCh
     recv_drainNotifyCh recv_setDeadline recv_gone_event recv_other"

text \<open>A closed session ends the wait of a \<open>Read\<close> whose stream was reset with the session-gone code.\<close>

lemma recv_gone_ends:
  "ws_pc x = WSelect d \<Longrightarrow> rs_closed (ws_s x) \<Longrightarrow> \<exists>y. recv_gone_step x y \<and> ws_pc y = WDone (rs_closeErr (ws_s x))"
  by (rule exI [of _ "x\<lparr>ws_pc := WDone (rs_closeErr (ws_s x))\<rparr>"])
    (auto intro!: wait_step.wait_event simp: recv_gone_event_def)

section \<open>Bidirectional streams\<close>

record Stream =
  str_sendStr :: SendStream
  str_recvStr :: ReceiveStream
  str_sendSideClosed :: bool
  str_recvSideClosed :: bool

definition newStream :: "bytes \<Rightarrow> bool \<Rightarrow> bool \<Rightarrow> i64 \<Rightarrow> Stream" where
  "newStream hdr sendFC receiveFC receiveHeaderLen =
     \<lparr>str_sendStr = newSendStream hdr sendFC, str_recvStr = fst (newReceiveStream receiveHeaderLen receiveFC),
      str_sendSideClosed = False, str_recvSideClosed = False\<rparr>"

text \<open>Returns whether \<open>onClose\<close> is called.\<close>

definition registerClose :: "bool \<Rightarrow> Stream \<Rightarrow> bool \<times> Stream" where
  "registerClose isSendSide s =
     (let s1 = (if isSendSide then s\<lparr>str_sendSideClosed := True\<rparr> else s\<lparr>str_recvSideClosed := True\<rparr>)
      in (str_sendSideClosed s1 \<and> str_recvSideClosed s1, s1))"

definition stream_closeWithSession :: "go_error \<Rightarrow> Stream \<Rightarrow> qcall list \<times> Stream" where
  "stream_closeWithSession err s =
     (let (cs1, send) = send_closeWithSession err (str_sendStr s);
          (cs2, recv) = recv_closeWithSession err (str_recvStr s)
      in (cs1 @ cs2, s\<lparr>str_sendStr := send, str_recvStr := recv\<rparr>))"

text \<open>
  The other operations are those of one direction; a call of its \<open>onClose\<close> is a call of
  \<open>registerClose\<close>, and the first component says whether the stream's own \<open>onClose\<close> is called.
\<close>

definition stream_onClose :: "bool \<Rightarrow> qcall list \<Rightarrow> Stream \<Rightarrow> bool \<times> Stream" where
  "stream_onClose isSendSide cs s = (if CallOnClose \<in> set cs then registerClose isSendSide s else (False, s))"

definition stream_Write ::
  "'w send_world \<Rightarrow> nat \<times> go_error option \<Rightarrow> go_error option \<Rightarrow> bytes \<Rightarrow> Stream \<Rightarrow> 'w
     \<Rightarrow> (((int \<times> go_error option) \<times> bool \<times> qcall list) \<times> Stream \<times> 'w) option" where
  "stream_Write W res gone b s w =
     map_option (\<lambda>((r, cs, send), w').
         let (closed, s1) = stream_onClose True cs (s\<lparr>str_sendStr := send\<rparr>) in ((r, closed, cs), s1, w'))
       (Write W res gone b (str_sendStr s) w)"

definition stream_Read ::
  "bool \<Rightarrow> go_error option \<Rightarrow> int \<times> go_error option \<Rightarrow> Stream \<Rightarrow> incomingDataFlowController
     \<Rightarrow> ((int \<times> go_error option) \<times> bool \<times> qcall list \<times> go_error option \<times> i64 list) \<times> Stream \<times> incomingDataFlowController" where
  "stream_Read cb gone nerr s f =
     (let ((r, cs, fcErr, as), recv, f1) = Read cb gone nerr (str_recvStr s) f;
          (closed, s1) = stream_onClose False cs (s\<lparr>str_recvStr := recv\<rparr>)
      in ((r, closed, cs, fcErr, as), s1, f1))"

definition stream_CancelWrite :: "u32 \<Rightarrow> Stream \<Rightarrow> (bool \<times> qcall list \<times> header_goroutine option) \<times> Stream" where
  "stream_CancelWrite e s =
     (let ((cs, g), send) = CancelWrite e (str_sendStr s);
          (closed, s1) = stream_onClose True cs (s\<lparr>str_sendStr := send\<rparr>)
      in ((closed, cs, g), s1))"

definition stream_CancelRead :: "u32 \<Rightarrow> Stream \<Rightarrow> (bool \<times> qcall list) \<times> Stream" where
  "stream_CancelRead e s =
     (let (cs, recv) = CancelRead e (str_recvStr s);
          (closed, s1) = stream_onClose False cs (s\<lparr>str_recvStr := recv\<rparr>)
      in ((closed, cs), s1))"

definition stream_Close ::
  "go_error option \<Rightarrow> Stream \<Rightarrow> (bool \<times> go_error option \<times> qcall list \<times> header_goroutine option) \<times> Stream" where
  "stream_Close err s =
     (let ((res, cs, g), send) = send_Close err (str_sendStr s);
          (closed, s1) = stream_onClose True cs (s\<lparr>str_sendStr := send\<rparr>)
      in ((closed, res, cs, g), s1))"

text \<open>The goroutine that sends a pending header, for a bidirectional stream.\<close>

definition stream_header_goroutine :: "nat \<Rightarrow> header_goroutine \<Rightarrow> Stream \<Rightarrow> (bool \<times> qcall list) \<times> Stream" where
  "stream_header_goroutine n a s =
     (let (cs, send) = run_header_goroutine n a (str_sendStr s);
          (closed, s1) = stream_onClose True cs (s\<lparr>str_sendStr := send\<rparr>)
      in ((closed, cs), s1))"

definition stream_SetWriteDeadline :: "go_time \<Rightarrow> Stream \<Rightarrow> qcall list \<times> Stream" where
  "stream_SetWriteDeadline t s =
     (let (cs, send) = SetWriteDeadline t (str_sendStr s) in (cs, s\<lparr>str_sendStr := send\<rparr>))"

definition stream_SetReadDeadline :: "go_time \<Rightarrow> Stream \<Rightarrow> qcall list \<times> Stream" where
  "stream_SetReadDeadline t s =
     (let (cs, recv) = SetReadDeadline t (str_recvStr s) in (cs, s\<lparr>str_recvStr := recv\<rparr>))"

text \<open>Both deadlines are set, the write deadline first.\<close>

definition SetDeadline :: "go_time \<Rightarrow> Stream \<Rightarrow> qcall list \<times> Stream" where
  "SetDeadline t s =
     (let (cs1, s1) = stream_SetWriteDeadline t s; (cs2, s2) = stream_SetReadDeadline t s1
      in (cs1 @ cs2, s2))"

text \<open>The calls of \<open>registerClose\<close>, and whether each one called \<open>onClose\<close>.\<close>

fun registerCloses :: "bool list \<Rightarrow> Stream \<Rightarrow> bool list \<times> Stream" where
  "registerCloses [] s = ([], s)"
| "registerCloses (b # bs) s =
     (let (c, s1) = registerClose b s; (cs, s2) = registerCloses bs s1 in (c # cs, s2))"

lemma registerCloses_flags:
  "registerCloses bs s = (cs, s') \<Longrightarrow> k < length bs \<Longrightarrow>
     cs ! k = ((str_sendSideClosed s \<or> True \<in> set (take (Suc k) bs))
       \<and> (str_recvSideClosed s \<or> False \<in> set (take (Suc k) bs)))"
proof (induction bs arbitrary: s cs s' k)
  case (Cons b bs)
  then obtain c s1 cs1 where c: "registerClose b s = (c, s1)" "registerCloses bs s1 = (cs1, s')" "cs = c # cs1"
    by (auto simp: Let_def split: prod.splits)
  then show ?case using Cons.IH [OF c(2)] Cons.prems(2)
    by (cases k) (auto simp: registerClose_def Let_def split: if_splits)
qed simp

text \<open>
  A bidirectional stream is removed from its map when, and not before, both of its sides are
  closed, in whichever order and however often the sides report it: the \<open>k\<close>-th report triggers the
  removal if and only if both sides have reported by then.
\<close>

theorem stream_removed_when_both_sides_closed:
  assumes "registerCloses bs (newStream hdr sfc rfc n) = (cs, s)" and "k < length bs"
  shows "cs ! k \<longleftrightarrow> True \<in> set (take (Suc k) bs) \<and> False \<in> set (take (Suc k) bs)"
  using registerCloses_flags [OF assms] by (simp add: newStream_def)

theorem stream_removed_when_both_sides_closed_witness:
  "registerCloses [True, True, False] (newStream [] True True 0)
     = ([False, False, True], snd (registerCloses [True, True, False] (newStream [] True True 0)))
   \<and> False \<in> set (take (Suc 2) [True, True, False])"
proof -
  have r: "registerCloses [True, True, False] (newStream [] True True 0)
     = ([False, False, True], snd (registerCloses [True, True, False] (newStream [] True True 0)))"
    by (simp add: registerClose_def newStream_def Let_def)
  from stream_removed_when_both_sides_closed [OF this, of 2] r show ?thesis by simp
qed


section \<open>Errors of the QUIC stream\<close>


end
