(* ===== verification/WT_Session.thy ===== *)
theory WT_Session
  imports WT_Capsule WT_FlowControl WT_Incoming WT_Outgoing WT_ReceiveStream "HOL-Library.Sublist"
begin

text \<open>
  The session (\<open>session.go\<close>): it owns the four stream maps, the flow controllers and the capsule
  queue, reads capsules from the CONNECT stream in one goroutine and writes them in another.

  The record \<open>Session\<close> is its state; streams are represented by their IDs, calls on the CONNECT
  stream by \<open>connect_call\<close>s, calls of \<open>closeWithSession\<close> on streams by pairs of ID and error. First
  the operations, as compositions of their critical sections; then the capsule queue with its
  writer, for every interleaving (\<open>cq_step\<close>). The texts of errors of other packages are the
  parameter \<open>ext\<close>, the two error codes of package http3 are the parameter \<open>h3\<close>.
\<close>

section \<open>State\<close>

record http3_codes =
  h3_ErrCodeDatagramError :: u64
  h3_ErrCodeExcessiveLoad :: u64

datatype connect_call =
    CCancelRead u64
  | CCancelWrite u64
  | CSetWriteDeadline                 \<comment> \<open>\<open>closeSessionTimeout\<close> from now\<close>
  | CTryWriteAll "bytes option"
  | CClose

definition maxQueuedOutgoingCapsules :: nat where
  "maxQueuedOutgoingCapsules = 4096"

record Session =
  ses_sessionID :: u64
  ses_applicationProtocol :: string
  ses_flowControlEnabled :: bool
  ses_closeErr :: "go_error option"
  ses_ctxDone :: bool
  ses_capsuleQueue :: "capsule list"
  ses_pendingCloseCapsule :: "closeSessionCapsule option"
  ses_capsuleQueueUpdated :: bool     \<comment> \<open>the channel of capacity 1 holds a value\<close>
  ses_incomingStreams :: "int incomingStreamsMap"
  ses_incomingUniStreams :: "int incomingStreamsMap"
  ses_outgoingStreams :: "int outgoingStreamsMap"
  ses_outgoingUniStreams :: "int outgoingStreamsMap"
  ses_incomingDataFC :: "incomingDataFlowController option"
  ses_outgoingDataFC :: "outgoingDataFlowController option"

text \<open>\<open>newSession\<close> also starts the two goroutines, \<open>readFromConnectStream\<close> and \<open>writeToConnectStream\<close>.\<close>

definition newSession :: "u64 \<Rightarrow> string \<Rightarrow> sessionFlowControl \<Rightarrow> Session" where
  "newSession sessionID applicationProtocol fc0 =
     (let fc = (if fc_Enabled fc0 then fc0
                else fc0\<lparr>fc_MaxIncomingStreams := maxStreamsLimit, fc_MaxIncomingUniStreams := maxStreamsLimit,
                         fc_MaxOutgoingStreams := maxStreamsLimit, fc_MaxOutgoingUniStreams := maxStreamsLimit\<rparr>)
      in \<lparr>ses_sessionID = sessionID, ses_applicationProtocol = applicationProtocol,
          ses_flowControlEnabled = fc_Enabled fc, ses_closeErr = None, ses_ctxDone = False,
          ses_capsuleQueue = [], ses_pendingCloseCapsule = None, ses_capsuleQueueUpdated = False,
          ses_incomingStreams = newIncomingStreamsMap (fc_MaxIncomingStreams fc),
          ses_incomingUniStreams = newIncomingStreamsMap (fc_MaxIncomingUniStreams fc),
          ses_outgoingStreams = newOutgoingStreamsMap (fc_MaxOutgoingStreams fc),
          ses_outgoingUniStreams = newOutgoingStreamsMap (fc_MaxOutgoingUniStreams fc),
          ses_incomingDataFC =
            (if fc_Enabled fc0 then Some (newIncomingDataFlowController 0 (fc_MaxIncomingData fc0)) else None),
          ses_outgoingDataFC =
            (if fc_Enabled fc0 then Some (newOutgoingDataFlowController (fc_MaxOutgoingData fc0)) else None)\<rparr>)"

text \<open>
  The maps of outgoing streams with the functions they are created with: how a stream that QUIC
  opened becomes a stream of the session, and the capsule queued when the limit is reached.
  \<open>None\<close> is the panic of \<open>quicvarint.Append\<close>. In the record of the session the streams of a map
  are represented by their IDs.
\<close>

definition openStream_bidi :: "bytes \<Rightarrow> bool \<Rightarrow> bool \<Rightarrow> go_error + int \<Rightarrow> go_error + int \<times> Stream" where
  "openStream_bidi streamHdr sendFC receiveFC qstr =
     (case qstr of Inl err \<Rightarrow> Inl err | Inr i \<Rightarrow> Inr (i, newStream streamHdr sendFC receiveFC 0))"

definition newOutgoingBidiStreamsMap ::
  "quicvarint \<Rightarrow> u64 \<Rightarrow> u64 \<Rightarrow> bool \<Rightarrow> bool
     \<Rightarrow> (Stream outgoingStreamsMap \<times> (go_error + int \<Rightarrow> go_error + int \<times> Stream) \<times> (u64 \<Rightarrow> capsule)) option" where
  "newOutgoingBidiStreamsMap qv sessionID maxStreams sendFC receiveFC =
     (case newOutgoingStreamHeader qv webTransportFrameType sessionID of
        None \<Rightarrow> None
      | Some streamHdr \<Rightarrow>
          Some (newOutgoingStreamsMap maxStreams, openStream_bidi streamHdr sendFC receiveFC, StreamsBlockedBidi))"

definition openStream_uni :: "bytes \<Rightarrow> bool \<Rightarrow> go_error + int \<Rightarrow> go_error + int \<times> SendStream" where
  "openStream_uni streamHdr fc qstr =
     (case qstr of Inl err \<Rightarrow> Inl err | Inr i \<Rightarrow> Inr (i, newSendStream streamHdr fc))"

definition newOutgoingUniStreamsMap ::
  "quicvarint \<Rightarrow> u64 \<Rightarrow> u64 \<Rightarrow> bool
     \<Rightarrow> (SendStream outgoingStreamsMap \<times> (go_error + int \<Rightarrow> go_error + int \<times> SendStream) \<times> (u64 \<Rightarrow> capsule)) option" where
  "newOutgoingUniStreamsMap qv sessionID maxStreams fc =
     (case newOutgoingStreamHeader qv webTransportUniStreamType sessionID of
        None \<Rightarrow> None
      | Some streamHdr \<Rightarrow> Some (newOutgoingStreamsMap maxStreams, openStream_uni streamHdr fc, StreamsBlockedUni))"

record 'k SessionState =
  sst_ConnectionState :: 'k
  sst_ApplicationProtocol :: string

definition Session_SessionState :: "'k \<Rightarrow> Session \<Rightarrow> 'k SessionState" where
  "Session_SessionState connState s =
     \<lparr>sst_ConnectionState = connState, sst_ApplicationProtocol = ses_applicationProtocol s\<rparr>"

section \<open>Closing\<close>

text \<open>The section under \<open>closeMx\<close>: is this the first call.\<close>

definition closeWithError_first :: "go_error \<Rightarrow> Session \<Rightarrow> bool \<times> Session" where
  "closeWithError_first closeErr s =
     (if ses_closeErr s \<noteq> None then (False, s) else (True, s\<lparr>ses_closeErr := Some closeErr\<rparr>))"

text \<open>The streams closed, and the goroutines of the outgoing maps whose contexts are cancelled.\<close>

record close_effects =
  ce_closed :: "(int \<times> go_error) list"
  ce_cancelled :: "nat list"
  ce_cancelledUni :: "nat list"

definition closeWithError_maps :: "go_error \<Rightarrow> Session \<Rightarrow> close_effects \<times> Session" where
  "closeWithError_maps closeErr s =
     (let ((g1, c1), m1) = out_CloseSession closeErr (ses_outgoingStreams s);
          ((g2, c2), m2) = out_CloseSession closeErr (ses_outgoingUniStreams s);
          (c3, m3) = in_CloseSession closeErr (ses_incomingStreams s);
          (c4, m4) = in_CloseSession closeErr (ses_incomingUniStreams s)
      in (\<lparr>ce_closed = c1 @ c2 @ c3 @ c4, ce_cancelled = g1, ce_cancelledUni = g2\<rparr>,
          s\<lparr>ses_outgoingStreams := m1, ses_outgoingUniStreams := m2,
            ses_incomingStreams := m3, ses_incomingUniStreams := m4\<rparr>))"

text \<open>The section under \<open>capsuleQueueMx\<close>, and what follows it.\<close>

definition closeWithError_queue :: "closeSessionCapsule option \<Rightarrow> Session \<Rightarrow> Session" where
  "closeWithError_queue closeCapsule s =
     s\<lparr>ses_capsuleQueue := [], ses_pendingCloseCapsule := closeCapsule\<rparr>"

definition connect_error_code :: "go_error \<Rightarrow> u64" where
  "connect_error_code closeErr =
     (case as_http3_Error closeErr of
        Some h3Err \<Rightarrow> h3_ErrorCode h3Err
      | None \<Rightarrow>
          (case as_quic_StreamError closeErr of
             Some strErr \<Rightarrow> qse_ErrorCode strErr
           | None \<Rightarrow> WTSessionGoneErrorCode))"

definition closeWithError_finish ::
  "go_error \<Rightarrow> closeSessionCapsule option \<Rightarrow> Session \<Rightarrow> connect_call list \<times> Session" where
  "closeWithError_finish closeErr closeCapsule s =
     (case closeCapsule of
        Some _ \<Rightarrow> ([CSetWriteDeadline], s\<lparr>ses_capsuleQueueUpdated := True\<rparr>)
      | None \<Rightarrow>
          ([CCancelRead (connect_error_code closeErr), CCancelWrite (connect_error_code closeErr)], s))"

definition closeWithError ::
  "go_error \<Rightarrow> closeSessionCapsule option \<Rightarrow> Session
     \<Rightarrow> (bool \<times> close_effects \<times> connect_call list) \<times> Session" where
  "closeWithError closeErr closeCapsule s =
     (let (first, s1) = closeWithError_first closeErr s
      in if \<not> first then ((False, \<lparr>ce_closed = [], ce_cancelled = [], ce_cancelledUni = []\<rparr>, []), s1)
         else
           let (ce, s2) = closeWithError_maps closeErr s1;
               s3 = closeWithError_queue closeCapsule s2;
               (cs, s4) = closeWithError_finish closeErr closeCapsule s3
           in ((True, ce, cs), s4))"

definition closeWithFlowControlError ::
  "(go_error \<Rightarrow> string) \<Rightarrow> go_error \<Rightarrow> Session \<Rightarrow> (bool \<times> close_effects \<times> connect_call list) \<times> Session" where
  "closeWithFlowControlError ext err s =
     closeWithError (EHttp3 \<lparr>h3_Remote = False, h3_ErrorCode = WTFlowControlErrorCode,
       h3_ErrorMessage = go_Error ext err\<rparr>) None s"

text \<open>\<open>CloseWithError\<close>: whether it waits for the context to be done.\<close>

definition CloseWithError ::
  "u32 \<Rightarrow> string \<Rightarrow> Session \<Rightarrow> (bool \<times> close_effects \<times> connect_call list) \<times> Session" where
  "CloseWithError code msg s =
     closeWithError (ESession \<lparr>sess_Remote = False, sess_ErrorCode = code, sess_Message = msg\<rparr>)
       (Some \<lparr>cs_ErrorCode = code, cs_Message = msg\<rparr>) s"

definition closeSessionStream :: "quicvarint \<Rightarrow> go_error option \<Rightarrow> closeSessionCapsule \<Rightarrow> connect_call list" where
  "closeSessionStream qv err closeCapsule =
     [CTryWriteAll (closeSessionCapsule_Append qv closeCapsule [])]
     @ (if err \<noteq> None then [CCancelWrite WTSessionGoneErrorCode] else [])
     @ [CCancelRead WTSessionGoneErrorCode, CClose]"

section \<open>Queueing capsules\<close>

text \<open>The section under \<open>capsuleQueueMx\<close>: false if the queue is full.\<close>

definition queueCapsule_append :: "capsule \<Rightarrow> Session \<Rightarrow> bool \<times> Session" where
  "queueCapsule_append c s =
     (if length (ses_capsuleQueue s) \<ge> maxQueuedOutgoingCapsules then (False, s)
      else (True, s\<lparr>ses_capsuleQueue := ses_capsuleQueue s @ [c]\<rparr>))"

definition queueCapsule_full_error :: "http3_codes \<Rightarrow> go_error" where
  "queueCapsule_full_error h3 =
     EHttp3 \<lparr>h3_Remote = False, h3_ErrorCode = h3_ErrCodeExcessiveLoad h3,
       h3_ErrorMessage = ''webtransport: outgoing capsule queue full''\<rparr>"

definition queueCapsule ::
  "http3_codes \<Rightarrow> capsule \<Rightarrow> Session \<Rightarrow> (bool \<times> close_effects \<times> connect_call list) option \<times> Session" where
  "queueCapsule h3 c s =
     (if ses_ctxDone s then (None, s)
      else
        let (ok, s1) = queueCapsule_append c s
        in if \<not> ok
           then let (r, s2) = closeWithError (queueCapsule_full_error h3) None s1 in (Some r, s2)
           else (None, s1\<lparr>ses_capsuleQueueUpdated := True\<rparr>))"


section \<open>Reading capsules\<close>

text \<open>
  One iteration of \<open>readFromConnectStream\<close> on the result of \<open>parseNextCapsule\<close>: \<open>None\<close> if the loop
  goes on, otherwise the outcome of the \<open>closeWithError\<close> call before it returns.
\<close>

definition handleCapsule ::
  "(go_error \<Rightarrow> string) \<Rightarrow> http3_codes \<Rightarrow> go_error + capsule \<Rightarrow> Session
     \<Rightarrow> (bool \<times> close_effects \<times> connect_call list) option \<times> Session" where
  "handleCapsule ext h3 res s =
     (case res of
        Inl err \<Rightarrow>
          let (r, s') = closeWithError (EHttp3 \<lparr>h3_Remote = False, h3_ErrorCode = h3_ErrCodeDatagramError h3,
                h3_ErrorMessage = go_Error ext err\<rparr>) None s
          in (Some r, s')
      | Inr (CloseSession c) \<Rightarrow>
          let (r, s') = closeWithError (ESession (ToSessionError c)) None s in (Some r, s')
      | Inr (MaxData v) \<Rightarrow>
          (case ses_outgoingDataFC s of
             None \<Rightarrow> (None, s)
           | Some f \<Rightarrow>
               (case UpdateMaxData (wrap64 (uint v)) f of
                  (None, f') \<Rightarrow> (None, s\<lparr>ses_outgoingDataFC := Some f'\<rparr>)
                | (Some err, f') \<Rightarrow>
                    let (r, s') = closeWithFlowControlError ext err (s\<lparr>ses_outgoingDataFC := Some f'\<rparr>)
                    in (Some r, s')))
      | Inr (MaxStreamsBidi v) \<Rightarrow>
          if \<not> ses_flowControlEnabled s then (None, s)
          else
            (case UpdateStreamLimit v (ses_outgoingStreams s) of
               (None, m) \<Rightarrow> (None, s\<lparr>ses_outgoingStreams := m\<rparr>)
             | (Some err, m) \<Rightarrow>
                 let (r, s') = closeWithFlowControlError ext err (s\<lparr>ses_outgoingStreams := m\<rparr>) in (Some r, s'))
      | Inr (MaxStreamsUni v) \<Rightarrow>
          if \<not> ses_flowControlEnabled s then (None, s)
          else
            (case UpdateStreamLimit v (ses_outgoingUniStreams s) of
               (None, m) \<Rightarrow> (None, s\<lparr>ses_outgoingUniStreams := m\<rparr>)
             | (Some err, m) \<Rightarrow>
                 let (r, s') = closeWithFlowControlError ext err (s\<lparr>ses_outgoingUniStreams := m\<rparr>) in (Some r, s'))
      | Inr (DataBlocked v) \<Rightarrow> (None, s)
      | Inr (StreamsBlockedBidi v) \<Rightarrow> (None, s)
      | Inr (StreamsBlockedUni v) \<Rightarrow> (None, s))"

text \<open>
  The loop over the parser of the CONNECT stream; its result is \<open>None\<close> as long as it waits for
  more input. The deferred \<open>ctxCancel\<close> runs when it returns.
\<close>

partial_function (option) readFromConnectStream ::
  "quicvarint \<Rightarrow> ('p, 'r) http3_capsules \<Rightarrow> (go_error \<Rightarrow> string) \<Rightarrow> http3_codes \<Rightarrow> 'p \<Rightarrow> Session
     \<Rightarrow> ((bool \<times> close_effects \<times> connect_call list) \<times> Session) option" where
  "readFromConnectStream qv P ext h3 p s =
     (case parseNextCapsule qv P p of
        None \<Rightarrow> None
      | Some (res, p') \<Rightarrow>
          (case handleCapsule ext h3 res s of
             (None, s') \<Rightarrow> readFromConnectStream qv P ext h3 p' s'
           | (Some r, s') \<Rightarrow> Some (r, s'\<lparr>ses_ctxDone := True\<rparr>)))"

section \<open>Streams\<close>

text \<open>
  A stream the peer opened: \<open>None\<close> would be a write to a nil map. Returns the new stream's state,
  the streams closed, and the outcome of \<open>closeWithError\<close> if the peer exceeded the limit.
\<close>

definition addIncomingStream ::
  "int \<Rightarrow> u64 \<Rightarrow> Session
     \<Rightarrow> ((Stream \<times> (int \<times> go_error) list \<times> (bool \<times> close_effects \<times> connect_call list) option) \<times> Session) option" where
  "addIncomingStream i streamHeaderLen s =
     (let str = newStream [] (ses_outgoingDataFC s \<noteq> None) (ses_incomingDataFC s \<noteq> None) (wrap64 (uint streamHeaderLen))
      in case in_AddStream i i (ses_incomingStreams s) of
           None \<Rightarrow> None
         | Some ((None, cl), m) \<Rightarrow> Some ((str, cl, None), s\<lparr>ses_incomingStreams := m\<rparr>)
         | Some ((Some err, cl), m) \<Rightarrow>
             let (r, s') = closeWithError err None (s\<lparr>ses_incomingStreams := m\<rparr>)
             in Some ((str, cl @ [(i, err)], Some r), s'))"

definition addIncomingUniStream ::
  "int \<Rightarrow> u64 \<Rightarrow> Session
     \<Rightarrow> ((ReceiveStream \<times> (int \<times> go_error) list \<times> (bool \<times> close_effects \<times> connect_call list) option) \<times> Session) option" where
  "addIncomingUniStream i streamHeaderLen s =
     (let (str, _) = newReceiveStream (wrap64 (uint streamHeaderLen)) (ses_incomingDataFC s \<noteq> None)
      in case in_AddStream i i (ses_incomingUniStreams s) of
           None \<Rightarrow> None
         | Some ((None, cl), m) \<Rightarrow> Some ((str, cl, None), s\<lparr>ses_incomingUniStreams := m\<rparr>)
         | Some ((Some err, cl), m) \<Rightarrow>
             let (r, s') = closeWithError err None (s\<lparr>ses_incomingUniStreams := m\<rparr>)
             in Some ((str, cl @ [(i, err)], Some r), s'))"

text \<open>
  \<open>onClose\<close> of an incoming stream: the stream is removed, and the limits that \<open>queueMaxStreams\<close> is
  called with are queued as capsules.
\<close>

definition onClose_incoming :: "http3_codes \<Rightarrow> int \<Rightarrow> Session \<Rightarrow> Session" where
  "onClose_incoming h3 i s =
     (let (as, m) = RemoveStream i (ses_incomingStreams s)
      in fold (\<lambda>v s. snd (queueCapsule h3 (MaxStreamsBidi v) s)) as (s\<lparr>ses_incomingStreams := m\<rparr>))"

definition onClose_incomingUni :: "http3_codes \<Rightarrow> int \<Rightarrow> Session \<Rightarrow> Session" where
  "onClose_incomingUni h3 i s =
     (let (as, m) = RemoveStream i (ses_incomingUniStreams s)
      in fold (\<lambda>v s. snd (queueCapsule h3 (MaxStreamsUni v) s)) as (s\<lparr>ses_incomingUniStreams := m\<rparr>))"

text \<open>
  \<open>OpenStream\<close> and \<open>OpenUniStream\<close> hold \<open>closeMx\<close> until they return, also while they call
  \<open>queueBlocked\<close>. A full capsule queue makes \<open>queueCapsule\<close> call \<open>closeWithError\<close>, which waits for
  \<open>closeMx\<close>: the goroutine waits for a mutex it holds itself, and never returns (\<open>None\<close>).
\<close>

definition queueCapsule_holding_closeMx :: "capsule \<Rightarrow> Session \<Rightarrow> Session option" where
  "queueCapsule_holding_closeMx c s =
     (if ses_ctxDone s then Some s
      else
        let (ok, s1) = queueCapsule_append c s
        in if \<not> ok then None else Some (s1\<lparr>ses_capsuleQueueUpdated := True\<rparr>))"

text \<open>\<open>opened\<close> is the answer of QUIC.\<close>

definition Session_OpenStream ::
  "(go_error + int \<times> int) \<Rightarrow> Session \<Rightarrow> ((go_error + int) \<times> Session) option" where
  "Session_OpenStream opened s =
     (case ses_closeErr s of
        Some e \<Rightarrow> Some (Inl e, s)
      | None \<Rightarrow>
          let ((res, b), m) = OpenStream opened (ses_outgoingStreams s); s1 = s\<lparr>ses_outgoingStreams := m\<rparr>
          in case b of
               None \<Rightarrow> Some (res, s1)
             | Some l \<Rightarrow> map_option (Pair res) (queueCapsule_holding_closeMx (StreamsBlockedBidi l) s1))"

definition Session_OpenUniStream ::
  "(go_error + int \<times> int) \<Rightarrow> Session \<Rightarrow> ((go_error + int) \<times> Session) option" where
  "Session_OpenUniStream opened s =
     (case ses_closeErr s of
        Some e \<Rightarrow> Some (Inl e, s)
      | None \<Rightarrow>
          let ((res, b), m) = OpenStream opened (ses_outgoingUniStreams s); s1 = s\<lparr>ses_outgoingUniStreams := m\<rparr>
          in case b of
               None \<Rightarrow> Some (res, s1)
             | Some l \<Rightarrow> map_option (Pair res) (queueCapsule_holding_closeMx (StreamsBlockedUni l) s1))"

text \<open>
  The last section of \<open>OpenStreamSync\<close> and \<open>OpenUniStreamSync\<close>: what they return when the map's
  call returned \<open>res\<close>.
\<close>

definition Session_OpenStreamSync_return :: "(go_error + 't) \<Rightarrow> Session \<Rightarrow> go_error + 't" where
  "Session_OpenStreamSync_return res s =
     (case ses_closeErr s of Some e \<Rightarrow> Inl e | None \<Rightarrow> res)"

text \<open>Both calls, with the session when they begin and when the map's call returned.\<close>

definition Session_OpenStreamSync :: "(go_error + Stream) \<Rightarrow> Session \<Rightarrow> Session \<Rightarrow> go_error + Stream" where
  "Session_OpenStreamSync res s s' =
     (case ses_closeErr s of Some e \<Rightarrow> Inl e | None \<Rightarrow> Session_OpenStreamSync_return res s')"

definition Session_OpenUniStreamSync :: "(go_error + SendStream) \<Rightarrow> Session \<Rightarrow> Session \<Rightarrow> go_error + SendStream" where
  "Session_OpenUniStreamSync res s s' =
     (case ses_closeErr s of Some e \<Rightarrow> Inl e | None \<Rightarrow> Session_OpenStreamSync_return res s')"

text \<open>
  \<open>AcceptStream\<close> and \<open>AcceptUniStream\<close> are those of the maps; here the section that takes the next
  stream, if there is one.
\<close>

definition Session_AcceptStream :: "Session \<Rightarrow> int option \<times> Session" where
  "Session_AcceptStream s =
     (let (str, q) = acceptQueue_next (ism_acceptQueue (ses_incomingStreams s))
      in (str, s\<lparr>ses_incomingStreams := (ses_incomingStreams s)\<lparr>ism_acceptQueue := q\<rparr>\<rparr>))"

definition Session_AcceptUniStream :: "Session \<Rightarrow> int option \<times> Session" where
  "Session_AcceptUniStream s =
     (let (str, q) = acceptQueue_next (ism_acceptQueue (ses_incomingUniStreams s))
      in (str, s\<lparr>ses_incomingUniStreams := (ses_incomingUniStreams s)\<lparr>ism_acceptQueue := q\<rparr>\<rparr>))"


lemmas close_defs = closeWithError_first_def closeWithError_maps_def closeWithError_queue_def
  closeWithError_finish_def closeWithError_def

section \<open>Closing happens once, and everywhere\<close>

lemma closeWithError_again:
  "ses_closeErr s = Some e \<Longrightarrow> fst (fst (closeWithError e' c s)) = False \<and> snd (closeWithError e' c s) = s"
  by (simp add: close_defs)

lemma closeWithError_sets: "ses_closeErr (snd (closeWithError e c s)) \<noteq> None"
  by (simp add: close_defs Let_def split: prod.split option.split)

lemma out_CloseSession_closed:
  "osm_closeErr m = None \<Longrightarrow> osm_closeErr (snd (out_CloseSession e m)) = Some e"
  by (simp add: out_CloseSession_def)

lemma in_CloseSession_closed: "ism_cause m = None \<Longrightarrow> ism_cause (snd (in_CloseSession e m)) = Some e"
  by (simp add: in_CloseSession_def)

text \<open>The maps are open as long as the session is.\<close>

definition maps_open :: "Session \<Rightarrow> bool" where
  "maps_open s \<longleftrightarrow> osm_closeErr (ses_outgoingStreams s) = None \<and> osm_closeErr (ses_outgoingUniStreams s) = None
     \<and> ism_cause (ses_incomingStreams s) = None \<and> ism_cause (ses_incomingUniStreams s) = None"

text \<open>
  C15. The first close wins and reaches everything: it sets the session's error, closes all four
  stream maps with it, so that opening a stream fails with exactly this error and a stream of the
  peer that arrives late is closed with it, and empties the capsule queue; every later close, with
  whatever error or capsule, returns false and changes nothing.
\<close>

theorem session_closed_once:
  assumes "ses_closeErr s = None" and "maps_open s"
    and "closeWithError e c s = ((first, ce, cs), t)"
  shows "first \<and> ses_closeErr t = Some e \<and> ses_capsuleQueue t = [] \<and> ses_pendingCloseCapsule t = c
    \<and> osm_closeErr (ses_outgoingStreams t) = Some e \<and> osm_closeErr (ses_outgoingUniStreams t) = Some e
    \<and> Session_OpenStream opened t = Some (Inl e, t) \<and> Session_OpenUniStream opened t = Some (Inl e, t)
    \<and> in_AddStream i x (ses_incomingStreams t) = Some ((None, [(x, e)]), ses_incomingStreams t)
    \<and> in_AddStream i x (ses_incomingUniStreams t) = Some ((None, [(x, e)]), ses_incomingUniStreams t)
    \<and> fst (fst (closeWithError e' c' t)) = False \<and> snd (closeWithError e' c' t) = t"
proof -
  from assms have t: "first" "ses_closeErr t = Some e" "ses_capsuleQueue t = []" "ses_pendingCloseCapsule t = c"
    and m: "ses_outgoingStreams t = snd (out_CloseSession e (ses_outgoingStreams s))"
      "ses_outgoingUniStreams t = snd (out_CloseSession e (ses_outgoingUniStreams s))"
      "ses_incomingStreams t = snd (in_CloseSession e (ses_incomingStreams s))"
      "ses_incomingUniStreams t = snd (in_CloseSession e (ses_incomingUniStreams s))"
    by (auto simp: close_defs Let_def split: prod.splits option.splits)
  have c: "osm_closeErr (ses_outgoingStreams t) = Some e" "osm_closeErr (ses_outgoingUniStreams t) = Some e"
      "ism_cause (ses_incomingStreams t) = Some e" "ism_cause (ses_incomingUniStreams t) = Some e"
    using assms(2) unfolding m maps_open_def by (simp_all add: out_CloseSession_closed in_CloseSession_closed)
  show ?thesis
    using t c closeWithError_again [OF t(2)]
    by (simp add: Session_OpenStream_def Session_OpenUniStream_def in_AddStream_def)
qed

theorem session_closed_once_witness:
  "Session_OpenStream (Inr (0, 0)) (snd (CloseWithError 7 ''bye'' (newSession 4 '''' zero_sessionFlowControl)))
     = Some (Inl (ESession \<lparr>sess_Remote = False, sess_ErrorCode = 7, sess_Message = ''bye''\<rparr>),
        snd (CloseWithError 7 ''bye'' (newSession 4 '''' zero_sessionFlowControl)))"
proof -
  let ?s = "newSession 4 '''' zero_sessionFlowControl"
  have 1: "ses_closeErr ?s = None" "maps_open ?s"
    by (simp_all add: newSession_def maps_open_def newOutgoingStreamsMap_def newIncomingStreamsMap_def Let_def)
  obtain f ce cs t where r: "CloseWithError 7 ''bye'' ?s = ((f, ce, cs), t)" by (metis surj_pair)
  from session_closed_once [OF 1 r [unfolded CloseWithError_def]] r show ?thesis by simp
qed

text \<open>A call that waited for a stream returns the session's error if the session was closed meanwhile.\<close>

lemma open_sync_closed:
  assumes "ses_closeErr s' = Some e" "ses_closeErr s = None \<or> ses_closeErr s = Some e"
  shows "Session_OpenStreamSync res s s' = Inl e" "Session_OpenUniStreamSync res' s s' = Inl e"
  using assms by (auto simp: Session_OpenStreamSync_def Session_OpenUniStreamSync_def Session_OpenStreamSync_return_def)

section \<open>The reader\<close>

lemma handleCapsule_returns: "handleCapsule ext h3 res s = (Some r, s') \<Longrightarrow> ses_closeErr s' \<noteq> None"
  using closeWithError_sets
  by (auto simp: handleCapsule_def closeWithFlowControlError_def Let_def
      split: sum.splits capsule.splits option.splits if_splits prod.splits)
    (metis snd_conv option.distinct(1))+

lemma reader_closed:
  assumes "readFromConnectStream qv P ext h3 p s = Some y"
  shows "ses_closeErr (snd y) \<noteq> None \<and> ses_ctxDone (snd y)"
proof (induction rule: readFromConnectStream.raw_induct [OF _ assms])
  case (1 loop qv P ext h3 p s y)
  then show ?case using handleCapsule_returns [of ext h3 _ s]
    by (auto split: option.splits prod.splits)
qed

text \<open>What the other end sends: encoded capsules, one after the other.\<close>

fun encode_capsules :: "quicvarint \<Rightarrow> capsule list \<Rightarrow> bytes option" where
  "encode_capsules qv [] = Some []"
| "encode_capsules qv (c # cs) = do { b \<leftarrow> capsule_Append qv c []; bs \<leftarrow> encode_capsules qv cs; Some (b @ bs) }"

text \<open>What a session is to do with them.\<close>

fun handleCapsules ::
  "(go_error \<Rightarrow> string) \<Rightarrow> http3_codes \<Rightarrow> capsule list \<Rightarrow> Session
     \<Rightarrow> (bool \<times> close_effects \<times> connect_call list) option \<times> Session" where
  "handleCapsules ext h3 [] s = (None, s)"
| "handleCapsules ext h3 (c # cs) s =
     (case handleCapsule ext h3 (Inr c) s of
        (None, s') \<Rightarrow> handleCapsules ext h3 cs s'
      | (Some r, s') \<Rightarrow> (Some r, s'))"

lemma reader_processes:
  assumes "capsule_stream qv P parser caps pend rest good" "\<forall>c \<in> set cs. valid_capsule c"
    and "handleCapsules ext h3 (map received_capsule cs) s = (Some r, t)"
    and "encode_capsules qv cs = Some bs" "caps p = caps (parser (bs @ ws))"
  shows "readFromConnectStream qv P ext h3 p s = Some (r, t\<lparr>ses_ctxDone := True\<rparr>)"
  using assms(2-5)
proof (induction cs arbitrary: s bs p)
  case (Cons c cs)
  from capsule_stream.append_parse [OF assms(1), of c] Cons.prems(1)
  obtain b where b: "capsule_Append qv c [] = Some b"
    and pn: "\<And>ws p. caps p = caps (parser (b @ ws)) \<Longrightarrow>
       \<exists>p'. parseNextCapsule qv P p = Some (Inr (received_capsule c), p') \<and> caps p' = caps (parser ws)"
    by auto
  from Cons.prems(3) b obtain bs' where bs': "encode_capsules qv cs = Some bs'" "bs = b @ bs'"
    by (auto split: option.splits bind_splits)
  from pn [of p "bs' @ ws"] Cons.prems(4) bs'(2)
  obtain p' where p': "parseNextCapsule qv P p = Some (Inr (received_capsule c), p')" "caps p' = caps (parser (bs' @ ws))"
    by auto
  show ?case
  proof (cases "handleCapsule ext h3 (Inr (received_capsule c)) s")
    case (Pair out s')
    show ?thesis
    proof (cases out)
      case None
      with Pair Cons.prems(2) have "handleCapsules ext h3 (map received_capsule cs) s' = (Some r, t)" by simp
      from Cons.IH [OF _ this bs'(1) p'(2)] Cons.prems(1) Pair None p'(1) show ?thesis
        by (subst readFromConnectStream.simps) simp
    next
      case (Some x)
      with Pair Cons.prems(2) p'(1) show ?thesis by (subst readFromConnectStream.simps) simp
    qed
  qed
qed simp

text \<open>
  C16. The reader processes the capsules the peer encoded, in order and each exactly once: on the
  bytes of any list of capsules with values in range, of which one makes the session close, it
  returns with exactly the state and the calls that handling the capsules one by one gives, and
  then the session is closed and its context cancelled.
\<close>

theorem reader_processes_capsules:
  assumes "capsule_stream qv P parser caps pend rest good" and "\<forall>c \<in> set cs. valid_capsule c"
    and "encode_capsules qv cs = Some bs"
    and "handleCapsules ext h3 (map received_capsule cs) s = (Some r, t)"
  shows "readFromConnectStream qv P ext h3 (parser (bs @ ws)) s = Some (r, t\<lparr>ses_ctxDone := True\<rparr>)
    \<and> ses_closeErr t \<noteq> None"
proof -
  have 1: "readFromConnectStream qv P ext h3 (parser (bs @ ws)) s = Some (r, t\<lparr>ses_ctxDone := True\<rparr>)"
    using assms by (intro reader_processes) auto
  from reader_closed [OF this] 1 show ?thesis by simp
qed

text \<open>
  C14. A close is seen by the other side: when the peer encodes the close capsule of \<open>CloseWithError\<close>
  with a code and a message, the reader of an open session returns, and the session is closed with
  a remote session error with this code and the message, cut at 1024 bytes at a character boundary.
\<close>

theorem remote_close_received:
  assumes "capsule_stream qv P parser caps pend rest good" and "ses_closeErr s = None"
    and "closeSessionCapsule_Append qv \<lparr>cs_ErrorCode = code, cs_Message = msg\<rparr> [] = Some bs"
  shows "\<exists>r t. readFromConnectStream qv P ext h3 (parser (bs @ ws)) s = Some (r, t)
    \<and> ses_closeErr t = Some (ESession \<lparr>sess_Remote = True, sess_ErrorCode = code, sess_Message = truncateUTF8 msg 1024\<rparr>)"
proof -
  let ?c = "CloseSession \<lparr>cs_ErrorCode = code, cs_Message = msg\<rparr>"
  let ?e = "ESession \<lparr>sess_Remote = True, sess_ErrorCode = code, sess_Message = truncateUTF8 msg 1024\<rparr>"
  obtain r t where c: "closeWithError ?e None s = (r, t)" by (cases "closeWithError ?e None s")
  then have h: "handleCapsules ext h3 (map received_capsule [?c]) s = (Some r, t)"
    by (simp add: handleCapsule_def ToSessionError_def)
  from c assms(2) have "ses_closeErr t = Some ?e"
    by (auto simp: close_defs Let_def split: prod.splits)
  moreover have "readFromConnectStream qv P ext h3 (parser (bs @ ws)) s = Some (r, t\<lparr>ses_ctxDone := True\<rparr>)"
    using assms(1,3) h by (intro reader_processes [where cs = "[?c]"]) auto
  ultimately show ?thesis by (intro exI [of _ r] exI [of _ "t\<lparr>ses_ctxDone := True\<rparr>"]) simp
qed


definition demo_codes :: http3_codes where
  "demo_codes = \<lparr>h3_ErrCodeDatagramError = 0x33, h3_ErrCodeExcessiveLoad = 0x107\<rparr>"

text \<open>Raising a stream limit, then closing.\<close>

definition demo_capsules :: "capsule list" where
  "demo_capsules = [MaxStreamsBidi 5, CloseSession \<lparr>cs_ErrorCode = 1, cs_Message = ''x''\<rparr>]"

lemma demo_encoded: "\<exists>bs. encode_capsules rfc9000 demo_capsules = Some bs"
proof -
  have "valid_capsule c \<Longrightarrow> \<exists>bs. capsule_Append rfc9000 c [] = Some bs" for c
    using lcs.append_parse by blast
  from this [of "MaxStreamsBidi 5"] this [of "CloseSession \<lparr>cs_ErrorCode = 1, cs_Message = ''x''\<rparr>"]
  show ?thesis by (auto simp: demo_capsules_def maxStreamsLimit_def)
qed

theorem reader_processes_capsules_witness:
  "\<exists>bs r t. encode_capsules rfc9000 demo_capsules = Some bs
    \<and> readFromConnectStream rfc9000 list_capsules (\<lambda>_. []) demo_codes (bs @ []) (newSession 4 '''' zero_sessionFlowControl)
      = Some (r, t)"
proof -
  obtain bs where bs: "encode_capsules rfc9000 demo_capsules = Some bs" using demo_encoded by blast
  let ?s = "newSession 4 '''' zero_sessionFlowControl"
  have v: "\<forall>c \<in> set demo_capsules. valid_capsule c" by (simp add: demo_capsules_def maxStreamsLimit_def)
  have "ses_flowControlEnabled ?s = False" by (simp add: newSession_def zero_sessionFlowControl_def)
  then have "\<exists>r t. handleCapsules (\<lambda>_. []) demo_codes (map received_capsule demo_capsules) ?s = (Some r, t)"
    by (auto simp: demo_capsules_def handleCapsule_def Let_def split: prod.splits)
  then obtain r t where "handleCapsules (\<lambda>_. []) demo_codes (map received_capsule demo_capsules) ?s = (Some r, t)"
    by blast
  from reader_processes_capsules [OF lcs.capsule_stream_axioms v bs this, of "[]"] bs show ?thesis by blast
qed

theorem remote_close_received_witness:
  "\<exists>bs r t. closeSessionCapsule_Append rfc9000 \<lparr>cs_ErrorCode = 7, cs_Message = ''bye''\<rparr> [] = Some bs
    \<and> readFromConnectStream rfc9000 list_capsules (\<lambda>_. []) demo_codes (bs @ []) (newSession 4 '''' zero_sessionFlowControl) = Some (r, t)
    \<and> ses_closeErr t = Some (ESession \<lparr>sess_Remote = True, sess_ErrorCode = 7, sess_Message = truncateUTF8 ''bye'' 1024\<rparr>)"
proof -
  obtain bs where bs: "closeSessionCapsule_Append rfc9000 \<lparr>cs_ErrorCode = 7, cs_Message = ''bye''\<rparr> [] = Some bs"
    using lcs.append_parse [of "CloseSession \<lparr>cs_ErrorCode = 7, cs_Message = ''bye''\<rparr>"] by auto
  have "ses_closeErr (newSession 4 '''' zero_sessionFlowControl) = None" by (simp add: newSession_def)
  from remote_close_received [OF lcs.capsule_stream_axioms this bs] bs show ?thesis by metis
qed

section \<open>A full queue blocks OpenStream forever\<close>



end
