(* ===== verification/WT_Server.thy ===== *)
theory WT_Server
  imports WT_Config WT_Outgoing WT_SessionManager WT_Session
begin

text \<open>
  The server (\<open>server.go\<close>) and what it shares with the client: dispatching the streams of a QUIC
  connection by their headers, negotiating the application protocol, checking the origin, admitting
  connections and sessions, and closing.

  Parameters, since they are code of other packages: the varint codec, the HTTP/3 error codes, the
  structured-field parser (package httpsfv), \<open>url.Parse\<close> (only the host of its result is used), and
  what QUIC and HTTP/3 report about a connection or a request (fields of records).
\<close>

section \<open>Dispatching streams\<close>

text \<open>What becomes of a stream, by the goroutine that read its header.\<close>

datatype dispatch =
    DropStream                      \<comment> \<open>the goroutine returns\<close>
  | PassToHTTP3
  | ResetStream bool                \<comment> \<open>\<open>CancelRead\<close> and, if true, \<open>CancelWrite\<close>: general protocol error\<close>
  | CloseConnection                 \<comment> \<open>\<open>CloseWithError\<close> with \<open>ErrCodeIDError\<close>\<close>
  | ToSession u64 u64               \<comment> \<open>session ID and header length, for the session manager\<close>

text \<open>
  \<open>peek\<close> is the result of \<open>quicvarint.Peek\<close>, \<open>rd\<close> the stream as a byte reader. \<open>onIDError\<close> is what
  happens when the session ID cannot be read; the four accept loops differ in the type and in this.
\<close>

definition dispatchStream ::
  "quicvarint \<Rightarrow> u64 \<Rightarrow> dispatch \<Rightarrow> (go_error + u64) \<Rightarrow> 's byte_reader \<Rightarrow> 's \<Rightarrow> dispatch \<times> 's" where
  "dispatchStream qv expected onIDError peek rd str =
     (case peek of
        Inl err \<Rightarrow> (DropStream, str)
      | Inr typ \<Rightarrow>
          if typ \<noteq> expected then (PassToHTTP3, str)
          else
            let r0 = \<lparr>ByteReader = str, BytesRead = 0\<rparr>;
                (x, r1) = run_prog (vi_Read qv) (byteCountingReader_ReadByte rd) r0
            in case x of
                 Inl err \<Rightarrow> (DropStream, ByteReader r1)
               | Inr _ \<Rightarrow>
                   let (y, r2) = run_prog (vi_Read qv) (byteCountingReader_ReadByte rd) r1
                   in case y of
                        Inl err \<Rightarrow> (onIDError, ByteReader r2)
                      | Inr sid \<Rightarrow>
                          if \<not> isValidSessionID sid then (CloseConnection, ByteReader r2)
                          else (ToSession sid (BytesRead r2), ByteReader r2))"

definition server_acceptStream ::
  "quicvarint \<Rightarrow> (go_error + u64) \<Rightarrow> 's byte_reader \<Rightarrow> 's \<Rightarrow> dispatch \<times> 's" where
  "server_acceptStream qv = dispatchStream qv webTransportFrameType (ResetStream True)"

definition server_acceptUniStream ::
  "quicvarint \<Rightarrow> (go_error + u64) \<Rightarrow> 's byte_reader \<Rightarrow> 's \<Rightarrow> dispatch \<times> 's" where
  "server_acceptUniStream qv = dispatchStream qv webTransportUniStreamType (ResetStream False)"

definition client_acceptStream ::
  "quicvarint \<Rightarrow> (go_error + u64) \<Rightarrow> 's byte_reader \<Rightarrow> 's \<Rightarrow> dispatch \<times> 's" where
  "client_acceptStream qv = dispatchStream qv webTransportFrameType DropStream"

definition client_acceptUniStream ::
  "quicvarint \<Rightarrow> (go_error + u64) \<Rightarrow> 's byte_reader \<Rightarrow> 's \<Rightarrow> dispatch \<times> 's" where
  "client_acceptUniStream qv = dispatchStream qv webTransportUniStreamType (ResetStream False)"

lemmas accept_defs = server_acceptStream_def server_acceptUniStream_def client_acceptStream_def
  client_acceptUniStream_def

text \<open>\<open>Peek\<close> on a stream whose bytes are there: the next integer, without consuming it.\<close>

definition peek_list :: "quicvarint \<Rightarrow> bytes \<Rightarrow> go_error + u64" where
  "peek_list qv bs = fst (run_prog (vi_Read qv) list_reader bs)"

context varint_codec
begin

lemma newOutgoingStreamHeader_eq:
  assumes "typ \<le> quicvarint_Max" "sid \<le> quicvarint_Max"
  shows "newOutgoingStreamHeader qv typ sid = Some (vi_enc qv typ @ vi_enc qv sid)"
  using assms by (simp add: newOutgoingStreamHeader_def append_ok len_ok)

lemma dispatch_header:
  assumes "typ \<le> quicvarint_Max" "sid \<le> quicvarint_Max"
  shows "dispatchStream qv typ d (peek_list qv (vi_enc qv typ @ vi_enc qv sid @ data)) list_reader
      (vi_enc qv typ @ vi_enc qv sid @ data)
    = (if isValidSessionID sid
       then ToSession sid (of_nat (length (vi_enc qv typ @ vi_enc qv sid))) else CloseConnection, data)"
  using assms
  by (simp add: dispatchStream_def peek_list_def read_enc run_prog_counting read_enc_consumed Let_def)

lemma dispatch_other_type:
  assumes "typ \<le> quicvarint_Max" "typ \<noteq> expected"
  shows "dispatchStream qv expected d (peek_list qv (vi_enc qv typ @ data)) list_reader (vi_enc qv typ @ data)
    = (PassToHTTP3, vi_enc qv typ @ data)"
  using assms by (simp add: dispatchStream_def peek_list_def read_enc)

end

lemma stream_types: "webTransportFrameType \<le> quicvarint_Max" "webTransportUniStreamType \<le> quicvarint_Max"
  by (simp_all add: webTransportFrameType_def webTransportUniStreamType_def quicvarint_Max_def)

text \<open>
  A stream reaches its session: the header that one endpoint puts in front of a stream is
  recognised by the accept loop of the other, which finds the session ID and the exact length of
  the header and leaves the stream at the first byte of the data. This holds for bidirectional and
  unidirectional streams, at server and client, and the header is built without a panic.
\<close>

theorem stream_header_round_trip:
  assumes "varint_codec qv" and "sid \<le> quicvarint_Max" and "isValidSessionID sid"
  shows "\<exists>h u. newOutgoingStreamHeader qv webTransportFrameType sid = Some h
    \<and> newOutgoingStreamHeader qv webTransportUniStreamType sid = Some u
    \<and> server_acceptStream qv (peek_list qv (h @ data)) list_reader (h @ data) = (ToSession sid (of_nat (length h)), data)
    \<and> client_acceptStream qv (peek_list qv (h @ data)) list_reader (h @ data) = (ToSession sid (of_nat (length h)), data)
    \<and> server_acceptUniStream qv (peek_list qv (u @ data)) list_reader (u @ data) = (ToSession sid (of_nat (length u)), data)
    \<and> client_acceptUniStream qv (peek_list qv (u @ data)) list_reader (u @ data) = (ToSession sid (of_nat (length u)), data)"
  using varint_codec.newOutgoingStreamHeader_eq [OF assms(1) stream_types(1) assms(2)]
    varint_codec.newOutgoingStreamHeader_eq [OF assms(1) stream_types(2) assms(2)]
    varint_codec.dispatch_header [OF assms(1) stream_types(1) assms(2)]
    varint_codec.dispatch_header [OF assms(1) stream_types(2) assms(2)] assms(3)
  by (simp add: accept_defs)

theorem stream_header_round_trip_witness:
  "\<exists>h. newOutgoingStreamHeader rfc9000 webTransportFrameType 4 = Some h
    \<and> server_acceptStream rfc9000 (peek_list rfc9000 (h @ [1, 2])) list_reader (h @ [1, 2])
      = (ToSession 4 (of_nat (length h)), [1, 2])"
proof -
  have "isValidSessionID 4" "(4 :: u64) \<le> quicvarint_Max"
    by (simp_all add: isValidSessionID_def quicvarint_Max_def)
  from stream_header_round_trip [OF rfc.varint_codec_axioms this(2,1), of "[1, 2]"] show ?thesis by blast
qed


section \<open>Application protocols\<close>

text \<open>Structured fields (package httpsfv): what the code distinguishes, and the functions it calls.\<close>

datatype sfv_value = SfvString string | SfvOtherValue
datatype sfv_member = SfvItem sfv_value | SfvInnerList

record httpsfv =
  sfv_UnmarshalList :: "string list \<Rightarrow> go_error + sfv_member list"
  sfv_UnmarshalItem :: "string list \<Rightarrow> go_error + sfv_value"
  sfv_MarshalList :: "string list \<Rightarrow> go_error + string"
  sfv_MarshalItem :: "string \<Rightarrow> go_error + string"

text \<open>The loop over the parsed list: \<open>None\<close> if a member is not a string.\<close>

fun offered_protocols :: "sfv_member list \<Rightarrow> string list option" where
  "offered_protocols [] = Some []"
| "offered_protocols (SfvItem (SfvString p) # ms) = map_option (Cons p) (offered_protocols ms)"
| "offered_protocols (_ # ms) = None"

definition selectProtocol :: "httpsfv \<Rightarrow> string list \<Rightarrow> string list \<Rightarrow> string" where
  "selectProtocol sfv applicationProtocols theirs =
     (case sfv_UnmarshalList sfv theirs of
        Inl err \<Rightarrow> ''''
      | Inr list \<Rightarrow>
          (case offered_protocols list of
             None \<Rightarrow> ''''
           | Some offered \<Rightarrow>
               (case find (\<lambda>p. p \<in> set applicationProtocols) offered of None \<Rightarrow> '''' | Some p \<Rightarrow> p)))"

text \<open>The client's check of the answer (\<open>client_conn.go\<close>); \<open>quoted\<close> is \<open>fmt\<close>'s \<open>%q\<close>.\<close>

definition negotiateProtocol ::
  "httpsfv \<Rightarrow> (go_error \<Rightarrow> string) \<Rightarrow> (string \<Rightarrow> string) \<Rightarrow> string list \<Rightarrow> string list \<Rightarrow> go_error + string" where
  "negotiateProtocol sfv ext quoted applicationProtocols theirs =
     (case sfv_UnmarshalItem sfv theirs of
        Inl err \<Rightarrow> Inl (EWrap (''webtransport: invalid WT-Protocol header: '' @ go_Error ext err) err)
      | Inr SfvOtherValue \<Rightarrow> Inl (ENew ''webtransport: invalid WT-Protocol header: value is not a string'')
      | Inr (SfvString p) \<Rightarrow>
          if p \<notin> set applicationProtocols
          then Inl (ENew (''webtransport: server selected application protocol '' @ quoted p @ '' that wasn't offered''))
          else Inr p)"

text \<open>What both sides rely on: no header is an empty list, and parsing gives back what was marshalled.\<close>

definition sfv_contract :: "httpsfv \<Rightarrow> bool" where
  "sfv_contract sfv \<longleftrightarrow>
     sfv_UnmarshalList sfv [] = Inr []
     \<and> (\<forall>ps h. sfv_MarshalList sfv ps = Inr h \<longrightarrow>
        sfv_UnmarshalList sfv [h] = Inr (map (\<lambda>p. SfvItem (SfvString p)) ps))
     \<and> (\<forall>p h. sfv_MarshalItem sfv p = Inr h \<longrightarrow> sfv_UnmarshalItem sfv [h] = Inr (SfvString p))"

lemma offered_protocols_strings: "offered_protocols (map (\<lambda>p. SfvItem (SfvString p)) ps) = Some ps"
  by (induction ps) simp_all

text \<open>
  Protocol negotiation: from the protocols the client offers, the server selects the first one
  it supports, or none if it supports none of them; and the client accepts exactly this answer.
\<close>

theorem protocol_negotiation:
  assumes "sfv_contract sfv" and "sfv_MarshalList sfv offered = Inr h"
    and "selected = selectProtocol sfv supported [h]" and "'''' \<notin> set offered"
    and "sfv_MarshalItem sfv selected = Inr h'"
  shows "selected = (case find (\<lambda>p. p \<in> set supported) offered of None \<Rightarrow> '''' | Some p \<Rightarrow> p)
    \<and> (selected = '''' \<longleftrightarrow> set offered \<inter> set supported = {})
    \<and> (selected \<noteq> '''' \<longrightarrow> selected \<in> set supported \<and> negotiateProtocol sfv ext quoted offered [h'] = Inr selected)"
proof -
  from assms(1,2) have u: "sfv_UnmarshalList sfv [h] = Inr (map (\<lambda>p. SfvItem (SfvString p)) offered)"
    by (simp add: sfv_contract_def)
  have sel: "selected = (case find (\<lambda>p. p \<in> set supported) offered of None \<Rightarrow> '''' | Some p \<Rightarrow> p)"
    by (simp add: assms(3) selectProtocol_def u offered_protocols_strings)
  have i: "sfv_UnmarshalItem sfv [h'] = Inr (SfvString selected)"
    using assms(1,5) by (simp add: sfv_contract_def)
  show ?thesis
  proof (cases "find (\<lambda>p. p \<in> set supported) offered")
    case None
    then have "set offered \<inter> set supported = {}" by (auto simp: find_None_iff)
    with None sel show ?thesis by simp
  next
    case (Some p)
    then have "p \<in> set offered" "p \<in> set supported" by (auto simp: find_Some_iff)
    with Some sel assms(4) i show ?thesis by (auto simp: negotiateProtocol_def)
  qed
qed

text \<open>A simple encoding: every character is marked, every string ended by a dot.\<close>

definition demo_enc :: "string \<Rightarrow> string" where
  "demo_enc p = concat (map (\<lambda>c. [CHR ''c'', c]) p) @ ''.''"

fun demo_dec :: "string \<Rightarrow> string \<Rightarrow> string list" where
  "demo_dec acc (x # c # cs) = (if x = CHR ''c'' then demo_dec (acc @ [c]) cs else acc # demo_dec [] (c # cs))"
| "demo_dec acc [x] = [acc]"
| "demo_dec acc [] = []"

definition demo_sfv :: httpsfv where
  "demo_sfv = \<lparr>sfv_UnmarshalList = (\<lambda>hs. Inr (map (\<lambda>p. SfvItem (SfvString p)) (demo_dec [] (concat hs)))),
     sfv_UnmarshalItem = (\<lambda>hs. Inr (SfvString (hd (demo_dec [] (concat hs))))),
     sfv_MarshalList = (\<lambda>ps. Inr (concat (map demo_enc ps))), sfv_MarshalItem = (\<lambda>p. Inr (demo_enc p))\<rparr>"

lemma demo_dec_enc: "demo_dec acc (demo_enc p @ rest) = (acc @ p) # demo_dec [] rest"
proof (induction p arbitrary: acc)
  case Nil
  then show ?case by (cases rest) (simp_all add: demo_enc_def)
qed (simp add: demo_enc_def)

lemma demo_dec_list: "demo_dec [] (concat (map demo_enc ps)) = ps"
  by (induction ps) (simp_all add: demo_dec_enc)

lemma demo_sfv_contract: "sfv_contract demo_sfv"
  using demo_dec_enc [of "[]" _ "[]"] by (simp add: sfv_contract_def demo_sfv_def demo_dec_list)

theorem protocol_negotiation_witness:
  "negotiateProtocol demo_sfv (\<lambda>_. []) id [''a'', ''b'', ''c''] [demo_enc ''b''] = Inr ''b''"
proof -
  have h: "sfv_MarshalList demo_sfv [''a'', ''b'', ''c''] = Inr (concat (map demo_enc [''a'', ''b'', ''c'']))"
    by (simp add: demo_sfv_def)
  have s: "''b'' = selectProtocol demo_sfv [''c'', ''b''] [concat (map demo_enc [''a'', ''b'', ''c''])]"
    by (simp add: selectProtocol_def demo_sfv_def demo_enc_def)
  have i: "sfv_MarshalItem demo_sfv ''b'' = Inr (demo_enc ''b'')" by (simp add: demo_sfv_def)
  from protocol_negotiation [OF demo_sfv_contract h s _ i, of "\<lambda>_. []" id] show ?thesis by simp
qed


section \<open>Checking the origin\<close>

text \<open>
  \<open>utf8.DecodeRuneInString\<close> on a string of bytes: the rune and its size; an invalid encoding gives
  \<open>RuneError\<close> with size 1.
\<close>

definition RuneError :: nat where
  "RuneError = 0xFFFD"

abbreviation byte_at :: "string \<Rightarrow> nat \<Rightarrow> nat" where
  "byte_at s k \<equiv> of_char (s ! k)"

definition is_cont :: "string \<Rightarrow> nat \<Rightarrow> bool" where
  "is_cont s k \<longleftrightarrow> k < length s \<and> 0x80 \<le> byte_at s k \<and> byte_at s k \<le> 0xBF"

definition DecodeRuneInString :: "string \<Rightarrow> nat \<times> nat" where
  "DecodeRuneInString s =
     (if s = [] then (RuneError, 0)
      else
        let b0 = byte_at s 0; b1 = byte_at s 1; b2 = byte_at s 2; b3 = byte_at s 3
        in if b0 < 0x80 then (b0, 1)
           else if 0xC2 \<le> b0 \<and> b0 \<le> 0xDF \<and> is_cont s 1 then ((b0 - 0xC0) * 64 + (b1 - 0x80), 2)
           else if 0xE0 \<le> b0 \<and> b0 \<le> 0xEF \<and> is_cont s 1 \<and> is_cont s 2
              \<and> (b0 = 0xE0 \<longrightarrow> 0xA0 \<le> b1) \<and> (b0 = 0xED \<longrightarrow> b1 \<le> 0x9F)
           then ((b0 - 0xE0) * 4096 + (b1 - 0x80) * 64 + (b2 - 0x80), 3)
           else if 0xF0 \<le> b0 \<and> b0 \<le> 0xF4 \<and> is_cont s 1 \<and> is_cont s 2 \<and> is_cont s 3
              \<and> (b0 = 0xF0 \<longrightarrow> 0x90 \<le> b1) \<and> (b0 = 0xF4 \<longrightarrow> b1 \<le> 0x8F)
           then ((b0 - 0xF0) * 262144 + (b1 - 0x80) * 4096 + (b2 - 0x80) * 64 + (b3 - 0x80), 4)
           else (RuneError, 1))"

definition ascii_fold :: "nat \<Rightarrow> nat" where
  "ascii_fold r = (if 0x41 \<le> r \<and> r \<le> 0x5A then r + 0x61 - 0x41 else r)"

lemma decode_size: "s \<noteq> [] \<Longrightarrow> 1 \<le> snd (DecodeRuneInString s)"
  by (simp add: DecodeRuneInString_def Let_def)

function equalASCIIFold :: "string \<Rightarrow> string \<Rightarrow> bool" where
  "equalASCIIFold s t =
     (if s = [] \<or> t = [] then s = t
      else
        let sr = fst (DecodeRuneInString s); s' = drop (snd (DecodeRuneInString s)) s;
            tr = fst (DecodeRuneInString t); t' = drop (snd (DecodeRuneInString t)) t
        in if sr = tr then equalASCIIFold s' t'
           else if ascii_fold sr \<noteq> ascii_fold tr then False else equalASCIIFold s' t')"
  by pat_completeness auto

termination
proof (relation "measure (\<lambda>(s, t). length s)", goal_cases)
  case (2 s t)
  then show ?case using decode_size [of s] by (cases s) auto
next
  case (3 s t)
  then show ?case using decode_size [of s] by (cases s) auto
qed simp

declare equalASCIIFold.simps [simp del]

text \<open>\<open>parseHost\<close>: the \<open>Host\<close> of \<open>url.Parse\<close>'s result, \<open>None\<close> if it fails. \<open>origin\<close> is the Origin header.\<close>

definition checkSameOrigin :: "(string \<Rightarrow> string option) \<Rightarrow> string \<Rightarrow> string \<Rightarrow> bool" where
  "checkSameOrigin parseHost origin host =
     (if origin = '''' then True
      else case parseHost origin of None \<Rightarrow> False | Some h \<Rightarrow> equalASCIIFold h host)"

text \<open>Lower case, character by character.\<close>

definition ascii_lower :: "char \<Rightarrow> nat" where
  "ascii_lower c = ascii_fold (of_char c)"

lemma decode_ascii: "of_char c < (0x80 :: nat) \<Longrightarrow> DecodeRuneInString (c # s) = (of_char c, 1)"
  by (simp add: DecodeRuneInString_def)

lemma decode_non_ascii: "0x80 \<le> (of_char c :: nat) \<Longrightarrow> 0x80 \<le> fst (DecodeRuneInString (c # s))"
  by (auto simp: DecodeRuneInString_def Let_def RuneError_def is_cont_def)

lemma ascii_fold_range: "ascii_fold r < 0x80 \<longleftrightarrow> r < 0x80"
  by (simp add: ascii_fold_def)

lemma equalASCIIFold_ascii:
  assumes "\<forall>c \<in> set s. of_char c < (0x80 :: nat)"
  shows "equalASCIIFold s t \<longleftrightarrow> map ascii_lower s = map ascii_lower t"
  using assms
proof (induction s arbitrary: t)
  case Nil
  then show ?case by (auto simp: equalASCIIFold.simps)
next
  case (Cons c s)
  show ?case
  proof (cases t)
    case Nil
    then show ?thesis by (simp add: equalASCIIFold.simps)
  next
    case (Cons d t')
    have c: "DecodeRuneInString (c # s) = (of_char c, 1)" using Cons.prems by (intro decode_ascii) simp
    show ?thesis
    proof (cases "of_char d < (0x80 :: nat)")
      case True
      then show ?thesis
        using Cons.IH [of t'] Cons.prems c decode_ascii [OF True, of t'] \<open>t = d # t'\<close>
        by (subst equalASCIIFold.simps) (auto simp: ascii_lower_def [of c] ascii_lower_def [of d] Let_def)
    next
      case False
      then have "\<not> ascii_fold (of_char d) < 0x80" "\<not> ascii_fold (fst (DecodeRuneInString (d # t'))) < 0x80"
        using decode_non_ascii [of d t'] unfolding ascii_fold_range by simp_all
      moreover have "ascii_fold (of_char c) < 0x80" using Cons.prems by (simp add: ascii_fold_range)
      ultimately show ?thesis
        using c \<open>t = d # t'\<close> by (subst equalASCIIFold.simps) (auto simp: ascii_lower_def [of c] ascii_lower_def [of d] Let_def)
    qed
  qed
qed

text \<open>
  The default origin check compares hosts without regard to ASCII case and to nothing else: a
  request with an Origin header whose URL has an ASCII host is accepted if and only if the host of
  the request has the same length and the same characters up to ASCII case; a request without
  Origin is accepted, one with an unparsable Origin is not.
\<close>

theorem same_origin_check:
  assumes "origin \<noteq> ''''" and "\<And>h c. parseHost origin = Some h \<Longrightarrow> c \<in> set h \<Longrightarrow> of_char c < (0x80 :: nat)"
  shows "(checkSameOrigin parseHost origin host \<longleftrightarrow>
      (\<exists>h. parseHost origin = Some h \<and> map ascii_lower h = map ascii_lower host))
    \<and> checkSameOrigin parseHost '''' host"
proof -
  have "equalASCIIFold h host \<longleftrightarrow> map ascii_lower h = map ascii_lower host" if "parseHost origin = Some h" for h
    using assms(2) that by (intro equalASCIIFold_ascii) blast
  with assms(1) show ?thesis by (auto simp: checkSameOrigin_def split: option.split)
qed

theorem same_origin_check_witness:
  "checkSameOrigin (\<lambda>u. Some (drop 8 u)) ''https://Example.com'' ''EXAMPLE.com''"
proof -
  have "map ascii_lower (drop 8 ''https://Example.com'') = map ascii_lower ''EXAMPLE.com''"
    by (simp add: ascii_lower_def ascii_fold_def)
  moreover have "of_char c < (0x80 :: nat)" if "Some (drop 8 ''https://Example.com'') = Some h" "c \<in> set h" for h c
    using that by auto
  ultimately show ?thesis
    using same_origin_check [of "''https://Example.com''" "\<lambda>u. Some (drop 8 u)" "''EXAMPLE.com''"] by blast
qed


section \<open>The server's state\<close>

text \<open>
  The fields of \<open>http3.Server\<close> that the package sets. The context of a request is the value it
  stores under \<open>quicConnKey\<close>.
\<close>

record 'c h3_Server =
  h3_AdditionalSettings :: "(u64 \<rightharpoonup> u64) option"     \<comment> \<open>\<open>None\<close>: the nil map\<close>
  h3_EnableDatagrams :: bool
  h3_ConnContext :: "('c option \<Rightarrow> 'c \<Rightarrow> 'c option) option"

definition ConfigureHTTP3Server :: "'c h3_Server \<Rightarrow> 'c h3_Server" where
  "ConfigureHTTP3Server s =
     (let settings = (case h3_AdditionalSettings s of None \<Rightarrow> Map.empty | Some m \<Rightarrow> m);
          origConnContext = h3_ConnContext s
      in s\<lparr>h3_AdditionalSettings := Some (settings(settingsEnableWebtransportDraft06 \<mapsto> 1,
             settingsWebTransportEnabled \<mapsto> 1, settingsWebTransportMaxSessions \<mapsto> 2 ^ 62 - 1)),
           h3_EnableDatagrams := True,
           h3_ConnContext := Some (\<lambda>ctx conn.
             let ctx = (case origConnContext of None \<Rightarrow> ctx | Some f \<Rightarrow> f ctx conn)
             in Some conn)\<rparr>)"

text \<open>The function in \<open>CheckOrigin\<close>: nil, a function of the application, or \<open>checkSameOrigin\<close>.\<close>

datatype origin_check = NilCheck | CustomCheck | SameOriginCheck

record ('c, 'b, 'u, 's) Server =
  srv_H3 :: "'c h3_Server option"
  srv_Config :: "Config option"
  srv_ApplicationProtocols :: "string list"
  srv_ReorderingTimeout :: int         \<comment> \<open>nanoseconds\<close>
  srv_CheckOrigin :: origin_check
  srv_inited :: bool
  srv_config :: Config
  srv_ctxDone :: bool
  srv_conns :: "('c \<Rightarrow> ('b, 'u, 's) sessionManager option) option"   \<comment> \<open>\<open>None\<close>: the nil map\<close>
  srv_closed :: bool

definition zero_Config :: Config where
  "zero_Config = \<lparr>MaxIncomingStreams = 0, MaxIncomingUniStreams = 0, MaxIncomingData = 0\<rparr>"

definition newServer :: "'c h3_Server option \<Rightarrow> Config option \<Rightarrow> string list \<Rightarrow> ('c, 'b, 'u, 's) Server" where
  "newServer h3 cfg protocols =
     \<lparr>srv_H3 = h3, srv_Config = cfg, srv_ApplicationProtocols = protocols, srv_ReorderingTimeout = 0,
      srv_CheckOrigin = NilCheck, srv_inited = False,
      srv_config = zero_Config, srv_ctxDone = False, srv_conns = None, srv_closed = False\<rparr>"

text \<open>\<open>initialize\<close> with \<open>initOnce\<close>; \<open>init\<close> never fails.\<close>

definition server_init :: "('c, 'b, 'u, 's) Server \<Rightarrow> ('c, 'b, 'u, 's) Server" where
  "server_init s =
     (let cfg = (case srv_Config s of None \<Rightarrow> srv_config s | Some c \<Rightarrow> c);
          configure = (\<lambda>h3. let h3' = ConfigureHTTP3Server h3
                           in h3'\<lparr>h3_AdditionalSettings := map_option (addSettings cfg) (h3_AdditionalSettings h3')\<rparr>)
      in s\<lparr>srv_config := cfg, srv_H3 := map_option configure (srv_H3 s), srv_conns := Some (\<lambda>_. None),
           srv_CheckOrigin := (if srv_CheckOrigin s = NilCheck then SameOriginCheck else srv_CheckOrigin s)\<rparr>)"

definition server_timeout :: "('c, 'b, 'u, 's) Server \<Rightarrow> int" where
  "server_timeout s = (if srv_ReorderingTimeout s = 0 then 5 * 10 ^ 9 else srv_ReorderingTimeout s)"

definition server_initialize :: "('c, 'b, 'u, 's) Server \<Rightarrow> ('c, 'b, 'u, 's) Server" where
  "server_initialize s = (if srv_inited s then s else (server_init s)\<lparr>srv_inited := True\<rparr>)"

text \<open>Effects of the server on a connection and on the request's stream.\<close>

datatype ('c, 'b, 'u, 's) srv_effect =
    CloseConn 'c
  | RejectRequest                       \<comment> \<open>\<open>CancelRead\<close> and \<open>CancelWrite\<close> with \<open>ErrCodeRequestRejected\<close>\<close>
  | AddProtocolHeader string            \<comment> \<open>the WT-Protocol header of the response\<close>
  | ManagerEffects 'c "('b, 'u, 's) sm_effect list"
  | RespondOK                           \<comment> \<open>\<open>WriteHeader\<close> with status 200 and \<open>Flush\<close>\<close>

text \<open>What QUIC says about a connection.\<close>

record conn_state =
  cst_datagramsLocal :: bool
  cst_datagramsRemote :: bool
  cst_partialDeliveryLocal :: bool
  cst_partialDeliveryRemote :: bool

text \<open>\<open>ServeQUICConn\<close> until it starts to accept streams.\<close>

definition ServeQUICConn ::
  "'c \<Rightarrow> conn_state \<Rightarrow> ('c, 'b, 'u, 's) Server
     \<Rightarrow> (go_error option \<times> ('c, 'b, 'u, 's) srv_effect list) \<times> ('c, 'b, 'u, 's) Server" where
  "ServeQUICConn conn st s0 =
     (if \<not> cst_datagramsLocal st
      then ((Some (ENew ''webtransport: QUIC DATAGRAM support required, enable it via QUICConfig.EnableDatagrams''), []), s0)
      else if \<not> cst_partialDeliveryLocal st
      then ((Some (ENew ''webtransport: QUIC Stream Resets with Partial Delivery required, enable it via QUICConfig.EnableStreamResetPartialDelivery''), []), s0)
      else
        let s = server_initialize s0
        in if srv_closed s then ((Some EServerClosed, [CloseConn conn]), s)
           else
             case srv_conns s of
               None \<Rightarrow> ((None, []), s)
             | Some conns \<Rightarrow>
                 (case conns conn of
                    Some mgr \<Rightarrow> ((None, []), s)
                  | None \<Rightarrow> ((None, []), s\<lparr>srv_conns := Some (conns(conn \<mapsto> newSessionManager (server_timeout s)))\<rparr>)))"

text \<open>The function registered for the end of the connection; it returns the timers it stops.\<close>

definition server_connDone :: "'c \<Rightarrow> ('c, 'b, 'u, 's) Server \<Rightarrow> u64 set \<times> ('c, 'b, 'u, 's) Server" where
  "server_connDone conn s =
     (case srv_conns s of
        None \<Rightarrow> ({}, s)
      | Some conns \<Rightarrow>
          (case conns conn of None \<Rightarrow> {} | Some mgr \<Rightarrow> fst (sm_Close mgr), s\<lparr>srv_conns := Some (conns(conn := None))\<rparr>))"

definition isClosed :: "('c, 'b, 'u, 's) Server \<Rightarrow> bool" where
  "isClosed s = srv_closed s"

text \<open>
  \<open>Close\<close>: the connections it closes, each with the session manager that it closes too, and the
  result \<open>h3err\<close> of closing the HTTP/3 server. It also waits for the goroutines of the server.
\<close>

definition server_Close ::
  "go_error option \<Rightarrow> ('c, 'b, 'u, 's) Server
     \<Rightarrow> (go_error option \<times> ('c \<Rightarrow> (u64 set \<times> ('b, 'u, 's) sessionManager) option)) \<times> ('c, 'b, 'u, 's) Server" where
  "server_Close h3err s0 =
     (let s = server_initialize s0
      in ((h3err, case srv_conns s of None \<Rightarrow> (\<lambda>_. None) | Some conns \<Rightarrow> (\<lambda>conn. map_option sm_Close (conns conn))),
          s\<lparr>srv_closed := True, srv_conns := None, srv_ctxDone := True\<rparr>))"

text \<open>
  The goroutine that \<open>ServeQUICConn\<close> starts for a connection waits for the server's context or for that
  of the connection: when the server was closed, it closes the connection.
\<close>

definition server_watch :: "'c \<Rightarrow> bool \<Rightarrow> ('c, 'b, 'u, 's) Server \<Rightarrow> ('c, 'b, 'u, 's) srv_effect list option" where
  "server_watch conn connDone s =
     (if srv_ctxDone s then Some [CloseConn conn] else if connDone then Some [] else None)"

section \<open>Listening\<close>

text \<open>The fields of \<open>quic.Config\<close> that matter here.\<close>

record quic_Config =
  qc_EnableDatagrams :: bool
  qc_EnableStreamResetPartialDelivery :: bool

definition serve_quicConf :: "quic_Config option \<Rightarrow> quic_Config" where
  "serve_quicConf conf =
     (let quicConf = (case conf of Some q \<Rightarrow> q | None \<Rightarrow> \<lparr>qc_EnableDatagrams = False, qc_EnableStreamResetPartialDelivery = False\<rparr>)
      in quicConf\<lparr>qc_EnableDatagrams := True, qc_EnableStreamResetPartialDelivery := True\<rparr>)"

text \<open>
  The accept loop of \<open>serve\<close>, over the results of \<open>Accept\<close>, each with the value of \<open>isClosed\<close> at that
  moment: the error it returns, the connections it closes at once, and those it starts
  \<open>ServeQUICConn\<close> for. Without an error it waits for the next connection.
\<close>

fun serve_loop :: "(go_error + 'c \<times> bool) list \<Rightarrow> go_error option \<times> 'c list \<times> 'c list" where
  "serve_loop [] = (None, [], [])"
| "serve_loop (Inl err # rs) = (Some err, [], [])"
| "serve_loop (Inr (qconn, closed) # rs) =
     (let (err, dropped, served) = serve_loop rs
      in if closed then (err, qconn # dropped, served) else (err, dropped, qconn # served))"

definition serve :: "(quic_Config \<Rightarrow> go_error option) \<Rightarrow> quic_Config option \<Rightarrow> (go_error + 'c \<times> bool) list
    \<Rightarrow> go_error option \<times> 'c list \<times> 'c list" where
  "serve listen conf accepted =
     (case listen (serve_quicConf conf) of Some err \<Rightarrow> (Some err, [], []) | None \<Rightarrow> serve_loop accepted)"

text \<open>The error of \<open>ServeQUICConn\<close> that is logged.\<close>

definition serve_logs :: "go_error option \<Rightarrow> bool" where
  "serve_logs err = (case err of None \<Rightarrow> False | Some e \<Rightarrow> \<not> errors_Is e EServerClosed)"

text \<open>
  A connection of the listener meets the local requirements of \<open>ServeQUICConn\<close>, which QUIC takes from
  the configuration; so the only error left is that of a closed server, which is not logged.
\<close>

lemma serve_accepted_unlogged:
  assumes "cst_datagramsLocal st = qc_EnableDatagrams (serve_quicConf conf)"
    and "cst_partialDeliveryLocal st = qc_EnableStreamResetPartialDelivery (serve_quicConf conf)"
  shows "\<not> serve_logs (fst (fst (ServeQUICConn conn st s)))"
  using assms by (simp add: serve_quicConf_def ServeQUICConn_def serve_logs_def Let_def split: option.split)

section \<open>Upgrading a request\<close>

datatype settings_wait = SettingsReceived http3_Settings | ConnectionDone go_error | SettingsTimeout

record 'c connect_request =
  rq_Method :: string
  rq_Proto :: string
  rq_Origin :: string                  \<comment> \<open>the Origin header\<close>
  rq_OriginHost :: "string option"     \<comment> \<open>the host of \<open>url.Parse\<close> of it; \<open>None\<close> is an error\<close>
  rq_Host :: string
  rq_customCheck :: bool               \<comment> \<open>what a function of the application says of the request\<close>
  rq_conn :: "'c option"               \<comment> \<open>the value stored by \<open>ConnContext\<close>\<close>
  rq_protocols :: "string list"
  rq_settings :: settings_wait
  rq_streamID :: u64

text \<open>\<open>s.CheckOrigin(r)\<close>; after \<open>init\<close> the function is not nil.\<close>

definition server_CheckOrigin :: "'c connect_request \<Rightarrow> ('c, 'b, 'u, 's) Server \<Rightarrow> bool" where
  "server_CheckOrigin r s =
     (case srv_CheckOrigin s of
        NilCheck \<Rightarrow> False
      | CustomCheck \<Rightarrow> rq_customCheck r
      | SameOriginCheck \<Rightarrow> checkSameOrigin (\<lambda>_. rq_OriginHost r) (rq_Origin r) (rq_Host r))"

text \<open>
  \<open>Upgrade\<close>, with what it does to the connection, the request's stream and the response. A session
  in a session manager stands for the pointer to it; the value is the session as it was created.
\<close>

definition Upgrade ::
  "httpsfv \<Rightarrow> (go_error \<Rightarrow> string) \<Rightarrow> 'c connect_request
     \<Rightarrow> ('c, 'b, 'u, Session) Server
     \<Rightarrow> ((go_error + Session) \<times> ('c, 'b, 'u, Session) srv_effect list) \<times> ('c, 'b, 'u, Session) Server" where
  "Upgrade sfv ext r s0 =
     (let s = server_initialize s0;
          fail = (\<lambda>e. ((Inl e, []), s));
          selectedProtocol = selectProtocol sfv (srv_ApplicationProtocols s) (rq_protocols r)
      in if rq_Method r \<noteq> ''CONNECT'' then fail (ENew (''expected CONNECT request, got '' @ rq_Method r))
         else if \<not> isWebTransportProtocol (rq_Proto r) then fail (ENew (''unexpected protocol: '' @ rq_Proto r))
         else if \<not> server_CheckOrigin r s then fail (ENew ''webtransport: request origin not allowed'')
         else
           case rq_conn r of
             None \<Rightarrow> fail (ENew ''webtransport: missing QUIC connection'')
           | Some conn \<Rightarrow>
               (case rq_settings r of
                  ConnectionDone e \<Rightarrow> fail e
                | SettingsTimeout \<Rightarrow> fail (ENew ''webtransport: didn't receive the client's SETTINGS on time'')
                | SettingsReceived settings \<Rightarrow>
                    if \<not> EnableDatagrams settings then fail (ENew ''webtransport: missing datagram support'')
                    else
                      case (if selectedProtocol = '''' then Inr None
                            else map_sum id Some (sfv_MarshalItem sfv selectedProtocol)) of
                        Inl err \<Rightarrow> fail (EWrap (''failed to marshal selected protocol: '' @ go_Error ext err) err)
                      | Inr hdr \<Rightarrow>
                          let fc = Config_sessionFlowControl (srv_config s) (Some settings);
                              hs = (case hdr of None \<Rightarrow> [] | Some v \<Rightarrow> [AddProtocolHeader v])
                          in (case (case srv_conns s of None \<Rightarrow> None | Some conns \<Rightarrow> conns conn) of
                                None \<Rightarrow> ((Inl (ENew ''webtransport: connection session manager not found''), hs), s)
                              | Some mgr \<Rightarrow>
                                  if \<not> fc_Enabled fc \<and> (\<exists>i x. sm_sessions mgr i = Some (Established x))
                                  then ((Inl (ENew ''webtransport: multiple sessions require flow control''), hs @ [RejectRequest]), s)
                                  else
                                    let sess = newSession (rq_streamID r) selectedProtocol fc;
                                        (es, mgr') = sm_AddSession (rq_streamID r) sess mgr
                                    in ((Inr sess, hs @ [ManagerEffects conn es, RespondOK]),
                                        s\<lparr>srv_conns := map_option (\<lambda>conns. conns(conn \<mapsto> mgr')) (srv_conns s)\<rparr>))))"


section \<open>Sessions and connections over time\<close>

text \<open>
  Everything that happens at a server: connections begin and end, requests are upgraded, the
  session managers work, the server is closed. A client sends its SETTINGS once per connection
  (\<open>settings_of\<close>).
\<close>

definition is_OpSession :: "('b, 'u, 's) sm_op \<Rightarrow> bool" where
  "is_OpSession op = (case op of OpSession i s \<Rightarrow> True | _ \<Rightarrow> False)"

inductive srv_step ::
  "httpsfv \<Rightarrow> (go_error \<Rightarrow> string) \<Rightarrow> ('c \<Rightarrow> http3_Settings)
    \<Rightarrow> ('c, 'b, 'u, Session) Server \<Rightarrow> ('c, 'b, 'u, Session) Server \<Rightarrow> bool"
  for sfv ext settings_of where
  srv_serve: "ServeQUICConn conn st s = (r, s') \<Longrightarrow> srv_step sfv ext settings_of s s'"
| srv_upgrade: "(\<And>conn x. rq_conn r = Some conn \<Longrightarrow> rq_settings r = SettingsReceived x \<Longrightarrow> x = settings_of conn) \<Longrightarrow>
    Upgrade sfv ext r s = (res, s') \<Longrightarrow> srv_step sfv ext settings_of s s'"
| srv_manager: "srv_conns s = Some conns \<Longrightarrow> conns conn = Some mgr \<Longrightarrow> \<not> is_OpSession op \<Longrightarrow>
    sm_exec op mgr = (es, mgr') \<Longrightarrow>
    srv_step sfv ext settings_of s (s\<lparr>srv_conns := Some (conns(conn \<mapsto> mgr'))\<rparr>)"
| srv_done: "server_connDone conn s = (ts, s') \<Longrightarrow> srv_step sfv ext settings_of s s'"
| srv_close: "server_Close h3err s = (cs, s') \<Longrightarrow> srv_step sfv ext settings_of s s'"

definition established :: "('b, 'u, 's) sessionManager \<Rightarrow> u64 \<Rightarrow> bool" where
  "established mgr i \<longleftrightarrow> (\<exists>x. sm_sessions mgr i = Some (Established x))"

definition at_most_one :: "('b, 'u, 's) sessionManager \<Rightarrow> bool" where
  "at_most_one mgr \<longleftrightarrow> (\<forall>i j. established mgr i \<longrightarrow> established mgr j \<longrightarrow> i = j)"

lemma sm_exec_established:
  assumes "sm_exec op mgr = (es, mgr')" "\<not> is_OpSession op" "established mgr' i"
  shows "established mgr i"
  using assms by (cases op) (auto simp: established_def is_OpSession_def wt_defs Let_def
      split: option.splits sessionEntry.splits if_splits)

lemma sm_AddSession_one:
  "sm_AddSession i x mgr = (es, mgr') \<Longrightarrow> \<nexists>j. established mgr j \<Longrightarrow> at_most_one mgr'"
  by (auto simp: sm_AddSession_def at_most_one_def established_def split: if_splits)

definition effective_config :: "Config option \<Rightarrow> Config" where
  "effective_config cfg = (case cfg of None \<Rightarrow> zero_Config | Some c \<Rightarrow> c)"

definition srv_inv :: "Config option \<Rightarrow> ('c \<Rightarrow> http3_Settings) \<Rightarrow> ('c, 'b, 'u, Session) Server \<Rightarrow> bool" where
  "srv_inv cfg settings_of s \<longleftrightarrow>
     srv_Config s = cfg
     \<and> srv_config s = (if srv_inited s then effective_config cfg else zero_Config)
     \<and> (srv_closed s \<longrightarrow> srv_inited s \<and> srv_conns s = None)
     \<and> (\<forall>conns conn mgr. srv_conns s = Some conns \<longrightarrow> conns conn = Some mgr \<longrightarrow>
          \<not> fc_Enabled (Config_sessionFlowControl (effective_config cfg) (Some (settings_of conn))) \<longrightarrow>
          at_most_one mgr)"

lemma srv_inv_initialize:
  "srv_inv cfg settings_of s \<Longrightarrow> srv_inv cfg settings_of (server_initialize s) \<and> srv_inited (server_initialize s)"
  by (auto simp: srv_inv_def server_initialize_def server_init_def effective_config_def Let_def split: option.splits)

lemma srv_inv_conns:
  assumes "srv_inv cfg settings_of s" "srv_conns s = Some conns"
    and "\<not> fc_Enabled (Config_sessionFlowControl (effective_config cfg) (Some (settings_of conn))) \<Longrightarrow> at_most_one mgr"
  shows "srv_inv cfg settings_of (s\<lparr>srv_conns := Some (conns(conn \<mapsto> mgr))\<rparr>)"
  using assms by (auto simp: srv_inv_def)

lemma at_most_one_new: "at_most_one (newSessionManager timeout)"
  by (simp add: at_most_one_def established_def newSessionManager_def)

lemma srv_inv_serve:
  assumes "srv_inv cfg settings_of s" "ServeQUICConn conn st s = (r, s')"
  shows "srv_inv cfg settings_of s'"
proof -
  note i = srv_inv_initialize [OF assms(1)]
  have "s' = s \<or> s' = server_initialize s \<or>
      (\<exists>conns. srv_conns (server_initialize s) = Some conns
        \<and> s' = (server_initialize s)\<lparr>srv_conns := Some (conns(conn \<mapsto> newSessionManager (server_timeout (server_initialize s))))\<rparr>)"
    using assms(2) by (auto simp: ServeQUICConn_def Let_def split: if_splits option.splits)
  then show ?thesis
    using assms(1) i at_most_one_new srv_inv_conns [OF conjunct1 [OF i]] by blast
qed

text \<open>A successful upgrade.\<close>

definition upgraded ::
  "'c connect_request \<Rightarrow> ('c, 'b, 'u, Session) Server
     \<Rightarrow> ('c, 'b, 'u, Session) Server \<Rightarrow> bool" where
  "upgraded r s s' \<longleftrightarrow>
     (\<exists>conn settings conns mgr es mgr' p.
        let fc = Config_sessionFlowControl (srv_config s) (Some settings)
        in rq_conn r = Some conn \<and> rq_settings r = SettingsReceived settings
           \<and> srv_conns s = Some conns \<and> conns conn = Some mgr
           \<and> (fc_Enabled fc \<or> (\<nexists>j. established mgr j))
           \<and> sm_AddSession (rq_streamID r) (newSession (rq_streamID r) p fc) mgr = (es, mgr')
           \<and> s' = s\<lparr>srv_conns := Some (conns(conn \<mapsto> mgr'))\<rparr>)"

definition upgrade_outcome where
  "upgrade_outcome r s x \<longleftrightarrow>
     (isl (fst (fst x)) \<and> snd x = s) \<or> (\<not> isl (fst (fst x)) \<and> upgraded r s (snd x))"

lemma upgrade_outcome_fail [simp]: "upgrade_outcome r s ((Inl e, es), s)"
  by (simp add: upgrade_outcome_def)

lemma upgrade_outcome_ok:
  assumes "rq_conn r = Some conn" "rq_settings r = SettingsReceived settings"
    "srv_conns s = Some conns" "conns conn = Some mgr"
    "fc = Config_sessionFlowControl (srv_config s) (Some settings)"
    "fc_Enabled fc \<or> (\<nexists>j. established mgr j)"
    "sm_AddSession (rq_streamID r) (newSession (rq_streamID r) p fc) mgr = (es, mgr')"
  shows "upgrade_outcome r s ((Inr v, es'), s\<lparr>srv_conns := Some (conns(conn \<mapsto> mgr'))\<rparr>)"
  using assms unfolding upgrade_outcome_def upgraded_def Let_def by auto

lemma Upgrade_outcome: "upgrade_outcome r (server_initialize s) (Upgrade sfv ext r s)"
  unfolding Upgrade_def Let_def
  by (simp add: upgrade_outcome_ok established_def
      split del: if_split split: option.split settings_wait.split sum.split prod.split if_split)

lemma Upgrade_cases:
  assumes "Upgrade sfv ext r s = ((res, es), s')"
  shows "(isl res \<and> s' = server_initialize s) \<or> (\<not> isl res \<and> upgraded r (server_initialize s) s')"
  using Upgrade_outcome [of r s sfv ext] assms by (simp add: upgrade_outcome_def)

lemma srv_inv_upgrade:
  assumes inv: "srv_inv cfg settings_of s"
    and st: "\<And>conn x. rq_conn r = Some conn \<Longrightarrow> rq_settings r = SettingsReceived x \<Longrightarrow> x = settings_of conn"
    and u: "Upgrade sfv ext r s = ((res, es), s')"
  shows "srv_inv cfg settings_of s'"
proof -
  note i = srv_inv_initialize [OF inv]
  from Upgrade_cases [OF u] consider "s' = server_initialize s" | "upgraded r (server_initialize s) s'" by blast
  then show ?thesis
  proof cases
    case 1
    with i show ?thesis by simp
  next
    case 2
    then obtain conn settings conns mgr es mgr' p fc where
      fc: "fc = Config_sessionFlowControl (srv_config (server_initialize s)) (Some settings)" and
      c: "rq_conn r = Some conn" "rq_settings r = SettingsReceived settings"
        "srv_conns (server_initialize s) = Some conns" "fc_Enabled fc \<or> (\<nexists>j. established mgr j)"
        "sm_AddSession (rq_streamID r) (newSession (rq_streamID r) p fc) mgr = (es, mgr')"
        "s' = (server_initialize s)\<lparr>srv_conns := Some (conns(conn \<mapsto> mgr'))\<rparr>"
      unfolding upgraded_def Let_def by blast
    have "fc = Config_sessionFlowControl (effective_config cfg) (Some (settings_of conn))"
      using fc st [OF c(1,2)] i by (simp add: srv_inv_def)
    with c(4) sm_AddSession_one [OF c(5)]
    have "\<not> fc_Enabled (Config_sessionFlowControl (effective_config cfg) (Some (settings_of conn))) \<Longrightarrow> at_most_one mgr'"
      by blast
    with srv_inv_conns [OF conjunct1 [OF i] c(3)] c(6) show ?thesis by blast
  qed
qed

lemma srv_inv_step: "srv_step sfv ext settings_of s s' \<Longrightarrow> srv_inv cfg settings_of s \<Longrightarrow> srv_inv cfg settings_of s'"
proof (induction rule: srv_step.induct)
  case (srv_serve conn st s r s')
  then show ?case by (auto intro: srv_inv_serve)
next
  case (srv_upgrade r s res s')
  obtain a b where "res = (a, b)" by (cases res)
  with srv_upgrade show ?case by (auto intro: srv_inv_upgrade)
next
  case (srv_manager s conns conn mgr op es mgr')
  have "at_most_one mgr'" if "at_most_one mgr"
    using that sm_exec_established [OF srv_manager(4,3)] by (auto simp: at_most_one_def)
  moreover have "at_most_one mgr"
    if "\<not> fc_Enabled (Config_sessionFlowControl (effective_config cfg) (Some (settings_of conn)))"
    using srv_manager(1,2,5) that unfolding srv_inv_def by blast
  ultimately show ?case using srv_manager(1,5) by (intro srv_inv_conns) auto
next
  case (srv_done conn s ts s')
  then show ?case by (auto simp: srv_inv_def server_connDone_def split: if_splits option.splits)
next
  case (srv_close h3err s cs s')
  then have "s' = (server_initialize s)\<lparr>srv_closed := True, srv_conns := None, srv_ctxDone := True\<rparr>"
    by (auto simp: server_Close_def Let_def)
  with srv_inv_initialize [OF srv_close(2)] show ?case by (auto simp: srv_inv_def)
qed

definition srv_initial :: "'c h3_Server option \<Rightarrow> Config option \<Rightarrow> string list \<Rightarrow> ('c, 'b, 'u, Session) Server \<Rightarrow> bool" where
  "srv_initial h3 cfg ps s \<longleftrightarrow> s = newServer h3 cfg ps"

lemma srv_inv_reach:
  "reach (srv_initial h3 cfg ps) (srv_step sfv ext settings_of) s \<Longrightarrow> srv_inv cfg settings_of s"
proof (erule reach_invariant)
  fix s t assume "srv_inv cfg settings_of s" "srv_step sfv ext settings_of s t"
  then show "srv_inv cfg settings_of t" by (blast intro: srv_inv_step)
qed (simp add: srv_initial_def newServer_def srv_inv_def)

lemma closed_server:
  assumes "srv_inv cfg settings_of s" "srv_closed s"
  shows "server_initialize s = s" "srv_conns s = None"
  using assms by (auto simp: srv_inv_def server_initialize_def)

lemma Upgrade_closed:
  assumes "srv_inv cfg settings_of s" "srv_closed s"
  shows "isl (fst (fst (Upgrade sfv ext r s))) \<and> snd (Upgrade sfv ext r s) = s"
  using Upgrade_outcome [of r s sfv ext] closed_server [OF assms]
  unfolding upgrade_outcome_def upgraded_def Let_def by auto

lemma closed_server_step:
  assumes "srv_step sfv ext settings_of s s'" "srv_inv cfg settings_of s" "srv_closed s"
  shows "srv_closed s'"
  using assms
proof (induction rule: srv_step.induct)
  case (srv_upgrade r s res s')
  then show ?case using Upgrade_closed [of cfg settings_of s sfv ext r] by auto
qed (auto simp: ServeQUICConn_def server_Close_def server_connDone_def server_initialize_def srv_inv_def Let_def
      split: if_splits option.splits)

text \<open>
  C20. A connection whose peers did not agree on flow control carries at most one session: in every
  state a server can reach, the session manager of such a connection has at most one established
  session, however connections, requests, streams, timers and shutdown interleave.
\<close>

theorem single_session_without_flow_control:
  assumes "reach (srv_initial h3 cfg ps) (srv_step sfv ext settings_of) s"
    and "srv_conns s = Some conns" "conns conn = Some mgr"
    and "\<not> fc_Enabled (Config_sessionFlowControl (effective_config cfg) (Some (settings_of conn)))"
    and "established mgr i" "established mgr j"
  shows "i = j"
proof -
  from srv_inv_reach [OF assms(1)] assms(2-4) have "at_most_one mgr" unfolding srv_inv_def by blast
  with assms(5,6) show ?thesis by (simp add: at_most_one_def)
qed

text \<open>
  After \<open>Close\<close> the server admits nothing: \<open>ServeQUICConn\<close> returns an error and keeps no
  manager, \<open>Upgrade\<close> returns an error, neither changes the server, and the server stays closed
  whatever happens next.
\<close>

theorem closed_server_admits_nothing:
  assumes "reach (srv_initial h3 cfg ps) (srv_step sfv ext settings_of) s" and "srv_closed s"
  shows "fst (fst (ServeQUICConn conn st s)) \<noteq> None \<and> snd (ServeQUICConn conn st s) = s
    \<and> isl (fst (fst (Upgrade sfv ext r s))) \<and> snd (Upgrade sfv ext r s) = s
    \<and> (srv_step sfv ext settings_of s s' \<longrightarrow> srv_closed s' \<and> srv_conns s' = None)"
proof -
  note inv = srv_inv_reach [OF assms(1)]
  have "srv_conns s' = None" if "srv_step sfv ext settings_of s s'"
    using closed_server(2) [OF srv_inv_step [OF that inv] closed_server_step [OF that inv assms(2)]] .
  moreover have "fst (fst (ServeQUICConn conn st s)) \<noteq> None \<and> snd (ServeQUICConn conn st s) = s"
    using closed_server [OF inv assms(2)] assms(2) by (simp add: ServeQUICConn_def Let_def)
  ultimately show ?thesis
    using Upgrade_closed [OF inv assms(2)] closed_server_step [OF _ inv assms(2)] by blast
qed

text \<open>A server with the zero configuration, one connection, one session; then it is closed.\<close>

definition srv_ex_sfv :: httpsfv where
  "srv_ex_sfv =
     \<lparr>sfv_UnmarshalList = (\<lambda>_. Inr []), sfv_UnmarshalItem = (\<lambda>_. Inl EEOF), sfv_MarshalList = (\<lambda>_. Inr ''''),
      sfv_MarshalItem = Inr\<rparr>"

definition srv_ex_settings :: http3_Settings where
  "srv_ex_settings = \<lparr>EnableDatagrams = True, EnableExtendedConnect = True, Other = None\<rparr>"

definition srv_ex_request :: "nat connect_request" where
  "srv_ex_request =
     \<lparr>rq_Method = ''CONNECT'', rq_Proto = protocolHeader, rq_Origin = '''',
      rq_OriginHost = None, rq_Host = ''host'', rq_customCheck = False, rq_conn = Some 7,
      rq_protocols = [], rq_settings = SettingsReceived srv_ex_settings, rq_streamID = 4\<rparr>"

type_synonym srv_ex_server = "(nat, nat, nat, Session) Server"

definition srv_ex0 :: srv_ex_server where
  "srv_ex0 = newServer None None []"

definition srv_ex1 :: srv_ex_server where
  "srv_ex1 = snd (ServeQUICConn 7 \<lparr>cst_datagramsLocal = True, cst_datagramsRemote = True,
     cst_partialDeliveryLocal = True, cst_partialDeliveryRemote = True\<rparr> srv_ex0)"

definition srv_ex2 :: srv_ex_server where
  "srv_ex2 = snd (Upgrade srv_ex_sfv (\<lambda>_. '''') srv_ex_request srv_ex1)"

definition srv_ex3 :: srv_ex_server where
  "srv_ex3 = snd (server_Close None srv_ex2)"

abbreviation srv_ex_reach :: "srv_ex_server \<Rightarrow> bool" where
  "srv_ex_reach \<equiv> reach (srv_initial None None [])
     (srv_step srv_ex_sfv (\<lambda>_. '''') (\<lambda>_. srv_ex_settings))"

lemma srv_ex2_reach: "srv_ex_reach srv_ex2"
proof -
  have "srv_ex_reach srv_ex0" by (rule reach_init) (simp add: srv_initial_def srv_ex0_def)
  then have "srv_ex_reach srv_ex1"
    unfolding srv_ex1_def by (rule reach_step) (rule srv_serve [OF surjective_pairing])
  then show ?thesis
  proof (rule reach_step)
    show "srv_step srv_ex_sfv (\<lambda>_. '''') (\<lambda>_. srv_ex_settings) srv_ex1 srv_ex2"
      unfolding srv_ex2_def by (rule srv_upgrade [OF _ surjective_pairing]) (simp add: srv_ex_request_def)
  qed
qed

lemma srv_ex3_reach: "srv_ex_reach srv_ex3"
  unfolding srv_ex3_def by (rule reach_step [OF srv_ex2_reach]) (rule srv_close [OF surjective_pairing])

lemma srv_ex1_eval: "srv_ex1 = (newServer None None [])\<lparr>srv_inited := True,
    srv_CheckOrigin := SameOriginCheck,
    srv_conns := Some ((\<lambda>_. None)(7 \<mapsto> newSessionManager (5 * 10 ^ 9)))\<rparr>"
  by (simp add: srv_ex1_def srv_ex0_def ServeQUICConn_def server_initialize_def server_init_def newServer_def server_timeout_def Let_def)

lemma srv_ex2_eval: "\<exists>conns mgr. srv_conns srv_ex2 = Some conns \<and> conns 7 = Some mgr
    \<and> sm_sessions mgr = (\<lambda>_. None)(4 \<mapsto> Established (newSession 4 '''' zero_sessionFlowControl))"
  by (simp add: srv_ex2_def srv_ex1_eval Upgrade_def server_initialize_def newServer_def srv_ex_request_def
      isWebTransportProtocol_def srv_ex_sfv_def srv_ex_settings_def newSessionManager_def sm_AddSession_def
      server_CheckOrigin_def checkSameOrigin_def selectProtocol_def Config_sessionFlowControl_def zero_Config_def Let_def)

theorem single_session_without_flow_control_witness:
  "\<exists>conns mgr. srv_conns srv_ex2 = Some conns \<and> conns 7 = Some mgr \<and> established mgr 4
     \<and> (\<forall>i. established mgr i \<longrightarrow> i = 4)"
proof -
  obtain conns mgr where c: "srv_conns srv_ex2 = Some conns" "conns 7 = Some mgr"
      "sm_sessions mgr = (\<lambda>_. None)(4 \<mapsto> Established (newSession 4 '''' zero_sessionFlowControl))"
    using srv_ex2_eval by blast
  then have e: "established mgr 4" by (simp add: established_def)
  have "\<not> fc_Enabled (Config_sessionFlowControl (effective_config None) (Some srv_ex_settings))"
    by (simp add: Config_sessionFlowControl_def zero_sessionFlowControl_def effective_config_def zero_Config_def srv_ex_settings_def Let_def)
  then have "i = 4" if "established mgr i" for i
    using single_session_without_flow_control [OF srv_ex2_reach c(1,2) _ that e] by blast
  with c e show ?thesis by blast
qed

theorem closed_server_admits_nothing_witness:
  "srv_closed srv_ex3 \<and> isl (fst (fst (Upgrade srv_ex_sfv (\<lambda>_. '''') srv_ex_request srv_ex3)))"
proof -
  have "srv_closed srv_ex3" by (simp add: srv_ex3_def server_Close_def Let_def)
  with closed_server_admits_nothing [OF srv_ex3_reach this] show ?thesis by blast
qed

end
