(* ===== verification/WT_Client.thy ===== *)
theory WT_Client
  imports WT_Server
begin

text \<open>
  The client (\<open>client_conn.go\<close> and \<open>transport.go\<close>): a client connection on a QUIC connection, the
  dialling of a session with every check and early return in the order of the code, and the
  transport that dials a QUIC connection of its own for one session.

  Parameters: \<open>url.Parse\<close> (only the host of its result is used), the structured-field codec, the
  text of foreign errors, and what QUIC and HTTP/3 answer, collected in the record \<open>dial_env\<close>: the
  branch each \<open>select\<close> takes, the connection state, the SETTINGS, and the results of the calls on the
  request stream.
\<close>

section \<open>HTTP headers\<close>

text \<open>
  Package \<open>net/http\<close>: header names are stored in canonical form, with an upper-case letter at the
  start and after each hyphen; a name with a byte that no header name may have is left as it is.
\<close>

definition validHeaderFieldByte :: "char \<Rightarrow> bool" where
  "validHeaderFieldByte c \<longleftrightarrow>
     c \<in> set ''!#$%&'*+-.^_`|~'' \<or> (let n = of_char c :: nat in 48 \<le> n \<and> n \<le> 57 \<or> 65 \<le> n \<and> n \<le> 90 \<or> 97 \<le> n \<and> n \<le> 122)"

definition upper_char :: "char \<Rightarrow> char" where
  "upper_char c = (let n = of_char c :: nat in if 97 \<le> n \<and> n \<le> 122 then char_of (n - 32) else c)"

definition lower_char :: "char \<Rightarrow> char" where
  "lower_char c = (let n = of_char c :: nat in if 65 \<le> n \<and> n \<le> 90 then char_of (n + 32) else c)"

fun canonicalMIMEHeaderKey :: "bool \<Rightarrow> string \<Rightarrow> string" where
  "canonicalMIMEHeaderKey upper [] = []"
| "canonicalMIMEHeaderKey upper (c # cs) =
     (if upper then upper_char c else lower_char c) # canonicalMIMEHeaderKey (c = CHR ''-'') cs"

definition CanonicalHeaderKey :: "string \<Rightarrow> string" where
  "CanonicalHeaderKey s = (if list_all validHeaderFieldByte s then canonicalMIMEHeaderKey True s else s)"

type_synonym http_Header = "string \<Rightarrow> string list option"

definition header_Get :: "http_Header \<Rightarrow> string \<Rightarrow> string" where
  "header_Get h key = (case h (CanonicalHeaderKey key) of Some (v # _) \<Rightarrow> v | _ \<Rightarrow> '''')"

definition header_Set :: "string \<Rightarrow> string \<Rightarrow> http_Header \<Rightarrow> http_Header" where
  "header_Set key v h = h(CanonicalHeaderKey key \<mapsto> [v])"

definition wtAvailableProtocolsHeader :: string where
  "wtAvailableProtocolsHeader = ''WT-Available-Protocols''"

definition wtProtocolHeader :: string where
  "wtProtocolHeader = ''WT-Protocol''"

lemma header_Set_other: "CanonicalHeaderKey k \<noteq> CanonicalHeaderKey k' \<Longrightarrow> header_Get (header_Set k v h) k' = header_Get h k'"
  by (simp add: header_Get_def header_Set_def)

lemma header_Get_Set [simp]: "header_Get (header_Set k v h) k = v"
  by (simp add: header_Get_def header_Set_def)

section \<open>The transport\<close>

record Transport =
  tr_Config :: "Config option"
  tr_NextProtos :: "string list option"       \<comment> \<open>\<open>TLSClientConfig.NextProtos\<close>; \<open>None\<close>: no TLS config\<close>
  tr_QUICConfig :: "quic_Config option"
  tr_ApplicationProtocols :: "string list"
  tr_StreamReorderingTimeout :: int
  tr_inited :: bool                           \<comment> \<open>\<open>initOnce\<close> ran; until then \<open>ctxCancel\<close> is nil\<close>
  tr_ctxDone :: bool

definition Transport_init :: "Transport \<Rightarrow> Transport" where
  "Transport_init d = (if tr_inited d then d else d\<lparr>tr_inited := True, tr_ctxDone := False\<rparr>)"

text \<open>\<open>Close\<close>: \<open>None\<close> is the panic of a call of the nil \<open>ctxCancel\<close>.\<close>

definition Transport_Close :: "Transport \<Rightarrow> Transport option" where
  "Transport_Close d = (if tr_inited d then Some (d\<lparr>tr_ctxDone := True\<rparr>) else None)"

section \<open>A client connection\<close>

record ('b, 'u) ClientConn =
  cc_AdditionalSettings :: "u64 \<rightharpoonup> u64"       \<comment> \<open>of the HTTP/3 transport, which also enables datagrams\<close>
  cc_sessMgr :: "('b, 'u, Session) sessionManager"
  cc_config :: Config
  cc_applicationProtocols :: "string list"

definition NewClientConn :: "conn_state \<Rightarrow> Transport \<Rightarrow> (go_error + ('b, 'u) ClientConn) \<times> Transport" where
  "NewClientConn st d0 =
     (let d = Transport_init d0
      in if \<not> cst_datagramsLocal st
         then (Inl (ENew ''webtransport: DATAGRAM support required, enable it via QUICConfig.EnableDatagrams''), d)
         else if \<not> cst_partialDeliveryLocal st
         then (Inl (ENew ''webtransport: stream reset partial delivery required, enable it via QUICConfig.EnableStreamResetPartialDelivery''), d)
         else
           let config = (case tr_Config d of None \<Rightarrow> zero_Config | Some c \<Rightarrow> c);
               additionalSettings = addSettings config [settingsWebTransportEnabled \<mapsto> 1];
               timeout = (if tr_StreamReorderingTimeout d = 0 then 5 * 10 ^ 9 else tr_StreamReorderingTimeout d)
           in (Inr \<lparr>cc_AdditionalSettings = additionalSettings, cc_sessMgr = newSessionManager timeout,
                    cc_config = config, cc_applicationProtocols = tr_ApplicationProtocols d\<rparr>, d))"

text \<open>The function registered for the end of the connection; it returns the timers it stops.\<close>

definition client_connDone :: "('b, 'u) ClientConn \<Rightarrow> u64 set \<times> ('b, 'u) ClientConn" where
  "client_connDone c = (let (ts, mgr) = sm_Close (cc_sessMgr c) in (ts, c\<lparr>cc_sessMgr := mgr\<rparr>))"

section \<open>Dialling\<close>

text \<open>The branch a \<open>select\<close> takes, with the cause of the context that is done.\<close>

datatype dial_wait = WaitDone | WaitCtx go_error | WaitConn go_error | WaitTransport go_error

record http_Response =
  rsp_StatusCode :: int
  rsp_Header :: http_Header

record http_Request =
  req_Method :: string
  req_Header :: http_Header
  req_Proto :: string
  req_Host :: string

record dial_env =
  de_handshake :: dial_wait
  de_state :: conn_state
  de_settingsWait :: dial_wait
  de_settings :: http3_Settings
  de_OpenRequestStream :: "go_error + u64"          \<comment> \<open>the stream ID\<close>
  de_SendRequestHeader :: "go_error option"
  de_ReadResponse :: "go_error + http_Response"
  de_TryWriteAll :: "go_error option"

datatype ('b, 'u) dial_effect =
    SendRequest http_Request
  | CancelRequest                                   \<comment> \<open>\<open>CancelRead\<close> and \<open>CancelWrite\<close> with \<open>ErrCodeRequestCanceled\<close>\<close>
  | CloseRequest                                    \<comment> \<open>\<open>requestStr.Close()\<close>\<close>
  | RejectSession "connect_call list"               \<comment> \<open>\<open>closeSessionStream\<close>\<close>
  | ClientManager "('b, 'u, Session) sm_effect list"

text \<open>The requirements on the connection and on the server's SETTINGS, in the order of the checks.\<close>

definition check_connection :: "conn_state \<Rightarrow> go_error option" where
  "check_connection st =
     (if \<not> cst_datagramsRemote st then Some (ERequirementsNotMet ''server didn't enable QUIC datagram support'')
      else if \<not> cst_partialDeliveryRemote st
      then Some (ERequirementsNotMet ''server didn't enable QUIC stream reset partial delivery'')
      else None)"

definition check_settings :: "http3_Settings \<Rightarrow> go_error option" where
  "check_settings settings =
     (if \<not> EnableExtendedConnect settings then Some (ERequirementsNotMet ''server didn't enable Extended CONNECT'')
      else if \<not> EnableDatagrams settings then Some (ERequirementsNotMet ''server didn't enable HTTP/3 datagram support'')
      else
        case Other settings of
          None \<Rightarrow> Some (ERequirementsNotMet ''server didn't enable WebTransport'')
        | Some m \<Rightarrow>
            (case m settingsWebTransportEnabled of
               None \<Rightarrow> Some (ERequirementsNotMet ''server didn't enable WebTransport'')
             | Some s \<Rightarrow> if s = 0 then Some (ERequirementsNotMet ''server didn't enable WebTransport'') else None))"

text \<open>The request; an error if the protocols cannot be marshalled. \<open>reqHdr\<close> is \<open>None\<close> for nil.\<close>

definition dial_request ::
  "httpsfv \<Rightarrow> (go_error \<Rightarrow> string) \<Rightarrow> string list \<Rightarrow> string \<Rightarrow> http_Header option \<Rightarrow> go_error + http_Request" where
  "dial_request sfv ext protocols host reqHdr0 =
     (let reqHdr = (case reqHdr0 of None \<Rightarrow> (\<lambda>_. None) | Some h \<Rightarrow> h);
          req = (\<lambda>h. \<lparr>req_Method = ''CONNECT'', req_Header = h, req_Proto = protocolHeader, req_Host = host\<rparr>)
      in if protocols \<noteq> [] \<and> header_Get reqHdr wtAvailableProtocolsHeader = ''''
         then case sfv_MarshalList sfv protocols of
                Inl err \<Rightarrow> Inl (EWrap (''failed to marshal application protocols: '' @ go_Error ext err) err)
              | Inr v \<Rightarrow> Inr (req (header_Set wtAvailableProtocolsHeader v reqHdr))
         else Inr (req reqHdr))"

definition wait_error :: "(go_error \<Rightarrow> string) \<Rightarrow> string \<Rightarrow> dial_wait \<Rightarrow> go_error option" where
  "wait_error ext what w =
     (case w of
        WaitDone \<Rightarrow> None
      | WaitCtx e \<Rightarrow> Some (EWrap (what @ go_Error ext e) e)
      | WaitConn e \<Rightarrow> Some e
      | WaitTransport e \<Rightarrow> Some e)"

text \<open>Everything before the request stream is opened: the request to send.\<close>

definition dial_checks ::
  "httpsfv \<Rightarrow> (go_error \<Rightarrow> string) \<Rightarrow> dial_env \<Rightarrow> string \<Rightarrow> http_Header option \<Rightarrow> ('b, 'u) ClientConn
     \<Rightarrow> go_error + http_Request" where
  "dial_checks sfv ext env host reqHdr c =
     (case dial_request sfv ext (cc_applicationProtocols c) host reqHdr of
        Inl err \<Rightarrow> Inl err
      | Inr req \<Rightarrow>
          (case wait_error ext ''error waiting for QUIC handshake: '' (de_handshake env) of
             Some err \<Rightarrow> Inl err
           | None \<Rightarrow>
               (case check_connection (de_state env) of
                  Some err \<Rightarrow> Inl err
                | None \<Rightarrow>
                    (case wait_error ext ''error waiting for HTTP/3 settings: '' (de_settingsWait env) of
                       Some err \<Rightarrow> Inl err
                     | None \<Rightarrow>
                         (case check_settings (de_settings env) of Some err \<Rightarrow> Inl err | None \<Rightarrow> Inr req)))))"

text \<open>The response: the protocol, or the error the session is rejected with.\<close>

definition dial_protocol ::
  "httpsfv \<Rightarrow> (go_error \<Rightarrow> string) \<Rightarrow> (string \<Rightarrow> string) \<Rightarrow> string list \<Rightarrow> http_Header \<Rightarrow> go_error + string" where
  "dial_protocol sfv ext quoted protocols h =
     (case h (CanonicalHeaderKey wtProtocolHeader) of
        None \<Rightarrow> Inr ''''
      | Some vs \<Rightarrow> negotiateProtocol sfv ext quoted protocols vs)"

text \<open>\<open>dial\<close>: the response, the session or an error, and what it did.\<close>

definition dial ::
  "quicvarint \<Rightarrow> httpsfv \<Rightarrow> (go_error \<Rightarrow> string) \<Rightarrow> (string \<Rightarrow> string) \<Rightarrow> dial_env \<Rightarrow> string \<Rightarrow> http_Header option
     \<Rightarrow> ('b, 'u) ClientConn
     \<Rightarrow> ((http_Response option \<times> (go_error + Session)) \<times> ('b, 'u) dial_effect list) \<times> ('b, 'u) ClientConn" where
  "dial qv sfv ext quoted env host reqHdr c =
     (case dial_checks sfv ext env host reqHdr c of
        Inl err \<Rightarrow> (((None, Inl err), []), c)
      | Inr req \<Rightarrow>
          (case de_OpenRequestStream env of
             Inl err \<Rightarrow> (((None, Inl err), []), c)
           | Inr streamID \<Rightarrow>
               (case de_SendRequestHeader env of
                  Some err \<Rightarrow> (((None, Inl err), [SendRequest req, CancelRequest]), c)
                | None \<Rightarrow>
                    (case de_ReadResponse env of
                       Inl err \<Rightarrow> (((None, Inl err), [SendRequest req, CancelRequest]), c)
                     | Inr rsp \<Rightarrow>
                         if rsp_StatusCode rsp < 200 \<or> rsp_StatusCode rsp \<ge> 300
                         then (((Some rsp, Inl (ENew (''received status '' @ show_int (rsp_StatusCode rsp)))),
                                [SendRequest req, CloseRequest]), c)
                         else
                           case dial_protocol sfv ext quoted (cc_applicationProtocols c) (rsp_Header rsp) of
                             Inl err \<Rightarrow>
                               let msg = go_Error ext err;
                                   sessErr = ESession \<lparr>sess_Remote = False, sess_ErrorCode = WTALPNErrorCode, sess_Message = msg\<rparr>
                               in (((Some rsp, Inl sessErr),
                                    [SendRequest req,
                                     RejectSession (closeSessionStream qv (de_TryWriteAll env)
                                       \<lparr>cs_ErrorCode = WTALPNErrorCode, cs_Message = msg\<rparr>)]), c)
                           | Inr protocol \<Rightarrow>
                               let sess = newSession streamID protocol (Config_sessionFlowControl (cc_config c) (Some (de_settings env)));
                                   (es, mgr) = sm_AddSession streamID sess (cc_sessMgr c)
                               in (((Some rsp, Inr sess), [SendRequest req, ClientManager es]), c\<lparr>cc_sessMgr := mgr\<rparr>)))))"

definition ClientConn_Dial ::
  "(string \<Rightarrow> go_error + string) \<Rightarrow> quicvarint \<Rightarrow> httpsfv \<Rightarrow> (go_error \<Rightarrow> string) \<Rightarrow> (string \<Rightarrow> string) \<Rightarrow> dial_env \<Rightarrow> string
     \<Rightarrow> http_Header option \<Rightarrow> ('b, 'u) ClientConn
     \<Rightarrow> ((http_Response option \<times> (go_error + Session)) \<times> ('b, 'u) dial_effect list) \<times> ('b, 'u) ClientConn" where
  "ClientConn_Dial parseURL qv sfv ext quoted env urlStr reqHdr c =
     (case parseURL urlStr of
        Inl err \<Rightarrow> (((None, Inl err), []), c)
      | Inr host \<Rightarrow> dial qv sfv ext quoted env host reqHdr c)"

section \<open>Dialling a connection for one session\<close>

datatype ('b, 'u) transport_effect =
    DialEffects "('b, 'u) dial_effect list"
  | CloseQUIC u64 string                            \<comment> \<open>\<open>qconn.CloseWithError\<close>\<close>
  | CloseQUICAfterSession                           \<comment> \<open>\<open>CloseWithError(ErrCodeNoError, "")\<close> once the session's context is done\<close>

definition default_quic_Config :: quic_Config where
  "default_quic_Config = \<lparr>qc_EnableDatagrams = True, qc_EnableStreamResetPartialDelivery = True\<rparr>"

definition check_quicConfig :: "quic_Config option \<Rightarrow> go_error + quic_Config" where
  "check_quicConfig cfg =
     (case cfg of
        None \<Rightarrow> Inr default_quic_Config
      | Some q \<Rightarrow>
          if \<not> qc_EnableDatagrams q
          then Inl (ENew ''webtransport: DATAGRAM support required, enable it via QUICConfig.EnableDatagrams'')
          else if \<not> qc_EnableStreamResetPartialDelivery q
          then Inl (ENew ''webtransport: stream reset partial delivery required, enable it via QUICConfig.EnableStreamResetPartialDelivery'')
          else Inr q)"

definition nextProtos :: "string \<Rightarrow> string list option \<Rightarrow> string list" where
  "nextProtos h3 tls = (case tls of None \<Rightarrow> [h3] | Some [] \<Rightarrow> [h3] | Some ps \<Rightarrow> ps)"

text \<open>How the connection is closed when \<open>dial\<close> fails.\<close>

definition dial_close_code :: "u64 \<Rightarrow> go_error \<Rightarrow> u64 \<times> string" where
  "dial_close_code noError err =
     (case as_RequirementsNotMet err of
        Some m \<Rightarrow> (WTRequirementsNotMetErrorCode, m)
      | None \<Rightarrow> (noError, ''''))"

text \<open>
  \<open>Dial\<close>. \<open>dialAddr\<close> is the transport's \<open>DialAddr\<close> or \<open>quic.DialAddrEarly\<close>, with the host, the ALPN
  list and the QUIC configuration; it gives an error or the state of the new connection. \<open>noError\<close>
  is \<open>http3.ErrCodeNoError\<close> and \<open>h3alpn\<close> is \<open>http3.NextProtoH3\<close>.
\<close>

definition Transport_Dial ::
  "(string \<Rightarrow> go_error + string) \<Rightarrow> u64 \<Rightarrow> string \<Rightarrow> (string \<Rightarrow> string list \<Rightarrow> quic_Config \<Rightarrow> go_error + conn_state)
     \<Rightarrow> quicvarint \<Rightarrow> httpsfv \<Rightarrow> (go_error \<Rightarrow> string) \<Rightarrow> (string \<Rightarrow> string) \<Rightarrow> dial_env
     \<Rightarrow> string \<Rightarrow> http_Header option \<Rightarrow> Transport
     \<Rightarrow> ((http_Response option \<times> (go_error + Session)) \<times> ('b, 'u) transport_effect list) \<times> Transport" where
  "Transport_Dial parseURL noError h3alpn dialAddr qv sfv ext quoted env urlStr reqHdr d0 =
     (let d = Transport_init d0
      in case check_quicConfig (tr_QUICConfig d) of
           Inl err \<Rightarrow> (((None, Inl err), []), d)
         | Inr quicConf \<Rightarrow>
             (case parseURL urlStr of
                Inl err \<Rightarrow> (((None, Inl err), []), d)
              | Inr host \<Rightarrow>
                  (case dialAddr host (nextProtos h3alpn (tr_NextProtos d)) quicConf of
                     Inl err \<Rightarrow> (((None, Inl err), []), d)
                   | Inr st \<Rightarrow>
                       (case NewClientConn st d of
                          (Inl err, d1) \<Rightarrow> (((None, Inl err), [CloseQUIC noError '''']), d1)
                        | (Inr c, d1) \<Rightarrow>
                            let (((rsp, res), es), c') = dial qv sfv ext quoted env host reqHdr c
                            in (case res of
                                  Inl err \<Rightarrow>
                                    let (code, msg) = dial_close_code noError err
                                    in (((rsp, Inl err), [DialEffects es, CloseQUIC code msg]), d1)
                                | Inr sess \<Rightarrow> (((rsp, Inr sess), [DialEffects es, CloseQUICAfterSession]), d1))))))"

section \<open>When dialling succeeds\<close>

lemma check_connection_ok [simp]:
  "check_connection st = None \<longleftrightarrow> cst_datagramsRemote st \<and> cst_partialDeliveryRemote st"
  by (simp add: check_connection_def)

lemma check_settings_ok [simp]:
  "check_settings x = None \<longleftrightarrow> EnableExtendedConnect x \<and> EnableDatagrams x
     \<and> (\<exists>m v. Other x = Some m \<and> m settingsWebTransportEnabled = Some v \<and> v \<noteq> 0)"
  by (auto simp: check_settings_def split: option.split)

lemma wait_error_ok [simp]: "wait_error ext what w = None \<longleftrightarrow> w = WaitDone"
  by (simp add: wait_error_def split: dial_wait.split)

lemma wait_error_WaitDone [simp]: "wait_error ext what WaitDone = None"
  by simp

lemma check_requirements:
  "check_connection st = Some e \<Longrightarrow> as_RequirementsNotMet e \<noteq> None"
  "check_settings x = Some e \<Longrightarrow> as_RequirementsNotMet e \<noteq> None"
  by (auto simp: check_connection_def check_settings_def split: option.splits if_splits)

lemma dial_checks_ok:
  "dial_checks sfv ext env host reqHdr c = Inr req \<longleftrightarrow>
     dial_request sfv ext (cc_applicationProtocols c) host reqHdr = Inr req
     \<and> de_handshake env = WaitDone \<and> check_connection (de_state env) = None
     \<and> de_settingsWait env = WaitDone \<and> check_settings (de_settings env) = None"
proof -
  have "dial_checks sfv ext env host reqHdr c = Inr req \<longleftrightarrow>
     dial_request sfv ext (cc_applicationProtocols c) host reqHdr = Inr req
     \<and> wait_error ext ''error waiting for QUIC handshake: '' (de_handshake env) = None
     \<and> check_connection (de_state env) = None
     \<and> wait_error ext ''error waiting for HTTP/3 settings: '' (de_settingsWait env) = None
     \<and> check_settings (de_settings env) = None"
    unfolding dial_checks_def by (auto simp del: check_connection_ok check_settings_ok wait_error_ok
        split: sum.splits option.splits)
  then show ?thesis by simp
qed

text \<open>The protocol the client accepts from a response.\<close>

definition accepts_protocol :: "httpsfv \<Rightarrow> string list \<Rightarrow> http_Header \<Rightarrow> string \<Rightarrow> bool" where
  "accepts_protocol sfv offered h p \<longleftrightarrow>
     (case h (CanonicalHeaderKey wtProtocolHeader) of
        None \<Rightarrow> p = ''''
      | Some vs \<Rightarrow> sfv_UnmarshalItem sfv vs = Inr (SfvString p) \<and> p \<in> set offered)"

lemma dial_protocol_ok: "dial_protocol sfv ext quoted offered h = Inr p \<longleftrightarrow> accepts_protocol sfv offered h p"
  by (auto simp: dial_protocol_def accepts_protocol_def negotiateProtocol_def
      split: option.split sum.split sfv_value.split)


definition dial_ready :: "httpsfv \<Rightarrow> dial_env \<Rightarrow> string list \<Rightarrow> u64 \<Rightarrow> string \<Rightarrow> bool" where
  "dial_ready sfv env offered i p \<longleftrightarrow>
     de_OpenRequestStream env = Inr i \<and> de_SendRequestHeader env = None
     \<and> (\<exists>rsp. de_ReadResponse env = Inr rsp \<and> 200 \<le> rsp_StatusCode rsp \<and> rsp_StatusCode rsp < 300
          \<and> accepts_protocol sfv offered (rsp_Header rsp) p)"

lemma dial_ok_iff:
  "snd (fst (fst (dial qv sfv ext quoted env host reqHdr c))) = Inr sess \<longleftrightarrow>
     (\<exists>req i p. dial_checks sfv ext env host reqHdr c = Inr req \<and> dial_ready sfv env (cc_applicationProtocols c) i p
        \<and> sess = newSession i p (Config_sessionFlowControl (cc_config c) (Some (de_settings env))))"
  unfolding dial_ready_def dial_protocol_ok [symmetric, of _ _ _ _ ext quoted] dial_def Let_def
  by (auto split: sum.split option.split prod.split)

text \<open>The request stream is not left open by a failure.\<close>

definition disposes :: "('b, 'u) dial_effect list \<Rightarrow> bool" where
  "disposes es \<longleftrightarrow> (case rev es of CancelRequest # _ \<Rightarrow> True | CloseRequest # _ \<Rightarrow> True | RejectSession _ # _ \<Rightarrow> True | _ \<Rightarrow> False)"

lemma dial_failed:
  assumes "dial qv sfv ext quoted env host reqHdr c = (((rsp, Inl err), es), c')"
  shows "c' = c \<and> (if isl (dial_checks sfv ext env host reqHdr c) \<or> isl (de_OpenRequestStream env) then es = [] else disposes es)"
proof -
  define P where "P = (\<lambda>x :: ((http_Response option \<times> (go_error + Session)) \<times> ('a, 'b) dial_effect list) \<times> ('a, 'b) ClientConn.
    isl (snd (fst (fst x))) \<longrightarrow> snd x = c \<and> (if isl (dial_checks sfv ext env host reqHdr c) \<or> isl (de_OpenRequestStream env)
      then snd (fst x) = [] else disposes (snd (fst x))))"
  have "P (dial qv sfv ext quoted env host reqHdr c)"
    unfolding P_def dial_def Let_def by (simp add: disposes_def split: sum.split option.split prod.split)
  with assms show ?thesis by (auto simp: P_def)
qed

text \<open>
  C21. Dialling succeeds exactly if every requirement holds: the request can be built, the QUIC
  handshake completed, the server supports QUIC datagrams and stream resets with partial delivery,
  its SETTINGS arrived and enable Extended CONNECT, HTTP/3 datagrams and WebTransport with a
  non-zero value, the request stream was opened and answered with a 2xx status, and the WT-Protocol
  header is absent or names a protocol the client offered. The session has the ID of the request
  stream, that protocol, and the flow control that follows from both sides' settings.
\<close>

theorem dial_succeeds_iff:
  "snd (fst (fst (dial qv sfv ext quoted env host reqHdr c))) = Inr sess \<longleftrightarrow>
     (\<exists>req m v i rsp p.
        dial_request sfv ext (cc_applicationProtocols c) host reqHdr = Inr req
        \<and> de_handshake env = WaitDone \<and> cst_datagramsRemote (de_state env) \<and> cst_partialDeliveryRemote (de_state env)
        \<and> de_settingsWait env = WaitDone \<and> EnableExtendedConnect (de_settings env) \<and> EnableDatagrams (de_settings env)
        \<and> Other (de_settings env) = Some m \<and> m settingsWebTransportEnabled = Some v \<and> v \<noteq> 0
        \<and> de_OpenRequestStream env = Inr i \<and> de_SendRequestHeader env = None \<and> de_ReadResponse env = Inr rsp
        \<and> 200 \<le> rsp_StatusCode rsp \<and> rsp_StatusCode rsp < 300
        \<and> accepts_protocol sfv (cc_applicationProtocols c) (rsp_Header rsp) p
        \<and> sess = newSession i p (Config_sessionFlowControl (cc_config c) (Some (de_settings env))))"
  unfolding dial_ok_iff dial_checks_ok dial_ready_def by simp blast

text \<open>
  A failed dial leaves nothing behind: the client connection is unchanged, no session is
  registered, and the request stream, if it was opened, is cancelled, closed, or closed with a
  WT_CLOSE_SESSION capsule.
\<close>

theorem failed_dial_releases_request:
  assumes "dial qv sfv ext quoted env host reqHdr c = (((rsp, Inl err), es), c')"
  shows "c' = c
    \<and> (isl (dial_checks sfv ext env host reqHdr c) \<or> isl (de_OpenRequestStream env) \<longrightarrow> es = [])
    \<and> (\<not> isl (dial_checks sfv ext env host reqHdr c) \<and> \<not> isl (de_OpenRequestStream env) \<longrightarrow> disposes es)"
  using dial_failed [OF assms] by (simp split: if_splits)

section \<open>What becomes of the connection\<close>

text \<open>The server was found not to meet a requirement.\<close>

definition lacks_requirements :: "dial_env \<Rightarrow> bool" where
  "lacks_requirements env \<longleftrightarrow>
     de_handshake env = WaitDone
     \<and> (check_connection (de_state env) \<noteq> None
        \<or> de_settingsWait env = WaitDone \<and> check_settings (de_settings env) \<noteq> None)"

lemma lacks_requirements_error:
  assumes "lacks_requirements env" "\<not> isl (dial_request sfv ext (cc_applicationProtocols c) host reqHdr)"
  obtains err m where "dial_checks sfv ext env host reqHdr c = Inl err" "as_RequirementsNotMet err = Some m"
proof -
  obtain req where r: "dial_request sfv ext (cc_applicationProtocols c) host reqHdr = Inr req"
    using assms(2) by (cases "dial_request sfv ext (cc_applicationProtocols c) host reqHdr") auto
  note hs = assms(1) [unfolded lacks_requirements_def]
  show thesis
  proof (cases "check_connection (de_state env)")
    case (Some err)
    with check_requirements(1) [OF Some] obtain m where "as_RequirementsNotMet err = Some m" by blast
    then show thesis using hs r Some by (intro that [of err m]) (simp_all add: dial_checks_def)
  next
    case None
    then obtain err where e: "check_settings (de_settings env) = Some err" "de_settingsWait env = WaitDone"
      using hs by blast
    with check_requirements(2) [OF e(1)] obtain m where "as_RequirementsNotMet err = Some m" by blast
    then show thesis using hs r None e
      by (intro that [of err m]) (simp_all add: dial_checks_def del: check_connection_ok)
  qed
qed

lemma dial_checks_error:
  "dial_checks sfv ext env host reqHdr c = Inl err \<Longrightarrow> dial qv sfv ext quoted env host reqHdr c = (((None, Inl err), []), c)"
  by (simp add: dial_def)

text \<open>\<open>Transport_Dial\<close> once it has a connection.\<close>

lemma Transport_Dial_connected:
  assumes "check_quicConfig (tr_QUICConfig d) = Inr q" "parseURL urlStr = Inr host"
    "dialAddr host (nextProtos h3alpn (tr_NextProtos d)) q = Inr st"
  shows "Transport_Dial parseURL noError h3alpn dialAddr qv sfv ext quoted env urlStr reqHdr d =
    (case NewClientConn st (Transport_init d) of
       (Inl err, d1) \<Rightarrow> (((None, Inl err), [CloseQUIC noError '''']), d1)
     | (Inr c, d1) \<Rightarrow>
         let (((rsp, res), es), c') = dial qv sfv ext quoted env host reqHdr c
         in (case res of
               Inl err \<Rightarrow>
                 let (code, msg) = dial_close_code noError err
                 in (((rsp, Inl err), [DialEffects es, CloseQUIC code msg]), d1)
             | Inr sess \<Rightarrow> (((rsp, Inr sess), [DialEffects es, CloseQUICAfterSession]), d1)))"
proof -
  have "tr_QUICConfig (Transport_init d) = tr_QUICConfig d" "tr_NextProtos (Transport_init d) = tr_NextProtos d"
    by (simp_all add: Transport_init_def)
  with assms show ?thesis by (simp only: Transport_Dial_def Let_def sum.case)
qed

lemma NewClientConn_cases:
  obtains (refused) m d' where "NewClientConn st d = (Inl (ENew m) :: go_error + ('b, 'u) ClientConn, d')"
      "\<not> cst_datagramsLocal st \<or> \<not> cst_partialDeliveryLocal st"
    | (made) c :: "('b, 'u) ClientConn" and d' where "NewClientConn st d = (Inr c, d')" "cc_applicationProtocols c = tr_ApplicationProtocols d"
        "cst_datagramsLocal st" "cst_partialDeliveryLocal st"
proof -
  have "tr_ApplicationProtocols (Transport_init d) = tr_ApplicationProtocols d" by (simp add: Transport_init_def)
  then show thesis
    using that(2) by (cases "cst_datagramsLocal st"; cases "cst_partialDeliveryLocal st")
      (simp_all add: NewClientConn_def Let_def that(1))
qed


text \<open>
  C22. A connection that \<open>Dial\<close> made is never leaked: when a session is returned, it is closed with
  that session and not before; when an error is returned, it was closed, with WT_REQUIREMENTS_NOT_MET
  and the message of the error if the server lacks a requirement, and without error otherwise.
\<close>

theorem dialled_connection_is_closed:
  fixes es :: "('b, 'u) transport_effect list"
  assumes "check_quicConfig (tr_QUICConfig d) = Inr q" and "parseURL urlStr = Inr host"
    and "dialAddr host (nextProtos h3alpn (tr_NextProtos d)) q = Inr st"
    and "Transport_Dial parseURL noError h3alpn dialAddr qv sfv ext quoted env urlStr reqHdr d = (((rsp, res), es), d')"
  shows "(\<not> isl res \<longrightarrow> (\<exists>des. es = [DialEffects des, CloseQUICAfterSession]))
    \<and> (isl res \<longrightarrow> (\<exists>pre. es = pre @ [CloseQUIC (fst (dial_close_code noError (projl res))) (snd (dial_close_code noError (projl res)))]
          \<and> (\<forall>code msg. CloseQUIC code msg \<notin> set pre)))
    \<and> (lacks_requirements env \<and> cst_datagramsLocal st \<and> cst_partialDeliveryLocal st
         \<and> \<not> isl (dial_request sfv ext (tr_ApplicationProtocols d) host reqHdr) \<longrightarrow>
       isl res \<and> fst (dial_close_code noError (projl res)) = WTRequirementsNotMetErrorCode)"
proof (cases rule: NewClientConn_cases [where 'b = 'b and 'u = 'u, of st "Transport_init d"])
  case (refused m d'')
  with assms(4) [unfolded Transport_Dial_connected [where parseURL = parseURL and dialAddr = dialAddr, OF assms(1-3)]]
  show ?thesis by (auto simp: dial_close_code_def)
next
  case (made c d'')
  have p: "cc_applicationProtocols c = tr_ApplicationProtocols d" using made(2) by (simp add: Transport_init_def)
  obtain rsp1 res1 es1 c1 where D: "dial qv sfv ext quoted env host reqHdr c = (((rsp1, res1), es1), c1)"
    by (metis surj_pair)
  have T: "res = res1 \<and> es = [DialEffects es1, if isl res1
      then CloseQUIC (fst (dial_close_code noError (projl res1))) (snd (dial_close_code noError (projl res1)))
      else CloseQUICAfterSession]"
    using assms(4) [unfolded Transport_Dial_connected [where parseURL = parseURL and dialAddr = dialAddr, OF assms(1-3)] made(1)] D
    by (cases res1; cases "dial_close_code noError (projl res1)") (auto simp: Let_def)
  have "isl res1 \<and> fst (dial_close_code noError (projl res1)) = WTRequirementsNotMetErrorCode"
    if "lacks_requirements env" "\<not> isl (dial_request sfv ext (tr_ApplicationProtocols d) host reqHdr)"
  proof -
    note lr = that(1)
    from that(2) have "\<not> isl (dial_request sfv ext (cc_applicationProtocols c) host reqHdr)" by (simp add: p)
    then obtain err m where e: "dial_checks sfv ext env host reqHdr c = Inl err" "as_RequirementsNotMet err = Some m"
      using lacks_requirements_error [OF lr] by blast
    with D dial_checks_error [OF e(1), of qv quoted] show ?thesis by (auto simp: dial_close_code_def)
  qed
  with T show ?thesis by auto
qed

section \<open>Closing the transport\<close>

definition newTransport :: "Config option \<Rightarrow> string list \<Rightarrow> Transport" where
  "newTransport cfg protocols =
     \<lparr>tr_Config = cfg, tr_NextProtos = None, tr_QUICConfig = None, tr_ApplicationProtocols = protocols,
      tr_StreamReorderingTimeout = 0, tr_inited = False, tr_ctxDone = False\<rparr>"

lemma Transport_init_inited [simp]: "tr_inited (Transport_init d)"
  by (simp add: Transport_init_def)

lemma NewClientConn_inited: "tr_inited (snd (NewClientConn st d))"
  by (simp add: NewClientConn_def Let_def)

lemma NewClientConn_initedD: "NewClientConn st d = (x, d') \<Longrightarrow> tr_inited d'"
  by (metis NewClientConn_inited snd_conv)

lemma Transport_Dial_inited:
  "tr_inited (snd (Transport_Dial parseURL noError h3alpn dialAddr qv sfv ext quoted env urlStr reqHdr d))"
  unfolding Transport_Dial_def Let_def by (auto split: sum.split prod.split dest: NewClientConn_initedD)

text \<open>
  \<open>Transport.Close\<close> panics before the first use of the transport: \<open>ctxCancel\<close> is set by \<open>init\<close>,
  which only \<open>Dial\<close> and \<open>NewClientConn\<close> run, whether they succeed or not.
\<close>

theorem transport_close_before_use_panics:
  "Transport_Close (newTransport cfg protocols) = None
   \<and> Transport_Close (snd (NewClientConn st d)) \<noteq> None
   \<and> Transport_Close (snd (Transport_Dial parseURL noError h3alpn dialAddr qv sfv ext quoted env urlStr reqHdr d)) \<noteq> None"
  by (simp add: Transport_Close_def newTransport_def NewClientConn_inited Transport_Dial_inited)

text \<open>A dial initialises the transport, and one that succeeds has a response with a status that the client accepts.\<close>

definition response_ok :: "http_Response option \<times> (go_error + Session) \<Rightarrow> bool" where
  "response_ok x \<longleftrightarrow> isl (snd x) \<or> (\<exists>r. fst x = Some r \<and> 200 \<le> rsp_StatusCode r \<and> rsp_StatusCode r < 300)"

lemma response_ok_Inl [simp]: "response_ok (rsp, Inl err)"
  by (simp add: response_ok_def)

lemma dial_response: "response_ok (fst (fst (dial qv sfv ext quoted env host reqHdr c)))"
  unfolding dial_def Let_def
  by (simp split: sum.split option.split prod.split) (auto simp: response_ok_def)

lemma dial_responseD: "dial qv sfv ext quoted env host reqHdr c = ((x, es), c') \<Longrightarrow> response_ok x"
  by (metis dial_response fst_conv)

lemma Transport_Dial_response:
  "response_ok (fst (fst (Transport_Dial parseURL noError h3alpn dialAddr qv sfv ext quoted env url hdr d)))"
  unfolding Transport_Dial_def Let_def by (auto split: sum.split prod.split dest: dial_responseD)

section \<open>Examples\<close>

text \<open>A server without HTTP/3 datagrams, and one that answers with status 404.\<close>

definition ex_conn_state :: conn_state where
  "ex_conn_state = \<lparr>cst_datagramsLocal = True, cst_datagramsRemote = True, cst_partialDeliveryLocal = True,
     cst_partialDeliveryRemote = True\<rparr>"

definition ex_env :: "bool \<Rightarrow> int \<Rightarrow> dial_env" where
  "ex_env datagrams status =
     \<lparr>de_handshake = WaitDone, de_state = ex_conn_state, de_settingsWait = WaitDone,
      de_settings = \<lparr>EnableDatagrams = datagrams, EnableExtendedConnect = True, Other = Some [settingsWebTransportEnabled \<mapsto> 1]\<rparr>,
      de_OpenRequestStream = Inr 0, de_SendRequestHeader = None,
      de_ReadResponse = Inr \<lparr>rsp_StatusCode = status, rsp_Header = Map.empty\<rparr>, de_TryWriteAll = None\<rparr>"

definition ex_ClientConn :: "(nat, nat) ClientConn" where
  "ex_ClientConn = \<lparr>cc_AdditionalSettings = Map.empty, cc_sessMgr = newSessionManager (5 * 10 ^ 9),
     cc_config = zero_Config, cc_applicationProtocols = []\<rparr>"

lemma ex_dial_404:
  "dial rfc9000 demo_sfv (\<lambda>_. '''') id (ex_env True 404) ''host'' None ex_ClientConn =
     (((Some \<lparr>rsp_StatusCode = 404, rsp_Header = Map.empty\<rparr>, Inl (ENew (''received status '' @ show_int 404))),
       [SendRequest \<lparr>req_Method = ''CONNECT'', req_Header = Map.empty, req_Proto = protocolHeader, req_Host = ''host''\<rparr>,
        CloseRequest]), ex_ClientConn)"
  by (simp add: dial_def dial_checks_def dial_request_def ex_env_def ex_ClientConn_def ex_conn_state_def
      check_connection_def check_settings_def)

theorem failed_dial_releases_request_witness:
  "disposes (snd (fst (dial rfc9000 demo_sfv (\<lambda>_. '''') id (ex_env True 404) ''host'' None ex_ClientConn)))"
proof -
  have "\<not> isl (dial_checks demo_sfv (\<lambda>_. '''') (ex_env True 404) ''host'' None ex_ClientConn)"
    "\<not> isl (de_OpenRequestStream (ex_env True 404))"
    by (simp_all add: dial_checks_def dial_request_def ex_env_def ex_ClientConn_def ex_conn_state_def
        check_connection_def check_settings_def)
  with failed_dial_releases_request [OF ex_dial_404] ex_dial_404 show ?thesis by simp
qed

theorem dialled_connection_is_closed_witness:
  "let x = Transport_Dial (\<lambda>u. Inr u) 0x100 ''h3'' (\<lambda>_ _ _. Inr ex_conn_state) rfc9000 demo_sfv (\<lambda>_. '''') id
         (ex_env False 200) ''host'' None (newTransport None [])
   in isl (snd (fst (fst x)))
      \<and> (\<exists>msg. CloseQUIC WTRequirementsNotMetErrorCode msg \<in> set (snd (fst x) :: (nat, nat) transport_effect list))"
proof -
  let ?x = "Transport_Dial (\<lambda>u. Inr u) 0x100 ''h3'' (\<lambda>_ _ _. Inr ex_conn_state) rfc9000 demo_sfv (\<lambda>_. '''') id
         (ex_env False 200) ''host'' None (newTransport None [])
     :: ((http_Response option \<times> (go_error + Session)) \<times> (nat, nat) transport_effect list) \<times> Transport"
  obtain rsp res es d' where x: "?x = (((rsp, res), es), d')" by (metis surj_pair)
  have q: "check_quicConfig (tr_QUICConfig (newTransport None [])) = Inr default_quic_Config"
    by (simp add: newTransport_def check_quicConfig_def)
  have "lacks_requirements (ex_env False 200)" "cst_datagramsLocal ex_conn_state" "cst_partialDeliveryLocal ex_conn_state"
    "\<not> isl (dial_request demo_sfv (\<lambda>_. '''') (tr_ApplicationProtocols (newTransport None [])) ''host'' None)"
    by (simp_all add: lacks_requirements_def ex_env_def ex_conn_state_def newTransport_def dial_request_def)
  with dialled_connection_is_closed [OF q refl refl x] show ?thesis unfolding Let_def x by auto
qed

end
