(* ===== verification/WT_CapsuleQueue.thy ===== *)
theory WT_CapsuleQueue
  imports WT_Session
begin

text \<open>
  The capsule queue and its writer (\<open>writeToConnectStream\<close>, \<open>queueCapsule\<close> and \<open>closeWithError\<close> of
  \<open>session.go\<close>) under concurrency. One goroutine writes; any number of goroutines queue capsules
  and try to close the session. Each critical section is one step, between \<open>queueCapsule\<close>'s append
  and its notification, and between the sections of \<open>closeWithError\<close>, others can run.

  The theorems: the queue is bounded; capsules are written in the order they were queued, each
  once; no notification is lost; a close capsule is written by the writer in a bounded number of
  its steps, after which nothing is written.
\<close>

section \<open>The writer\<close>

datatype writer_pc =
    WrWait                 \<comment> \<open>in the \<open>select\<close>\<close>
  | WrLoop                 \<comment> \<open>at the top of the inner loop\<close>
  | WrWriting capsule      \<comment> \<open>in \<open>str.Write\<close>\<close>
  | WrPop                  \<comment> \<open>wrote the capsule, before it removes it from the queue\<close>
  | WrCheck                \<comment> \<open>after an error, when the session was closed already\<close>
  | WrClosing closeSessionCapsule
  | WrDone

text \<open>The section at the top of the inner loop.\<close>

definition writer_next :: "Session \<Rightarrow> writer_pc" where
  "writer_next s =
     (case ses_pendingCloseCapsule s of
        Some c \<Rightarrow> WrClosing c
      | None \<Rightarrow> (case ses_capsuleQueue s of [] \<Rightarrow> WrWait | c # _ \<Rightarrow> WrWriting c))"

text \<open>After a successful write.\<close>

definition writer_pop :: "Session \<Rightarrow> Session" where
  "writer_pop s = s\<lparr>ses_capsuleQueue := tl (ses_capsuleQueue s)\<rparr>"

text \<open>
  After an error, with \<open>n\<close> bytes written: the CONNECT stream is reset if a part of a capsule was
  written; then \<open>closeWithError\<close> is called, and what follows depends on whether it was the first call.
\<close>

definition writer_failed_calls :: "nat \<Rightarrow> connect_call list" where
  "writer_failed_calls n =
     (if n > 0 then [CCancelRead WTSessionGoneErrorCode, CCancelWrite WTSessionGoneErrorCode] else [])"

definition writer_failed :: "nat \<Rightarrow> bool \<Rightarrow> writer_pc" where
  "writer_failed n first = (if n > 0 \<or> first then WrDone else WrCheck)"

definition writer_check :: "Session \<Rightarrow> writer_pc" where
  "writer_check s = (if ses_pendingCloseCapsule s \<noteq> None then WrLoop else WrDone)"

section \<open>Interleaving\<close>

text \<open>
  \<open>cq_closer\<close>: the one goroutine whose \<open>closeWithError\<close> was the first, with its arguments and
  whether it is before or after the section under \<open>capsuleQueueMx\<close>. \<open>cq_notifiers\<close> counts \<open>queueCapsule\<close> calls
  between append and notification. \<open>cq_queued\<close> and \<open>cq_written\<close> record the capsules appended and
  written, \<open>cq_cleared\<close> that the queue was emptied by a close.
\<close>

datatype closer =
    NoCloser
  | ClosingMaps go_error "closeSessionCapsule option"
  | ClosingFinish go_error "closeSessionCapsule option"

record cq_state =
  cq_s :: Session
  cq_writer :: writer_pc
  cq_closer :: closer
  cq_notifiers :: nat
  cq_queued :: "capsule list"
  cq_written :: "capsule list"
  cq_cleared :: bool

definition start_close :: "go_error \<Rightarrow> closeSessionCapsule option \<Rightarrow> cq_state \<Rightarrow> bool \<times> cq_state" where
  "start_close e c x =
     (let (first, s) = closeWithError_first e (cq_s x)
      in (first, x\<lparr>cq_s := s, cq_closer := (if first then ClosingMaps e c else cq_closer x)\<rparr>))"

text \<open>When the writer returns, its deferred \<open>ctxCancel\<close> runs.\<close>

definition writer_goto :: "writer_pc \<Rightarrow> cq_state \<Rightarrow> cq_state" where
  "writer_goto p x = x\<lparr>cq_writer := p,
     cq_s := (if p = WrDone then (cq_s x)\<lparr>ses_ctxDone := True\<rparr> else cq_s x)\<rparr>"

inductive writer_step :: "cq_state \<Rightarrow> cq_state \<Rightarrow> bool" where
  wr_ctx: "cq_writer x = WrWait \<Longrightarrow> ses_ctxDone (cq_s x) \<Longrightarrow> writer_step x (writer_goto WrDone x)"
| wr_wake: "cq_writer x = WrWait \<Longrightarrow> ses_capsuleQueueUpdated (cq_s x) \<Longrightarrow>
    writer_step x (writer_goto WrLoop (x\<lparr>cq_s := (cq_s x)\<lparr>ses_capsuleQueueUpdated := False\<rparr>\<rparr>))"
| wr_loop: "cq_writer x = WrLoop \<Longrightarrow> writer_step x (writer_goto (writer_next (cq_s x)) x)"
| wr_wrote: "cq_writer x = WrWriting c \<Longrightarrow>
    writer_step x (writer_goto WrPop (x\<lparr>cq_written := cq_written x @ [c]\<rparr>))"
| wr_pop: "cq_writer x = WrPop \<Longrightarrow> writer_step x (writer_goto WrLoop (x\<lparr>cq_s := writer_pop (cq_s x)\<rparr>))"
| wr_failed: "cq_writer x = WrWriting c \<Longrightarrow> start_close e None x = (first, y) \<Longrightarrow>
    writer_step x (writer_goto (writer_failed n first) y)"
| wr_check: "cq_writer x = WrCheck \<Longrightarrow> writer_step x (writer_goto (writer_check (cq_s x)) x)"
| wr_close: "cq_writer x = WrClosing c \<Longrightarrow> writer_step x (writer_goto WrDone x)"

inductive other_step :: "cq_state \<Rightarrow> cq_state \<Rightarrow> bool" where
  oq_append: "queueCapsule_append c (cq_s x) = (True, s) \<Longrightarrow>
    other_step x (x\<lparr>cq_s := s, cq_notifiers := Suc (cq_notifiers x), cq_queued := cq_queued x @ [c]\<rparr>)"
| oq_full: "queueCapsule_append c (cq_s x) = (False, s) \<Longrightarrow> start_close (queueCapsule_full_error h3) None x = (first, y) \<Longrightarrow>
    other_step x y"
| oq_notify: "0 < cq_notifiers x \<Longrightarrow>
    other_step x (x\<lparr>cq_s := (cq_s x)\<lparr>ses_capsuleQueueUpdated := True\<rparr>, cq_notifiers := cq_notifiers x - 1\<rparr>)"
| oq_close: "start_close e c x = (first, y) \<Longrightarrow> other_step x y"
| oq_close_queue: "cq_closer x = ClosingMaps e c \<Longrightarrow>
    other_step x (x\<lparr>cq_s := closeWithError_queue c (snd (closeWithError_maps e (cq_s x))),
      cq_closer := ClosingFinish e c, cq_cleared := True\<rparr>)"
| oq_close_finish: "cq_closer x = ClosingFinish e c \<Longrightarrow>
    other_step x (x\<lparr>cq_s := snd (closeWithError_finish e c (cq_s x)), cq_closer := NoCloser\<rparr>)"
| oq_ctx: "other_step x (x\<lparr>cq_s := (cq_s x)\<lparr>ses_ctxDone := True\<rparr>\<rparr>)"

inductive cq_step :: "cq_state \<Rightarrow> cq_state \<Rightarrow> bool" where
  "writer_step x y \<Longrightarrow> cq_step x y"
| "other_step x y \<Longrightarrow> cq_step x y"

definition cq_start :: "u64 \<Rightarrow> string \<Rightarrow> sessionFlowControl \<Rightarrow> cq_state \<Rightarrow> bool" where
  "cq_start sid p fc x \<longleftrightarrow> x = \<lparr>cq_s = newSession sid p fc, cq_writer = WrWait, cq_closer = NoCloser, cq_notifiers = 0,
     cq_queued = [], cq_written = [], cq_cleared = False\<rparr>"

section \<open>The invariant\<close>

text \<open>No notification is lost: while there is work, the writer is awake or will be.\<close>

definition wake_inv :: "cq_state \<Rightarrow> bool" where
  "wake_inv x \<longleftrightarrow>
     (cq_writer x = WrWait \<longrightarrow> ses_capsuleQueue (cq_s x) \<noteq> [] \<longrightarrow>
        ses_capsuleQueueUpdated (cq_s x) \<or> 0 < cq_notifiers x)
     \<and> (cq_writer x = WrWait \<longrightarrow> ses_pendingCloseCapsule (cq_s x) \<noteq> None \<longrightarrow>
        ses_capsuleQueueUpdated (cq_s x) \<or> (\<exists>e c. cq_closer x = ClosingFinish e (Some c)))"

definition order_inv :: "cq_state \<Rightarrow> bool" where
  "order_inv x \<longleftrightarrow> length (ses_capsuleQueue (cq_s x)) \<le> maxQueuedOutgoingCapsules
     \<and> (\<not> cq_cleared x \<longrightarrow>
        (case cq_writer x of
           WrPop \<Rightarrow> ses_capsuleQueue (cq_s x) \<noteq> [] \<and> cq_queued x = cq_written x @ tl (ses_capsuleQueue (cq_s x))
         | WrWriting c \<Rightarrow> (\<exists>q. ses_capsuleQueue (cq_s x) = c # q) \<and> cq_queued x = cq_written x @ ses_capsuleQueue (cq_s x)
         | _ \<Rightarrow> cq_queued x = cq_written x @ ses_capsuleQueue (cq_s x)))"

definition close_inv :: "cq_state \<Rightarrow> bool" where
  "close_inv x \<longleftrightarrow>
     (if cq_cleared x then ses_closeErr (cq_s x) \<noteq> None else ses_pendingCloseCapsule (cq_s x) = None)
     \<and> (case cq_closer x of
          NoCloser \<Rightarrow> True
        | ClosingMaps e c \<Rightarrow> \<not> cq_cleared x \<and> ses_closeErr (cq_s x) \<noteq> None
        | ClosingFinish e c \<Rightarrow> cq_cleared x \<and> ses_pendingCloseCapsule (cq_s x) = c)
     \<and> (cq_writer x = WrDone \<longrightarrow> ses_ctxDone (cq_s x))"

lemma maps_frame [simp]:
  "ses_capsuleQueue (snd (closeWithError_maps e s)) = ses_capsuleQueue s"
  "ses_closeErr (snd (closeWithError_maps e s)) = ses_closeErr s"
  "ses_capsuleQueueUpdated (snd (closeWithError_maps e s)) = ses_capsuleQueueUpdated s"
  "ses_ctxDone (snd (closeWithError_maps e s)) = ses_ctxDone s"
  by (simp_all add: closeWithError_maps_def Let_def split: prod.split)

text \<open>Starting to close changes only the error and the closer.\<close>

lemma start_close_cases:
  assumes "start_close e c x = (first, y)"
  obtains "first" "ses_closeErr (cq_s x) = None"
      "y = x\<lparr>cq_s := (cq_s x)\<lparr>ses_closeErr := Some e\<rparr>, cq_closer := ClosingMaps e c\<rparr>"
    | "\<not> first" "ses_closeErr (cq_s x) \<noteq> None" "y = x"
  using assms by (auto simp: start_close_def closeWithError_first_def split: if_splits)

lemmas writer_defs = writer_goto_def writer_next_def writer_pop_def writer_failed_def writer_check_def

lemma close_inv_start_close: "start_close e c x = (first, y) \<Longrightarrow> close_inv x \<Longrightarrow> close_inv y"
  by (erule start_close_cases) (auto simp: close_inv_def)

lemma order_inv_start_close: "start_close e c x = (first, y) \<Longrightarrow> order_inv x \<Longrightarrow> order_inv y"
  by (erule start_close_cases) (auto simp: order_inv_def split: writer_pc.splits)

lemma wake_inv_start_close: "start_close e c x = (first, y) \<Longrightarrow> close_inv x \<Longrightarrow> wake_inv x \<Longrightarrow> wake_inv y"
  by (erule start_close_cases) (auto simp: wake_inv_def close_inv_def)

lemma close_inv_writer: "writer_step x y \<Longrightarrow> close_inv x \<Longrightarrow> close_inv y"
proof (induction rule: writer_step.induct)
  case (wr_failed x c e first y n)
  have "close_inv y" by (rule close_inv_start_close [OF wr_failed(2,3)])
  then show ?case by (auto simp: close_inv_def writer_goto_def split: closer.splits if_splits)
qed (auto simp: close_inv_def writer_goto_def writer_pop_def split: closer.splits)

lemma order_inv_writer: "writer_step x y \<Longrightarrow> order_inv x \<Longrightarrow> order_inv y"
proof (induction rule: writer_step.induct)
  case (wr_failed x c e first y n)
  have "order_inv y" by (rule order_inv_start_close [OF wr_failed(2,3)])
  moreover have "cq_writer y = WrWriting c" using wr_failed(1,2) by (auto elim: start_close_cases)
  ultimately show ?case by (simp add: order_inv_def writer_goto_def writer_failed_def)
next
  case (wr_pop x)
  then show ?case by (auto simp: order_inv_def writer_goto_def writer_pop_def)
next
  case (wr_wrote x c)
  then show ?case by (auto simp: order_inv_def writer_goto_def)
next
  case (wr_check x)
  then show ?case by (auto simp: order_inv_def writer_goto_def writer_check_def)
qed (auto simp: order_inv_def writer_goto_def writer_next_def split: option.splits list.splits)

lemma wake_inv_writer: "writer_step x y \<Longrightarrow> wake_inv x \<Longrightarrow> wake_inv y"
proof (induction rule: writer_step.induct)
  case (wr_failed x c e first y n)
  then show ?case by (simp add: wake_inv_def writer_goto_def writer_failed_def)
qed (auto simp: wake_inv_def writer_goto_def writer_next_def writer_check_def split: option.splits list.splits)

lemma close_inv_other: "other_step x y \<Longrightarrow> close_inv x \<Longrightarrow> close_inv y"
proof (induction rule: other_step.induct)
  case (oq_append c x s)
  then show ?case by (auto simp: close_inv_def queueCapsule_append_def split: if_splits closer.splits)
next
  case (oq_close_finish x e c)
  then show ?case by (auto simp: close_inv_def closeWithError_finish_def split: option.splits)
next
  case (oq_full c x s h3 first y)
  then show ?case by (auto intro: close_inv_start_close)
next
  case (oq_close e c x first y)
  then show ?case by (auto intro: close_inv_start_close)
qed (auto simp: close_inv_def closeWithError_queue_def split: closer.splits if_splits)

lemma order_inv_other: "other_step x y \<Longrightarrow> order_inv x \<Longrightarrow> order_inv y"
proof (induction rule: other_step.induct)
  case (oq_append c x s)
  then have "s = (cq_s x)\<lparr>ses_capsuleQueue := ses_capsuleQueue (cq_s x) @ [c]\<rparr>"
      "length (ses_capsuleQueue (cq_s x)) < maxQueuedOutgoingCapsules"
    by (auto simp: queueCapsule_append_def split: if_splits)
  with oq_append(2) show ?case by (auto simp: order_inv_def split: writer_pc.splits)
next
  case (oq_close_finish x e c)
  then show ?case by (auto simp: order_inv_def closeWithError_finish_def split: option.splits writer_pc.splits)
next
  case (oq_close_queue x e c)
  then show ?case by (simp add: order_inv_def closeWithError_queue_def)
next
  case (oq_full c x s h3 first y)
  then show ?case by (auto intro: order_inv_start_close)
next
  case (oq_close e c x first y)
  then show ?case by (auto intro: order_inv_start_close)
qed (auto simp: order_inv_def split: writer_pc.splits)

lemma wake_inv_other: "other_step x y \<Longrightarrow> close_inv x \<Longrightarrow> wake_inv x \<Longrightarrow> wake_inv y"
proof (induction rule: other_step.induct)
  case (oq_append c x s)
  then show ?case by (auto simp: wake_inv_def queueCapsule_append_def split: if_splits)
next
  case (oq_close_finish x e c)
  then show ?case by (auto simp: wake_inv_def close_inv_def closeWithError_finish_def split: option.splits)
next
  case (oq_close_queue x e c)
  then show ?case by (auto simp: wake_inv_def closeWithError_queue_def)
next
  case (oq_full c x s h3 first y)
  then show ?case by (auto intro: wake_inv_start_close)
next
  case (oq_close e c x first y)
  then show ?case by (auto intro: wake_inv_start_close)
qed (simp_all add: wake_inv_def)

definition cq_inv :: "cq_state \<Rightarrow> bool" where
  "cq_inv x \<longleftrightarrow> wake_inv x \<and> order_inv x \<and> close_inv x"

lemma cq_inv_step: "cq_step x y \<Longrightarrow> cq_inv x \<Longrightarrow> cq_inv y"
  by (erule cq_step.cases)
    (simp_all add: cq_inv_def close_inv_writer order_inv_writer wake_inv_writer
      close_inv_other order_inv_other wake_inv_other)

lemma cq_inv_reach: "reach (cq_start sid p fc) cq_step x \<Longrightarrow> cq_inv x"
proof (erule reach_invariant)
  show "cq_inv x" if "cq_start sid p fc x" for x
    using that by (simp add: cq_start_def cq_inv_def wake_inv_def order_inv_def close_inv_def newSession_def Let_def)
qed (rule cq_inv_step)


section \<open>What it means\<close>

text \<open>
  C17. The capsule queue never holds more than 4096 capsules, and as long as the session is open the
  capsules written to the CONNECT stream are, in order and each exactly once, the first ones that
  were queued: what is missing is at the end of the queue.
\<close>

theorem capsules_written_in_order:
  assumes "reach (cq_start sid p fc) cq_step x"
  shows "length (ses_capsuleQueue (cq_s x)) \<le> 4096
    \<and> (ses_closeErr (cq_s x) = None \<longrightarrow>
        (\<exists>rest. cq_queued x = cq_written x @ rest \<and> suffix rest (ses_capsuleQueue (cq_s x))))"
proof -
  have inv: "order_inv x" "close_inv x" using cq_inv_reach [OF assms] by (simp_all add: cq_inv_def)
  from inv(1) have "length (ses_capsuleQueue (cq_s x)) \<le> 4096"
    by (simp add: order_inv_def maxQueuedOutgoingCapsules_def)
  moreover have "\<exists>rest. cq_queued x = cq_written x @ rest \<and> suffix rest (ses_capsuleQueue (cq_s x))"
    if "ses_closeErr (cq_s x) = None"
  proof -
    from inv(2) that have "\<not> cq_cleared x" by (auto simp: close_inv_def split: if_splits)
    with inv(1) have "cq_queued x = cq_written x @ ses_capsuleQueue (cq_s x)
        \<or> cq_queued x = cq_written x @ tl (ses_capsuleQueue (cq_s x))"
      by (auto simp: order_inv_def split: writer_pc.splits)
    then show ?thesis using suffix_tl by blast
  qed
  ultimately show ?thesis by blast
qed

text \<open>
  C18. No notification is lost: when no call of \<open>queueCapsule\<close> or \<open>closeWithError\<close> is in progress and
  there is something to write, a capsule or the close capsule, then the writer is not asleep: the
  channel holds a notification for it.
\<close>

theorem capsule_writer_is_notified:
  assumes "reach (cq_start sid p fc) cq_step x" and "cq_notifiers x = 0" and "cq_closer x = NoCloser"
    and "cq_writer x = WrWait"
    and "ses_capsuleQueue (cq_s x) \<noteq> [] \<or> ses_pendingCloseCapsule (cq_s x) \<noteq> None"
  shows "ses_capsuleQueueUpdated (cq_s x)"
  using cq_inv_reach [OF assms(1)] assms(2-) by (auto simp: cq_inv_def wake_inv_def)

fun writer_rank :: "writer_pc \<Rightarrow> nat" where
  "writer_rank WrDone = 0"
| "writer_rank (WrClosing c) = 1"
| "writer_rank WrLoop = 2"
| "writer_rank WrPop = 3"
| "writer_rank WrCheck = 3"
| "writer_rank WrWait = 3"
| "writer_rank (WrWriting c) = 4"

lemma start_close_closed: "ses_closeErr (cq_s x) \<noteq> None \<Longrightarrow> start_close e c x = (first, y) \<Longrightarrow> y = x \<and> \<not> first"
  by (erule start_close_cases) auto

lemma writer_rank_step:
  assumes "writer_step x y" "ses_pendingCloseCapsule (cq_s x) = Some c" "ses_closeErr (cq_s x) \<noteq> None"
  shows "writer_rank (cq_writer y) < writer_rank (cq_writer x) \<and> cq_closer y = cq_closer x
    \<and> ses_pendingCloseCapsule (cq_s y) = Some c"
  using assms
proof cases
  case (wr_failed d e first z n)
  from start_close_closed [OF assms(3) wr_failed(3)] wr_failed assms(2) show ?thesis
    by (auto simp: writer_goto_def writer_failed_def)
qed (auto simp: writer_defs)

lemma other_pending_step:
  assumes "other_step x y" "ses_closeErr (cq_s x) \<noteq> None" "cq_closer x = NoCloser"
  shows "cq_writer y = cq_writer x \<and> cq_closer y = NoCloser
    \<and> ses_pendingCloseCapsule (cq_s y) = ses_pendingCloseCapsule (cq_s x)"
  using assms
proof cases
  case (oq_full c s h3 first)
  from start_close_closed [OF assms(2) oq_full(2)] assms(3) show ?thesis by simp
next
  case (oq_close e c first)
  from start_close_closed [OF assms(2) oq_close(1)] assms(3) show ?thesis by simp
qed (auto simp: queueCapsule_append_def split: if_splits)

text \<open>
  C19. \<open>CloseWithError\<close> does not hang: once its close capsule is set and its notification sent, the
  writer is never stuck and returns after at most four of its own steps, whatever other goroutines
  queue or close in the meantime and whatever its writes return; when it has returned, the
  session's context, which \<open>CloseWithError\<close> waits for, is done.
\<close>

theorem close_with_capsule_terminates:
  assumes "reach (cq_start sid p fc) cq_step x" and "ses_pendingCloseCapsule (cq_s x) = Some c"
    and "cq_closer x = NoCloser"
  shows "writer_rank (cq_writer x) \<le> 4
    \<and> (if cq_writer x = WrDone then ses_ctxDone (cq_s x) else \<exists>y. writer_step x y)
    \<and> (\<forall>y. cq_step x y \<longrightarrow> ses_pendingCloseCapsule (cq_s y) = Some c \<and> cq_closer y = NoCloser
        \<and> writer_rank (cq_writer y) \<le> writer_rank (cq_writer x)
        \<and> (writer_step x y \<longrightarrow> writer_rank (cq_writer y) < writer_rank (cq_writer x)))"
proof -
  have inv: "wake_inv x" "close_inv x" using cq_inv_reach [OF assms(1)] by (simp_all add: cq_inv_def)
  from inv(2) assms(2) have closed: "ses_closeErr (cq_s x) \<noteq> None"
    by (auto simp: close_inv_def split: if_splits)
  have "\<exists>y. writer_step x y" if "cq_writer x \<noteq> WrDone"
  proof (cases "cq_writer x")
    case WrWait
    with inv(1) assms(2,3) have "ses_capsuleQueueUpdated (cq_s x)" by (auto simp: wake_inv_def)
    with WrWait show ?thesis by (blast intro: wr_wake)
  qed (use that in \<open>blast intro: writer_step.intros\<close>)+
  moreover have "cq_writer x = WrDone \<Longrightarrow> ses_ctxDone (cq_s x)" using inv(2) by (simp add: close_inv_def)
  moreover have "writer_rank (cq_writer x) \<le> 4" by (cases "cq_writer x") simp_all
  moreover have "ses_pendingCloseCapsule (cq_s y) = Some c \<and> cq_closer y = NoCloser
        \<and> writer_rank (cq_writer y) \<le> writer_rank (cq_writer x)
        \<and> (writer_step x y \<longrightarrow> writer_rank (cq_writer y) < writer_rank (cq_writer x))" if "cq_step x y" for y
    using that
  proof cases
    case 1
    from writer_rank_step [OF this assms(2) closed] assms(3) show ?thesis by simp
  next
    case 2
    from other_pending_step [OF this closed assms(3)] writer_rank_step [OF _ assms(2) closed, of y] assms(2)
    show ?thesis by auto
  qed
  ultimately show ?thesis by simp
qed

section \<open>An example run\<close>

text \<open>A capsule is queued and notified, and written; then the session is closed with a capsule.\<close>

definition cq0 :: cq_state where
  "cq0 = \<lparr>cq_s = newSession 4 '''' zero_sessionFlowControl, cq_writer = WrWait, cq_closer = NoCloser, cq_notifiers = 0,
     cq_queued = [], cq_written = [], cq_cleared = False\<rparr>"

definition cq1 :: cq_state where
  "cq1 = cq0\<lparr>cq_s := (cq_s cq0)\<lparr>ses_capsuleQueue := [MaxData 1]\<rparr>, cq_notifiers := 1, cq_queued := [MaxData 1]\<rparr>"

definition cq2 :: cq_state where
  "cq2 = cq1\<lparr>cq_s := (cq_s cq1)\<lparr>ses_capsuleQueueUpdated := True\<rparr>, cq_notifiers := 0\<rparr>"

lemma cq0_reach: "reach (cq_start 4 '''' zero_sessionFlowControl) cq_step cq0"
  by (rule reach_init) (simp add: cq_start_def cq0_def)

lemma cq2_reach: "reach (cq_start 4 '''' zero_sessionFlowControl) cq_step cq2"
proof -
  have "queueCapsule_append (MaxData 1) (cq_s cq0) = (True, cq_s cq1)"
    by (simp add: queueCapsule_append_def cq1_def cq0_def newSession_def maxQueuedOutgoingCapsules_def Let_def)
  from oq_append [OF this] have "other_step cq0 cq1" by (simp add: cq1_def cq0_def)
  then have "cq_step cq0 cq1" by (rule cq_step.intros(2))
  then have 1: "reach (cq_start 4 '''' zero_sessionFlowControl) cq_step cq1" by (rule reach_step [OF cq0_reach])
  have "other_step cq1 cq2" using oq_notify [of cq1] by (simp add: cq2_def cq1_def)
  then have "cq_step cq1 cq2" by (rule cq_step.intros(2))
  then show ?thesis by (rule reach_step [OF 1])
qed

theorem capsules_written_in_order_witness: "cq_queued cq2 = [MaxData 1] \<and> length (ses_capsuleQueue (cq_s cq2)) \<le> 4096"
  using capsules_written_in_order [OF cq2_reach] by (simp add: cq2_def cq1_def)

theorem capsule_writer_is_notified_witness: "cq_writer cq2 = WrWait \<and> ses_capsuleQueueUpdated (cq_s cq2)"
  using capsule_writer_is_notified [OF cq2_reach] by (simp add: cq2_def cq1_def cq0_def)

definition cq_e :: go_error where
  "cq_e = ESession \<lparr>sess_Remote = False, sess_ErrorCode = 7, sess_Message = ''bye''\<rparr>"

definition cq_c :: closeSessionCapsule where
  "cq_c = \<lparr>cs_ErrorCode = 7, cs_Message = ''bye''\<rparr>"

definition cq3 :: cq_state where
  "cq3 = snd (start_close cq_e (Some cq_c) cq0)"

definition cq4 :: cq_state where
  "cq4 = cq3\<lparr>cq_s := closeWithError_queue (Some cq_c) (snd (closeWithError_maps cq_e (cq_s cq3))),
      cq_closer := ClosingFinish cq_e (Some cq_c), cq_cleared := True\<rparr>"

definition cq5 :: cq_state where
  "cq5 = cq4\<lparr>cq_s := snd (closeWithError_finish cq_e (Some cq_c) (cq_s cq4)), cq_closer := NoCloser\<rparr>"

lemma cq5_reach: "reach (cq_start 4 '''' zero_sessionFlowControl) cq_step cq5"
proof -
  have "other_step cq0 cq3" by (rule oq_close [of cq_e "Some cq_c" cq0 "fst (start_close cq_e (Some cq_c) cq0)"])
      (simp add: cq3_def)
  then have 3: "reach (cq_start 4 '''' zero_sessionFlowControl) cq_step cq3"
    by (intro reach_step [OF cq0_reach] cq_step.intros(2))
  have "cq_closer cq3 = ClosingMaps cq_e (Some cq_c)"
    by (simp add: cq3_def start_close_def closeWithError_first_def cq0_def newSession_def Let_def)
  from oq_close_queue [OF this] have "other_step cq3 cq4" by (simp add: cq4_def)
  then have 4: "reach (cq_start 4 '''' zero_sessionFlowControl) cq_step cq4"
    by (intro reach_step [OF 3] cq_step.intros(2))
  have "other_step cq4 cq5" using oq_close_finish [of cq4 cq_e "Some cq_c"] by (simp add: cq5_def cq4_def)
  then show ?thesis by (intro reach_step [OF 4] cq_step.intros(2))
qed

theorem close_with_capsule_terminates_witness:
  "ses_pendingCloseCapsule (cq_s cq5) = Some cq_c \<and> cq_writer cq5 = WrWait \<and> (\<exists>y. writer_step cq5 y)"
proof -
  have 1: "ses_pendingCloseCapsule (cq_s cq5) = Some cq_c" "cq_closer cq5 = NoCloser" "cq_writer cq5 = WrWait"
    by (simp_all add: cq5_def cq4_def cq3_def closeWithError_finish_def closeWithError_queue_def start_close_def
        closeWithError_first_def cq0_def newSession_def Let_def)
  from close_with_capsule_terminates [OF cq5_reach 1(1,2)] 1 show ?thesis by simp
qed

end
