(* ===== verification/WT_OutgoingSync.thy ===== *)
theory WT_OutgoingSync
  imports WT_Outgoing
begin

text \<open>
  \<open>OpenStream\<close>, \<open>OpenStreamSync\<close>, \<open>UpdateStreamLimit\<close>, \<open>removeStream\<close> and \<open>CloseSession\<close> running
  concurrently, for any number of goroutines: the step relation \<open>os_step\<close> interleaves the critical
  sections of \<open>WT_Outgoing\<close> in every order the mutex allows. The invariant \<open>os_inv\<close> gives: no
  panic, the peer's limit is respected and no credit is lost, waiting goroutines are served first
  come first served, no wake-up is lost, each limit is reported as blocked at most once, and
  closing leaves no goroutine waiting. The theory \<open>WT_StreamLimits\<close> connects the map with the
  peer's incoming map.
\<close>

section \<open>Goroutines\<close>

text \<open>Where a goroutine is, between two critical sections.\<close>

datatype 't pc =
    PReady "(go_error + 't) option"  \<comment> \<open>no call in progress; the result of the last one\<close>
  | PReport u64                      \<comment> \<open>\<open>OpenStream\<close>: before \<open>queueBlocked\<close>, then returns\<close>
  | PBlocked nat u64                 \<comment> \<open>queued on a channel, before \<open>queueBlocked\<close>\<close>
  | PRelock nat                      \<comment> \<open>queued, before it takes the mutex again\<close>
  | PSelect nat                      \<comment> \<open>in the \<open>select\<close>\<close>
  | PCtxDone nat                     \<comment> \<open>the context was done\<close>
  | PWoken nat                       \<comment> \<open>the channel delivered\<close>
  | PBlocked2 u64                    \<comment> \<open>reserved a stream, before \<open>queueBlocked\<close>\<close>
  | PRelock2                         \<comment> \<open>reserved a stream, before it takes the mutex again\<close>
  | POpening int                     \<comment> \<open>in \<open>openStreamSync(ctx)\<close>, with its cancel function registered\<close>

fun chan_of :: "'t pc \<Rightarrow> nat option" where
  "chan_of (PBlocked c l) = Some c"
| "chan_of (PRelock c) = Some c"
| "chan_of (PSelect c) = Some c"
| "chan_of (PCtxDone c) = Some c"
| "chan_of (PWoken c) = Some c"
| "chan_of _ = None"

fun pend_of :: "'t pc \<Rightarrow> u64 option" where
  "pend_of (PReport l) = Some l"
| "pend_of (PBlocked c l) = Some l"
| "pend_of (PBlocked2 l) = Some l"
| "pend_of _ = None"

fun holds_stream :: "'t pc \<Rightarrow> bool" where
  "holds_stream (PBlocked2 l) = True"
| "holds_stream PRelock2 = True"
| "holds_stream (POpening i) = True"
| "holds_stream _ = False"

record 't os_state =
  os_map :: "'t outgoingStreamsMap"
  os_pc :: "nat \<Rightarrow> 't pc"
  os_ctx :: "nat \<Rightarrow> go_error option"   \<comment> \<open>\<open>ctx.Err()\<close> of the context of the call\<close>
  os_cancel :: "nat \<Rightarrow> bool"           \<comment> \<open>the derived context was cancelled by \<open>CloseSession\<close>\<close>
  os_reported :: "u64 list"            \<comment> \<open>arguments of \<open>queueBlocked\<close>, in order\<close>
  os_opened :: nat                     \<comment> \<open>streams returned to the callers\<close>

text \<open>What \<open>OpenStreamSync\<close> does with the outcome of a section of \<open>waitForStreamLimit\<close>.\<close>

definition sync_next ::
  "int list \<Rightarrow> nat \<Rightarrow> wait_result \<times> 't outgoingStreamsMap \<Rightarrow> ('t pc \<times> 't outgoingStreamsMap) option" where
  "sync_next rands g rm =
     (case rm of
        (WaitErr e, m) \<Rightarrow> Some (PReady (Some (Inl e)), m)
      | (Queued c None, m) \<Rightarrow> Some (PSelect c, m)
      | (Queued c (Some l), m) \<Rightarrow> Some (PBlocked c l, m)
      | (ReservedBlocked l, m) \<Rightarrow> Some (PBlocked2 l, m)
      | (Reserved, m) \<Rightarrow>
          map_option (\<lambda>(i, m'). (POpening i, m')) (addStreamCtxCancel rands g m))"

text \<open>After \<open>queueBlocked\<close> the mutex is taken again and \<open>closeErr\<close> is checked.\<close>

definition relock_result :: "wait_result \<Rightarrow> 't outgoingStreamsMap \<Rightarrow> wait_result \<times> 't outgoingStreamsMap" where
  "relock_result r m = (case osm_closeErr m of Some e \<Rightarrow> WaitErr e | None \<Rightarrow> r, m)"

abbreviation set_pc :: "nat \<Rightarrow> 't pc \<Rightarrow> 't os_state \<Rightarrow> 't os_state" where
  "set_pc g p s \<equiv> s\<lparr>os_pc := (os_pc s)(g := p)\<rparr>"

definition take_token :: "nat \<Rightarrow> 't outgoingStreamsMap \<Rightarrow> 't outgoingStreamsMap" where
  "take_token c m = m\<lparr>osm_chan := (osm_chan m)(c := (osm_chan m c)\<lparr>ch_token := False\<rparr>)\<rparr>"

inductive os_step :: "'t os_state \<Rightarrow> 't os_state \<Rightarrow> bool" where
  step_open: "os_pc s g = PReady r \<Longrightarrow> OpenStream opened (os_map s) = ((res, b), m) \<Longrightarrow>
    os_step s (s\<lparr>os_map := m,
      os_pc := (os_pc s)(g := case b of Some l \<Rightarrow> PReport l | None \<Rightarrow> PReady (Some res)),
      os_opened := (if isl res then os_opened s else Suc (os_opened s))\<rparr>)"
| step_report: "os_pc s g = PReport l \<Longrightarrow>
    os_step s (set_pc g (PReady (Some (Inl EStreamLimitReached))) (s\<lparr>os_reported := os_reported s @ [l]\<rparr>))"
| step_enter: "os_pc s g = PReady r \<Longrightarrow>
    sync_next rands g (openSync_enter ctx (os_map s)) = Some (p, m) \<Longrightarrow>
    os_step s (set_pc g p (s\<lparr>os_map := m, os_ctx := (os_ctx s)(g := ctx), os_cancel := (os_cancel s)(g := False)\<rparr>))"
| step_blocked: "os_pc s g = PBlocked c l \<Longrightarrow>
    os_step s (set_pc g (PRelock c) (s\<lparr>os_reported := os_reported s @ [l]\<rparr>))"
| step_relock: "os_pc s g = PRelock c \<Longrightarrow>
    sync_next rands g (relock_result (Queued c None) (os_map s)) = Some (p, m) \<Longrightarrow>
    os_step s (set_pc g p (s\<lparr>os_map := m\<rparr>))"
| step_ctx: "os_pc s g = PSelect c \<Longrightarrow> os_ctx s g \<noteq> None \<Longrightarrow> os_step s (set_pc g (PCtxDone c) s)"
| step_token: "os_pc s g = PSelect c \<Longrightarrow> ch_token (osm_chan (os_map s) c) \<Longrightarrow>
    os_step s (set_pc g (PWoken c) (s\<lparr>os_map := take_token c (os_map s)\<rparr>))"
| step_closed: "os_pc s g = PSelect c \<Longrightarrow> ch_closed (osm_chan (os_map s) c) \<Longrightarrow>
    os_step s (set_pc g (PWoken c) s)"
| step_cancelled: "os_pc s g = PCtxDone c \<Longrightarrow> os_ctx s g = Some e \<Longrightarrow>
    os_step s (set_pc g (PReady (Some (Inl e))) (s\<lparr>os_map := openSync_cancelled c (os_map s)\<rparr>))"
| step_woken: "os_pc s g = PWoken c \<Longrightarrow>
    sync_next rands g (openSync_woken (os_ctx s g) c (os_map s)) = Some (p, m) \<Longrightarrow>
    os_step s (set_pc g p (s\<lparr>os_map := m\<rparr>))"
| step_blocked2: "os_pc s g = PBlocked2 l \<Longrightarrow>
    os_step s (set_pc g PRelock2 (s\<lparr>os_reported := os_reported s @ [l]\<rparr>))"
| step_relock2: "os_pc s g = PRelock2 \<Longrightarrow>
    sync_next rands g (relock_result Reserved (os_map s)) = Some (p, m) \<Longrightarrow>
    os_step s (set_pc g p (s\<lparr>os_map := m\<rparr>))"
| step_finish: "os_pc s g = POpening i \<Longrightarrow>
    openSync_finish i opened (os_map s) = ((res, cl), m) \<Longrightarrow>
    os_step s (s\<lparr>os_map := m, os_pc := (os_pc s)(g := PReady (Some res)),
      os_opened := (if isl res then os_opened s else Suc (os_opened s))\<rparr>)"
| step_update: "UpdateStreamLimit l (os_map s) = (e, m) \<Longrightarrow> os_step s (s\<lparr>os_map := m\<rparr>)"
| step_remove: "os_step s (s\<lparr>os_map := out_removeStream i (os_map s)\<rparr>)"
| step_close: "out_CloseSession e (os_map s) = ((gs, cl), m) \<Longrightarrow>
    os_step s (s\<lparr>os_map := m, os_cancel := (\<lambda>g. os_cancel s g \<or> g \<in> set gs)\<rparr>)"
| step_cancel: "os_step s (s\<lparr>os_ctx := (os_ctx s)(g := Some e)\<rparr>)"

definition os_start :: "u64 \<Rightarrow> 't os_state \<Rightarrow> bool" where
  "os_start n s \<longleftrightarrow> os_map s = newOutgoingStreamsMap n \<and> (\<forall>g. os_pc s g = PReady None)
     \<and> os_reported s = [] \<and> os_opened s = 0"

inductive_cases os_stepE: "os_step s t"

section \<open>The queue\<close>

text \<open>
  While the session is open, the queue holds exactly the channels of the waiting goroutines.
  Only the head has a token or is awake, and only if there is credit (\<open>woken_ok\<close>); if there is
  credit, the head has a token or is awake (\<open>wake_ok\<close>).
\<close>

abbreviation is_closed :: "'t outgoingStreamsMap \<Rightarrow> bool" where
  "is_closed m \<equiv> osm_closeErr m \<noteq> None"

definition chans_ok :: "'t outgoingStreamsMap \<Rightarrow> (nat \<Rightarrow> 't pc) \<Rightarrow> bool" where
  "chans_ok m pc \<longleftrightarrow>
     (osm_m m = None \<longleftrightarrow> is_closed m) \<and> (is_closed m \<longrightarrow> osm_openQueue m = [])
     \<and> distinct (osm_openQueue m)
     \<and> (\<forall>c \<in> set (osm_openQueue m). c < osm_nextChan m \<and> \<not> ch_closed (osm_chan m c)
           \<and> (\<exists>g. chan_of (pc g) = Some c))
     \<and> (\<forall>g c. chan_of (pc g) = Some c \<longrightarrow> c < osm_nextChan m
           \<and> (if is_closed m then ch_closed (osm_chan m c) else c \<in> set (osm_openQueue m)))
     \<and> (\<forall>g h c. chan_of (pc g) = Some c \<longrightarrow> chan_of (pc h) = Some c \<longrightarrow> g = h)
     \<and> \<not> osm_panic m"

definition has_wakeup :: "'t outgoingStreamsMap \<Rightarrow> (nat \<Rightarrow> 't pc) \<Rightarrow> nat \<Rightarrow> bool" where
  "has_wakeup m pc c \<longleftrightarrow> ch_token (osm_chan m c) \<or> (\<exists>g. pc g = PWoken c)"

definition wake_ok :: "'t outgoingStreamsMap \<Rightarrow> (nat \<Rightarrow> 't pc) \<Rightarrow> bool" where
  "wake_ok m pc \<longleftrightarrow>
     (case osm_openQueue m of
        [] \<Rightarrow> True
      | c # q \<Rightarrow> (has_wakeup m pc c \<longleftrightarrow> osm_numStreams m < osm_maxStreams m)
          \<and> (\<forall>d \<in> set q. \<not> has_wakeup m pc d))"


lemma chans_okD:
  assumes "chans_ok m pc"
  shows "osm_m m = None \<longleftrightarrow> is_closed m" "is_closed m \<Longrightarrow> osm_openQueue m = []" "distinct (osm_openQueue m)"
    "c \<in> set (osm_openQueue m) \<Longrightarrow> c < osm_nextChan m"
    "c \<in> set (osm_openQueue m) \<Longrightarrow> \<not> ch_closed (osm_chan m c)"
    "c \<in> set (osm_openQueue m) \<Longrightarrow> \<exists>g. chan_of (pc g) = Some c"
    "chan_of (pc g) = Some c \<Longrightarrow> c < osm_nextChan m"
    "chan_of (pc g) = Some c \<Longrightarrow> is_closed m \<Longrightarrow> ch_closed (osm_chan m c)"
    "chan_of (pc g) = Some c \<Longrightarrow> \<not> is_closed m \<Longrightarrow> c \<in> set (osm_openQueue m)"
    "chan_of (pc g) = Some c \<Longrightarrow> chan_of (pc h) = Some c \<Longrightarrow> g = h"
    "\<not> osm_panic m"
  using assms unfolding chans_ok_def by (simp_all split: if_splits)

lemma chans_okI:
  assumes "(osm_m m = None \<longleftrightarrow> is_closed m) \<and> (is_closed m \<longrightarrow> osm_openQueue m = [])
      \<and> distinct (osm_openQueue m) \<and> \<not> osm_panic m"
    "\<And>c. c \<in> set (osm_openQueue m) \<Longrightarrow>
      c < osm_nextChan m \<and> \<not> ch_closed (osm_chan m c) \<and> (\<exists>g. chan_of (pc g) = Some c)"
    "\<And>g c. chan_of (pc g) = Some c \<Longrightarrow>
      c < osm_nextChan m \<and> (if is_closed m then ch_closed (osm_chan m c) else c \<in> set (osm_openQueue m))"
    "\<And>g h c. chan_of (pc g) = Some c \<Longrightarrow> chan_of (pc h) = Some c \<Longrightarrow> g = h"
  shows "chans_ok m pc"
  using assms unfolding chans_ok_def by blast

text \<open>Moving a goroutine without changing what it waits on.\<close>

lemma chans_ok_move:
  assumes "chans_ok m pc" "chan_of p = chan_of (pc g)"
  shows "chans_ok m (pc(g := p))"
proof -
  have "chan_of ((pc(g := p)) h) = chan_of (pc h)" for h using assms(2) by simp
  with assms(1) show ?thesis unfolding chans_ok_def by simp
qed

lemma wake_ok_move:
  assumes "wake_ok m pc" "\<And>c. p \<noteq> PWoken c" "\<And>c. pc g \<noteq> PWoken c"
  shows "wake_ok m (pc(g := p))"
proof -
  have "has_wakeup m (pc(g := p)) c = has_wakeup m pc c" for c
    using assms(2,3) by (force simp: has_wakeup_def)
  with assms(1) show ?thesis by (simp add: wake_ok_def split: list.splits)
qed

text \<open>The state of a map that matters for the two predicates.\<close>

lemma chans_ok_cong:
  assumes "chans_ok m pc" "osm_m m' = None \<longleftrightarrow> osm_m m = None" "osm_closeErr m' = osm_closeErr m"
    "osm_openQueue m' = osm_openQueue m" "osm_nextChan m' = osm_nextChan m"
    "\<And>c. ch_closed (osm_chan m' c) = ch_closed (osm_chan m c)" "osm_panic m' = osm_panic m"
  shows "chans_ok m' pc"
  using assms(1) unfolding chans_ok_def assms(2-7) .

lemma wake_ok_cong:
  assumes "wake_ok m pc" "osm_openQueue m' = osm_openQueue m" "osm_chan m' = osm_chan m"
    "osm_numStreams m' = osm_numStreams m" "osm_maxStreams m' = osm_maxStreams m"
  shows "wake_ok m' pc"
  using assms(1) unfolding wake_ok_def has_wakeup_def assms(2-5) .

section \<open>Unblocking the head\<close>

lemma maybeUnblock_fields [simp]:
  "osm_closeErr (maybeUnblockOpenSync m) = osm_closeErr m"
  "osm_openQueue (maybeUnblockOpenSync m) = osm_openQueue m"
  "osm_numStreams (maybeUnblockOpenSync m) = osm_numStreams m"
  "osm_maxStreams (maybeUnblockOpenSync m) = osm_maxStreams m"
  "osm_blockedSent (maybeUnblockOpenSync m) = osm_blockedSent m"
  "osm_streamCtxs (maybeUnblockOpenSync m) = osm_streamCtxs m"
  "osm_m (maybeUnblockOpenSync m) = osm_m m"
  "osm_nextChan (maybeUnblockOpenSync m) = osm_nextChan m"
  "ch_closed (osm_chan (maybeUnblockOpenSync m) c) = ch_closed (osm_chan m c)"
  by (simp_all add: maybeUnblockOpenSync_def split: list.split)

lemma maybeUnblock_chans [intro]:
  assumes "chans_ok m pc"
  shows "chans_ok (maybeUnblockOpenSync m) pc"
proof (rule chans_ok_cong [OF assms])
  show "osm_panic (maybeUnblockOpenSync m) = osm_panic m"
    using chans_okD(5) [OF assms] by (auto simp: maybeUnblockOpenSync_def split: list.split)
qed simp_all

text \<open>
  It is enough that nobody but the head can be awake, and the head only if there is credit:
  \<open>maybeUnblockOpenSync\<close> does the rest.
\<close>

lemma maybeUnblock_wake:
  assumes ok: "chans_ok m pc"
    and q: "\<And>c q d. osm_openQueue m = c # q \<Longrightarrow> d \<in> set q \<Longrightarrow> \<not> has_wakeup m pc d"
    and h: "\<And>c q. osm_openQueue m = c # q \<Longrightarrow> has_wakeup m pc c \<Longrightarrow> osm_numStreams m < osm_maxStreams m"
  shows "wake_ok (maybeUnblockOpenSync m) pc"
proof (cases "osm_openQueue m")
  case (Cons c q)
  from chans_okD(3) [OF ok] Cons have d: "c \<notin> set q" by simp
  from chans_okD(5) [OF ok] Cons have "\<not> ch_closed (osm_chan m c)" by simp
  with Cons have "osm_chan (maybeUnblockOpenSync m) =
      (if osm_numStreams m < osm_maxStreams m then (osm_chan m)(c := (osm_chan m c)\<lparr>ch_token := True\<rparr>)
       else osm_chan m)"
    by (auto simp: maybeUnblockOpenSync_def not_le)
  then have "has_wakeup (maybeUnblockOpenSync m) pc c = (has_wakeup m pc c \<or> osm_numStreams m < osm_maxStreams m)"
    "\<forall>d \<in> set q. has_wakeup (maybeUnblockOpenSync m) pc d = has_wakeup m pc d"
    using d by (auto simp: has_wakeup_def)
  with Cons q h show ?thesis by (auto simp: wake_ok_def)
qed (simp add: wake_ok_def)

lemma wake_okD:
  assumes "wake_ok m pc" "osm_openQueue m = c # q"
  shows "has_wakeup m pc c \<longleftrightarrow> osm_numStreams m < osm_maxStreams m" "d \<in> set q \<Longrightarrow> \<not> has_wakeup m pc d"
  using assms by (auto simp: wake_ok_def)


section \<open>Every section keeps the queue in order\<close>

lemma leave_chans:
  assumes ok: "chans_ok m pc" and c: "chan_of (pc g) = Some c" and p: "chan_of p = None"
    and m': "osm_m m' = None \<longleftrightarrow> osm_m m = None" "osm_closeErr m' = osm_closeErr m"
    "osm_openQueue m' = filter (\<lambda>d. d \<noteq> c) (osm_openQueue m)" "osm_nextChan m' = osm_nextChan m"
    "osm_chan m' = osm_chan m" "osm_panic m' = osm_panic m"
  shows "chans_ok m' (pc(g := p))"
proof -
  have o: "chan_of ((pc(g := p)) h) = Some d \<longleftrightarrow> d \<noteq> c \<and> chan_of (pc h) = Some d" for h d
  proof (cases "h = g")
    case False
    then have "chan_of (pc h) \<noteq> Some c" using chans_okD(10) [OF ok c, of h] by blast
    with False show ?thesis by auto
  qed (auto simp: c p)
  have q: "d \<in> set (osm_openQueue m') \<longleftrightarrow> d \<noteq> c \<and> d \<in> set (osm_openQueue m)" for d
    by (auto simp: m')
  have 1: "(osm_m m' = None \<longleftrightarrow> is_closed m') \<and> (is_closed m' \<longrightarrow> osm_openQueue m' = [])
      \<and> distinct (osm_openQueue m') \<and> \<not> osm_panic m'"
    using chans_okD(1,2,3,11) [OF ok] by (auto simp: m')
  have 2: "d < osm_nextChan m' \<and> \<not> ch_closed (osm_chan m' d) \<and> (\<exists>h. chan_of ((pc(g := p)) h) = Some d)"
    if "d \<in> set (osm_openQueue m')" for d
    using chans_okD(4,5,6) [OF ok] that unfolding o q m'(4,5) by blast
  have 3: "d < osm_nextChan m' \<and> (if is_closed m' then ch_closed (osm_chan m' d) else d \<in> set (osm_openQueue m'))"
    if "chan_of ((pc(g := p)) h) = Some d" for h d
    using chans_okD(7,8,9) [OF ok] that unfolding o q m'(2,4,5) by auto
  have 4: "h = k" if "chan_of ((pc(g := p)) h) = Some d" "chan_of ((pc(g := p)) k) = Some d" for h k d
    using chans_okD(10) [OF ok] that unfolding o by blast
  from 1 2 3 4 show ?thesis by (rule chans_okI)
qed

lemma leave_wakeup:
  assumes "chan_of (pc g) = Some c" "chan_of p = None" "d \<noteq> c" "osm_chan m' = osm_chan m"
  shows "has_wakeup m' (pc(g := p)) d = has_wakeup m pc d"
proof -
  have "(pc(g := p)) h = PWoken d \<longleftrightarrow> pc h = PWoken d" for h
    using assms(1-3) by (cases "h = g") auto
  then show ?thesis by (simp add: has_wakeup_def assms(4))
qed

lemma cancelled_ok:
  assumes ok: "chans_ok m pc" and w: "wake_ok m pc" and c: "chan_of (pc g) = Some c" and p: "chan_of p = None"
  shows "chans_ok (openSync_cancelled c m) (pc(g := p)) \<and> wake_ok (openSync_cancelled c m) (pc(g := p))"
proof -
  let ?m = "m\<lparr>osm_openQueue := filter (\<lambda>d. d \<noteq> c) (osm_openQueue m)\<rparr>"
  have ok': "chans_ok ?m (pc(g := p))" by (rule leave_chans [OF ok c p]) simp_all
  note wk = leave_wakeup [where pc = pc and g = g, OF c p, of _ ?m m]
  have "wake_ok (maybeUnblockOpenSync ?m) (pc(g := p))"
  proof (rule maybeUnblock_wake [OF ok'])
    fix x q
    assume q: "osm_openQueue ?m = x # q"
    then have "filter (\<lambda>d. d \<noteq> c) (osm_openQueue m) = x # q" by simp
    then obtain y ys where Q: "osm_openQueue m = y # ys" by (cases "osm_openQueue m") auto
    from q have ne: "x \<noteq> c" "c \<notin> set q" and sub: "set (x # q) \<subseteq> set (y # ys)"
      using Q by (auto simp: filter_eq_Cons_iff split: if_splits) 
    have dist: "distinct (x # q)" "distinct (y # ys)" using chans_okD(3) [OF ok'] chans_okD(3) [OF ok] q Q by simp_all
    show "\<not> has_wakeup ?m (pc(g := p)) d" if "d \<in> set q" for d
    proof -
      have "d \<noteq> y" using q Q that dist ne by (auto split: if_splits)
      with that sub ne wake_okD(2) [OF w Q] show ?thesis by (subst wk) auto
    qed
    show "osm_numStreams ?m < osm_maxStreams ?m" if "has_wakeup ?m (pc(g := p)) x"
    proof -
      have "has_wakeup m pc x" using that ne by (subst (asm) wk) auto
      with sub wake_okD [OF w Q] show ?thesis by auto
    qed
  qed
  with ok' show ?thesis by (auto simp: openSync_cancelled_def)
qed

lemma woken_head:
  assumes ok: "chans_ok m pc" and w: "wake_ok m pc" and g: "pc g = PWoken c" and n: "osm_closeErr m = None"
  obtains q where "osm_openQueue m = c # q" "osm_numStreams m < osm_maxStreams m"
proof -
  from chans_okD(9) [OF ok, of g c] g n have c: "c \<in> set (osm_openQueue m)" by simp
  then obtain d q where Q: "osm_openQueue m = d # q" by (cases "osm_openQueue m") auto
  have "has_wakeup m pc c" using g by (auto simp: has_wakeup_def)
  with wake_okD [OF w Q] c Q have "d = c" "osm_numStreams m < osm_maxStreams m" by auto
  with Q that show thesis by blast
qed


lemma woken_ok:
  assumes ok: "chans_ok m pc" and w: "wake_ok m pc" and g: "pc g = PWoken c"
    and r: "openSync_woken ctx c m = (r, m')" and p: "chan_of p = None"
  shows "chans_ok m' (pc(g := p)) \<and> wake_ok m' (pc(g := p))"
proof (cases "osm_closeErr m")
  case (Some e)
  with r have [simp]: "m' = m" by (simp add: openSync_woken_def)
  have Q: "osm_openQueue m = []" using chans_okD(2) [OF ok] Some by simp
  have "chans_ok m (pc(g := p))"
    using g p by (intro leave_chans [OF ok, where c = c]) (simp_all add: Q)
  with Q show ?thesis by (simp add: wake_ok_def)
next
  case None
  show ?thesis
  proof (cases ctx)
    case (Some e)
    with None r have "m' = openSync_cancelled c m" by (simp add: openSync_woken_def)
    with cancelled_ok [OF ok w, of g c p] g p show ?thesis by simp
  next
    case ctx: None
    obtain q where Q: "osm_openQueue m = c # q" and lt: "osm_numStreams m < osm_maxStreams m"
      using woken_head [OF ok w g None] .
    let ?m = "m\<lparr>osm_numStreams := osm_numStreams m + 1, osm_openQueue := q\<rparr>"
    have "c \<notin> set q" using chans_okD(3) [OF ok] Q by simp
    then have f: "filter (\<lambda>d. d \<noteq> c) q = q" by (auto intro: filter_True)
    have ok': "chans_ok ?m (pc(g := p))"
      using g p by (intro leave_chans [OF ok, where c = c]) (simp_all add: Q f)
    have nw: "\<not> has_wakeup ?m (pc(g := p)) d" if "d \<in> set q" for d
      using that \<open>c \<notin> set q\<close> g p wake_okD(2) [OF w Q that]
      by (subst leave_wakeup [where c = c and m = m]) auto
    have m': "m' = (if q \<noteq> [] \<and> osm_numStreams m + 1 \<ge> osm_maxStreams m
           then (if osm_blockedSent m then ?m else ?m\<lparr>osm_blockedSent := True\<rparr>) else maybeUnblockOpenSync ?m)"
      using r None ctx Q by (auto simp: openSync_woken_def Let_def split: if_splits)
    have mu: "wake_ok (maybeUnblockOpenSync ?m) (pc(g := p))"
      using nw by (intro maybeUnblock_wake [OF ok']) auto
    have bl: "wake_ok ?m (pc(g := p))" if "osm_numStreams m + 1 \<ge> osm_maxStreams m"
      using that nw by (auto simp: wake_ok_def split: list.split)
    from m' ok' mu bl show ?thesis
      by (auto intro: chans_ok_cong [of ?m] wake_ok_cong [of ?m])
  qed
qed

text \<open>The three ways \<open>OpenStreamSync\<close> can leave its first section.\<close>

lemma openSync_enter_cases:
  assumes r: "openSync_enter ctx m = (r, m')"
  obtains (err) e where "r = WaitErr e" "m' = m"
    | (res) "r = Reserved" "m' = m\<lparr>osm_numStreams := osm_numStreams m + 1\<rparr>" "osm_openQueue m = []"
        "osm_closeErr m = None" "osm_numStreams m < osm_maxStreams m"
    | (que) b f where "r = Queued (osm_nextChan m) b"
        "m' = m\<lparr>osm_chan := (osm_chan m)(osm_nextChan m := open_chan), osm_nextChan := Suc (osm_nextChan m),
              osm_openQueue := osm_openQueue m @ [osm_nextChan m], osm_blockedSent := f\<rparr>"
        "osm_closeErr m = None" "osm_openQueue m = [] \<longrightarrow> osm_numStreams m \<ge> osm_maxStreams m"
        "b = None \<and> f = osm_blockedSent m \<or> b = Some (osm_maxStreams m) \<and> f \<and> \<not> osm_blockedSent m"
proof (cases "osm_closeErr m = None \<and> ctx = None")
  case False
  with r have "\<exists>e. r = WaitErr e \<and> m' = m" by (auto simp: openSync_enter_def split: option.splits)
  then show thesis using err by blast
next
  case open_: True
  show thesis
  proof (cases "osm_openQueue m = [] \<and> osm_numStreams m < osm_maxStreams m")
    case True
    with open_ r show thesis by (intro res) (simp_all add: openSync_enter_def)
  next
    case False
    let ?b = "osm_numStreams m \<ge> osm_maxStreams m \<and> \<not> osm_blockedSent m"
    let ?m = "m\<lparr>osm_chan := (osm_chan m)(osm_nextChan m := open_chan), osm_nextChan := Suc (osm_nextChan m),
              osm_openQueue := osm_openQueue m @ [osm_nextChan m], osm_blockedSent := ?b \<or> osm_blockedSent m\<rparr>"
    from open_ False r
    have "r = Queued (osm_nextChan m) (if ?b then Some (osm_maxStreams m) else None)" "m' = ?m"
      by (auto simp: openSync_enter_def Let_def split: if_splits)
    with open_ False show thesis by (intro que) (auto simp: not_less split: if_splits)
  qed
qed

lemma enter_ok:
  assumes ok: "chans_ok m pc" and w: "wake_ok m pc" and g: "chan_of (pc g) = None"
    and r: "openSync_enter ctx m = (r, m')"
    and p: "chan_of p = (case r of Queued c b \<Rightarrow> Some c | _ \<Rightarrow> None)" "\<And>c. p \<noteq> PWoken c"
  shows "chans_ok m' (pc(g := p)) \<and> wake_ok m' (pc(g := p))"
proof -
  have nw: "pc g \<noteq> PWoken c" for c using g by auto
  let ?c = "osm_nextChan m"
  let ?m = "m\<lparr>osm_chan := (osm_chan m)(?c := open_chan), osm_nextChan := Suc ?c,
              osm_openQueue := osm_openQueue m @ [?c]\<rparr>"
  consider (err) e where "r = WaitErr e" "m' = m"
    | (res) "r = Reserved" "m' = m\<lparr>osm_numStreams := osm_numStreams m + 1\<rparr>" "osm_openQueue m = []"
    | (que) b f where "r = Queued ?c b" "m' = ?m\<lparr>osm_blockedSent := f\<rparr>" "osm_closeErr m = None"
        "osm_openQueue m = [] \<longrightarrow> osm_numStreams m \<ge> osm_maxStreams m"
    by (rule openSync_enter_cases [OF r])
  then show ?thesis
  proof cases
    case err
    with p nw g show ?thesis by (auto intro: chans_ok_move [OF ok] wake_ok_move [OF w])
  next
    case res
    then have "wake_ok m' (pc(g := p))" by (simp add: wake_ok_def)
    with res p g show ?thesis
      by (auto intro: chans_ok_cong [OF chans_ok_move [OF ok]])
  next
    case que
    have o: "chan_of ((pc(g := p)) h) = Some d \<longleftrightarrow> (if h = g then d = ?c else chan_of (pc h) = Some d)" for h d
      using que(1) p(1) by auto
    have fresh: "chan_of (pc h) \<noteq> Some ?c" for h using chans_okD(7) [OF ok, of h ?c] by auto
    have qf: "?c \<notin> set (osm_openQueue m)" using chans_okD(4) [OF ok] by auto
    note D = chans_okD [OF ok]
    have 1: "d < osm_nextChan m' \<and> \<not> ch_closed (osm_chan m' d) \<and> (\<exists>h. chan_of ((pc(g := p)) h) = Some d)"
      if "d \<in> set (osm_openQueue m')" for d
    proof (cases "d = ?c")
      case False
      with that que(2) have "d \<in> set (osm_openQueue m)" by simp
      with D(4-6) [of d] obtain h where "d < ?c" "\<not> ch_closed (osm_chan m d)" "chan_of (pc h) = Some d" by blast
      moreover from this(3) g have "h \<noteq> g" by auto
      ultimately show ?thesis unfolding o que(2) using False by (auto intro: exI [of _ h])
    next
      case True
      with que(1) p(1) have "chan_of ((pc(g := p)) g) = Some d" by simp
      with True show ?thesis by (auto simp: que(2) open_chan_def)
    qed
    have 2: "d < osm_nextChan m' \<and> d \<in> set (osm_openQueue m')" if "chan_of ((pc(g := p)) h) = Some d" for h d
      using that D(7,9) [of h d] que(2,3) unfolding o by (auto split: if_splits)
    have 3: "h = k" if hk: "chan_of ((pc(g := p)) h) = Some d" "chan_of ((pc(g := p)) k) = Some d" for h k d
    proof (cases "d = ?c")
      case True
      with hk fresh show ?thesis unfolding o by (metis (full_types))
    next
      case False
      with hk D(10) [of h d k] show ?thesis unfolding o by (metis (full_types))
    qed
    have "chans_ok m' (pc(g := p))"
    proof (rule chans_okI [OF _ 1 _ 3])
      show "(osm_m m' = None \<longleftrightarrow> is_closed m') \<and> (is_closed m' \<longrightarrow> osm_openQueue m' = [])
          \<and> distinct (osm_openQueue m') \<and> \<not> osm_panic m'"
        using D(1,3,11) qf que(2,3) by simp
      have n: "\<not> is_closed m'" using que(2,3) by simp
      show "d < osm_nextChan m' \<and> (if is_closed m' then ch_closed (osm_chan m' d) else d \<in> set (osm_openQueue m'))"
        if "chan_of ((pc(g := p)) h) = Some d" for h d
        using 2 [OF that] n by (simp only: if_False simp_thms)
    qed
    moreover have hw: "has_wakeup m' (pc(g := p)) d = (d \<noteq> ?c \<and> has_wakeup m pc d)" for d
    proof -
      have "(pc(g := p)) h = PWoken d \<longleftrightarrow> d \<noteq> ?c \<and> pc h = PWoken d" for h
        using p(2) nw fresh [of h] by (cases "h = g") auto
      then show ?thesis using que(2) by (auto simp: has_wakeup_def open_chan_def)
    qed
    have q: "osm_openQueue m' = osm_openQueue m @ [?c]" "osm_numStreams m' = osm_numStreams m"
      "osm_maxStreams m' = osm_maxStreams m"
      by (simp_all add: que(2))
    have "wake_ok m' (pc(g := p))"
    proof (cases "osm_openQueue m")
      case Nil
      with que(4) show ?thesis by (simp add: wake_ok_def hw q not_less)
    next
      case (Cons d x)
      with w qf show ?thesis by (simp add: wake_ok_def hw q)
    qed
    ultimately show ?thesis by simp
  qed
qed


lemma token_ok:
  assumes ok: "chans_ok m pc" and w: "wake_ok m pc" and g: "pc g = PSelect c" and t: "ch_token (osm_chan m c)"
  shows "chans_ok (take_token c m) (pc(g := PWoken c)) \<and> wake_ok (take_token c m) (pc(g := PWoken c))"
proof -
  have "chans_ok (take_token c m) pc" by (rule chans_ok_cong [OF ok]) (simp_all add: take_token_def)
  then have "chans_ok (take_token c m) (pc(g := PWoken c))" by (rule chans_ok_move) (simp add: g)
  moreover have "has_wakeup (take_token c m) (pc(g := PWoken c)) d = has_wakeup m pc d" for d
  proof (cases "d = c")
    case False
    then have "(pc(g := PWoken c)) h = PWoken d \<longleftrightarrow> pc h = PWoken d" for h using g by auto
    with False show ?thesis by (simp add: has_wakeup_def take_token_def)
  qed (use t in \<open>auto simp: has_wakeup_def\<close>)
  then have "wake_ok (take_token c m) (pc(g := PWoken c))"
    using w by (simp add: wake_ok_def take_token_def split: list.splits)
  ultimately show ?thesis by simp
qed

lemma closed_select_ok:
  assumes ok: "chans_ok m pc" and g: "pc g = PSelect c" and t: "ch_closed (osm_chan m c)"
  shows "chans_ok m (pc(g := PWoken c)) \<and> wake_ok m (pc(g := PWoken c))"
proof -
  from chans_okD(5) [OF ok, of c] chans_okD(9) [OF ok, of g c] g t have "is_closed m" by auto
  with chans_okD(2) [OF ok] have "osm_openQueue m = []" by simp
  moreover have "chans_ok m (pc(g := PWoken c))" by (rule chans_ok_move [OF ok]) (simp add: g)
  ultimately show ?thesis by (simp add: wake_ok_def)
qed

lemma finish_ok:
  assumes ok: "chans_ok m pc" and w: "wake_ok m pc" and g: "pc g = POpening i"
    and n: "osm_closeErr m = None \<longrightarrow> 0 < osm_numStreams m \<and> osm_numStreams m \<le> osm_maxStreams m"
    and r: "openSync_finish i opened m = ((res, cl), m')"
  shows "chans_ok m' (pc(g := PReady x)) \<and> wake_ok m' (pc(g := PReady x))"
proof -
  let ?m = "m\<lparr>osm_streamCtxs := AList.delete i (osm_streamCtxs m)\<rparr>"
  let ?d = "?m\<lparr>osm_numStreams := osm_numStreams m - 1\<rparr>"
  have ok': "chans_ok m (pc(g := PReady x))" by (rule chans_ok_move [OF ok]) (simp add: g)
  have w': "wake_ok m (pc(g := PReady x))" by (rule wake_ok_move [OF w]) (simp_all add: g)
  have okd: "chans_ok ?d (pc(g := PReady x))" by (rule chans_ok_cong [OF ok']) simp_all
  have wd: "wake_ok (maybeUnblockOpenSync ?d) (pc(g := PReady x))" if c: "osm_closeErr m = None"
  proof (rule maybeUnblock_wake [OF okd])
    show "\<not> has_wakeup ?d (pc(g := PReady x)) d" if "osm_openQueue ?d = c # q" "d \<in> set q" for c q d
      using wake_okD(2) [OF w', of c q d] that by (simp add: has_wakeup_def)
    show "osm_numStreams ?d < osm_maxStreams ?d" for c q
      using n c by (auto simp: word_less_nat_alt word_le_nat_alt unat_sub_1_pos)
  qed
  have put: "chans_ok (out_putStream sid str ?m) (pc(g := PReady x)) \<and> wake_ok (out_putStream sid str ?m) (pc(g := PReady x))"
    if "osm_closeErr m = None" for sid str
    using chans_okD(1) [OF ok] that
    by (auto simp: out_putStream_def intro: chans_ok_cong [OF ok'] wake_ok_cong [OF w'])
  have same: "chans_ok ?m (pc(g := PReady x)) \<and> wake_ok ?m (pc(g := PReady x))"
    by (auto intro: chans_ok_cong [OF ok'] wake_ok_cong [OF w'])
  consider "m' = ?m" | (put) sid str where "osm_closeErr m = None" "m' = out_putStream sid str ?m"
    | (dec) "osm_closeErr m = None" "m' = maybeUnblockOpenSync ?d"
    using r by (auto simp: openSync_finish_def Let_def split: sum.splits option.splits)
  then show ?thesis by cases (use same put maybeUnblock_chans [OF okd] wd in auto)
qed

lemma open_ok:
  assumes ok: "chans_ok m pc" and w: "wake_ok m pc" and g: "pc g = PReady x"
    and r: "OpenStream opened m = (res, m')" and p: "chan_of p = None"
  shows "chans_ok m' (pc(g := p)) \<and> wake_ok m' (pc(g := p))"
proof -
  have ok': "chans_ok m (pc(g := p))" by (rule chans_ok_move [OF ok]) (simp add: g p)
  have w': "wake_ok m (pc(g := p))" by (rule wake_ok_move [OF w]) (use g p in auto)
  have "osm_m m = None \<longleftrightarrow> is_closed m" by (rule chans_okD(1) [OF ok])
  with r have "(osm_m m' = None \<longleftrightarrow> osm_m m = None) \<and> osm_closeErr m' = osm_closeErr m
      \<and> osm_openQueue m' = osm_openQueue m \<and> osm_nextChan m' = osm_nextChan m \<and> osm_chan m' = osm_chan m
      \<and> osm_panic m' = osm_panic m \<and> (osm_numStreams m' = osm_numStreams m \<or> osm_openQueue m = [])
      \<and> osm_maxStreams m' = osm_maxStreams m"
    by (auto simp: OpenStream_def out_putStream_def maybeUnblockOpenSync_def Let_def
             split: option.splits if_splits sum.splits list.splits)
  then have "chans_ok m' (pc(g := p))" "osm_openQueue m' = [] \<or> wake_ok m' (pc(g := p))"
    by (auto intro: chans_ok_cong [OF ok'] wake_ok_cong [OF w'])
  then show ?thesis by (auto simp: wake_ok_def)
qed

lemma update_ok:
  assumes ok: "chans_ok m pc" and w: "wake_ok m pc" and r: "UpdateStreamLimit l m = (e, m')"
  shows "chans_ok m' pc \<and> wake_ok m' pc"
proof -
  let ?m = "m\<lparr>osm_maxStreams := l, osm_blockedSent := False\<rparr>"
  have ok': "chans_ok ?m pc" by (rule chans_ok_cong [OF ok]) simp_all
  have w': "wake_ok (maybeUnblockOpenSync ?m) pc" if "osm_maxStreams m < l"
  proof (rule maybeUnblock_wake [OF ok'])
    show "\<not> has_wakeup ?m pc d" if "osm_openQueue ?m = c # q" "d \<in> set q" for c q d
      using wake_okD(2) [OF w, of c q d] that by (simp add: has_wakeup_def)
    show "osm_numStreams ?m < osm_maxStreams ?m" if "osm_openQueue ?m = c # q" "has_wakeup ?m pc c" for c q
      using wake_okD(1) [OF w, of c q] that \<open>osm_maxStreams m < l\<close> by (simp add: has_wakeup_def)
  qed
  have "m' = m \<or> osm_maxStreams m < l \<and> m' = maybeUnblockOpenSync ?m"
    using r by (simp add: UpdateStreamLimit_def not_le split: option.splits if_splits)
  with ok w w' maybeUnblock_chans [OF ok'] show ?thesis by blast
qed

lemma close_ok:
  assumes ok: "chans_ok m pc" and w: "wake_ok m pc" and r: "out_CloseSession e m = (x, m')"
  shows "chans_ok m' pc \<and> wake_ok m' pc"
proof (cases "osm_closeErr m")
  case None
  with r have m': "osm_closeErr m' = Some e" "osm_openQueue m' = []" "osm_m m' = None"
      "osm_nextChan m' = osm_nextChan m" "\<not> osm_panic m'"
      "\<And>c. ch_closed (osm_chan m' c) = (c \<in> set (osm_openQueue m) \<or> ch_closed (osm_chan m c))"
    using chans_okD(5,11) [OF ok] by (auto simp: out_CloseSession_def split: if_splits)
  have "chans_ok m' pc"
    using chans_okD(7,9,10) [OF ok] None by (intro chans_okI) (simp_all add: m')
  with m' show ?thesis by (simp add: wake_ok_def)
qed (use assms in \<open>simp add: out_CloseSession_def\<close>)


section \<open>Counting, reporting and cancelling\<close>

text \<open>
  While the session is open, \<open>numStreams\<close> is the number of streams handed out plus the number of
  goroutines that hold a reservation: no credit is used twice or lost.
\<close>

definition count_ok :: "'t outgoingStreamsMap \<Rightarrow> (nat \<Rightarrow> 't pc) \<Rightarrow> nat \<Rightarrow> bool" where
  "count_ok m pc opened \<longleftrightarrow>
     finite {g. holds_stream (pc g)} \<and> osm_numStreams m \<le> osm_maxStreams m
     \<and> (if is_closed m then opened \<le> unat (osm_maxStreams m)
        else unat (osm_numStreams m) = opened + card {g. holds_stream (pc g)})"

text \<open>A limit is reported once; \<open>blockedSent\<close> says that the current one is reported or about to be.\<close>

definition report_ok :: "'t outgoingStreamsMap \<Rightarrow> (nat \<Rightarrow> 't pc) \<Rightarrow> u64 list \<Rightarrow> bool" where
  "report_ok m pc rep \<longleftrightarrow>
     distinct rep
     \<and> (\<forall>g l. pend_of (pc g) = Some l \<longrightarrow> l \<notin> set rep \<and> (l < osm_maxStreams m \<or> l = osm_maxStreams m \<and> osm_blockedSent m))
     \<and> (\<forall>g h l. pend_of (pc g) = Some l \<longrightarrow> pend_of (pc h) = Some l \<longrightarrow> g = h)
     \<and> (\<forall>l \<in> set rep. l < osm_maxStreams m \<or> l = osm_maxStreams m \<and> osm_blockedSent m)"

text \<open>The cancel function of a goroutine that opens a stream is registered, or was called.\<close>

definition ctx_ok :: "'t outgoingStreamsMap \<Rightarrow> (nat \<Rightarrow> 't pc) \<Rightarrow> (nat \<Rightarrow> bool) \<Rightarrow> bool" where
  "ctx_ok m pc cancel \<longleftrightarrow>
     distinct (map fst (osm_streamCtxs m))
     \<and> (\<forall>g i. pc g = POpening i \<longrightarrow> (if is_closed m then cancel g else (i, g) \<in> set (osm_streamCtxs m)))"

lemma card_held_move:
  assumes "finite {g. holds_stream (pc g)}"
  shows "finite {h. holds_stream ((pc(g := p)) h)}"
    and "card {h. holds_stream ((pc(g := p)) h)} + of_bool (holds_stream (pc g))
         = card {h. holds_stream (pc h)} + of_bool (holds_stream p)"
proof -
  let ?H = "{h. holds_stream (pc h)}"
  have eq: "{h. holds_stream ((pc(g := p)) h)} = (if holds_stream p then insert g ?H else ?H - {g})"
    by auto
  show "finite {h. holds_stream ((pc(g := p)) h)}" using assms unfolding eq by simp
  have "holds_stream (pc g) \<Longrightarrow> card ?H > 0" using assms by (auto simp: card_gt_0_iff)
  with assms show "card {h. holds_stream ((pc(g := p)) h)} + of_bool (holds_stream (pc g))
         = card ?H + of_bool (holds_stream p)"
    unfolding eq by (auto simp: insert_absorb card_Diff_singleton)
qed

lemma count_move:
  assumes "count_ok m pc opened" "holds_stream p = holds_stream (pc g)"
    "osm_numStreams m' = osm_numStreams m" "osm_maxStreams m' = osm_maxStreams m" "osm_closeErr m' = osm_closeErr m"
  shows "count_ok m' (pc(g := p)) opened"
proof -
  have "{h. holds_stream ((pc(g := p)) h)} = {h. holds_stream (pc h)}" using assms(2) by auto
  with assms show ?thesis by (simp add: count_ok_def)
qed

lemma count_reserve:
  assumes c: "count_ok m pc opened" and g: "\<not> holds_stream (pc g)" "holds_stream p"
    and m': "osm_numStreams m < osm_maxStreams m" "osm_numStreams m' = osm_numStreams m + 1"
      "osm_maxStreams m' = osm_maxStreams m" "osm_closeErr m' = None" "osm_closeErr m = None"
  shows "count_ok m' (pc(g := p)) opened"
proof -
  note u = unat_add_1_less [OF m'(1)]
  have "osm_numStreams m + 1 \<le> osm_maxStreams m"
    using m'(1) u by (simp add: word_le_nat_alt word_less_nat_alt)
  with c g m' u card_held_move [of pc g p] show ?thesis by (simp add: count_ok_def)
qed

lemma report_move:
  assumes r: "report_ok m pc rep" and g: "pend_of (pc g) = None"
    and p: "case pend_of p of None \<Rightarrow> osm_blockedSent m' = osm_blockedSent m
            | Some l \<Rightarrow> l = osm_maxStreams m \<and> \<not> osm_blockedSent m \<and> osm_blockedSent m'"
    and m': "osm_maxStreams m' = osm_maxStreams m"
  shows "report_ok m' (pc(g := p)) rep"
proof (cases "pend_of p")
  case None
  have "pend_of ((pc(g := p)) h) = pend_of (pc h)" for h using None g by simp
  with r p None m' show ?thesis by (simp add: report_ok_def)
next
  case (Some l)
  with p have l: "l = osm_maxStreams m" "\<not> osm_blockedSent m" "osm_blockedSent m'" by auto
  have o: "pend_of ((pc(g := p)) h) = Some k \<longleftrightarrow> (if h = g then k = l else pend_of (pc h) = Some k)" for h k
    using Some by auto
  have n: "pend_of (pc h) \<noteq> Some l" "l \<notin> set rep" for h
    using r l unfolding report_ok_def by auto
  have below: "k \<noteq> l \<longrightarrow> k < osm_maxStreams m" if "pend_of (pc h) = Some k \<or> k \<in> set rep" for h k
    using r l that unfolding report_ok_def by blast
  have inj: "h = k" if "pend_of (pc h) = Some x" "pend_of (pc k) = Some x" for h k x
    using r that unfolding report_ok_def by blast
  have d: "distinct rep" "\<And>h k. pend_of (pc h) = Some k \<Longrightarrow> k \<notin> set rep"
    using r unfolding report_ok_def by blast+
  have 1: "k \<notin> set rep \<and> (k < osm_maxStreams m' \<or> k = osm_maxStreams m' \<and> osm_blockedSent m')"
    if "pend_of ((pc(g := p)) h) = Some k" for h k
    using that n d(2) [of h k] below [of h k] l unfolding o m' by (auto split: if_splits)
  have 2: "h = k" if "pend_of ((pc(g := p)) h) = Some x" "pend_of ((pc(g := p)) k) = Some x" for h k x
    using that n(1) [of h] n(1) [of k] inj [of h x k] unfolding o by (cases "h = g"; cases "k = g") simp_all
  have 3: "\<forall>k \<in> set rep. k < osm_maxStreams m' \<or> k = osm_maxStreams m' \<and> osm_blockedSent m'"
    using below l unfolding m' by blast
  show ?thesis unfolding report_ok_def using d(1) 1 2 3 by blast
qed

lemma report_emit:
  assumes r: "report_ok m pc rep" and g: "pend_of (pc g) = Some l" and p: "pend_of p = None"
  shows "report_ok m (pc(g := p)) (rep @ [l])"
proof -
  have o: "pend_of ((pc(g := p)) h) = Some k \<longleftrightarrow> h \<noteq> g \<and> pend_of (pc h) = Some k" for h k
    using p by auto
  from r g have "h \<noteq> g \<Longrightarrow> pend_of (pc h) \<noteq> Some l" for h unfolding report_ok_def by blast
  with r g show ?thesis unfolding report_ok_def o by auto
qed

lemma report_update:
  assumes "report_ok m pc rep" "osm_maxStreams m < osm_maxStreams m'"
  shows "report_ok m' pc rep"
proof -
  have "k < osm_maxStreams m'" if "k < osm_maxStreams m \<or> k = osm_maxStreams m \<and> osm_blockedSent m" for k
    using assms(2) that by (auto dest: order.strict_trans)
  with assms(1) show ?thesis unfolding report_ok_def by blast
qed

lemma ctx_move:
  assumes "ctx_ok m pc cancel" "\<And>i. p = POpening i \<Longrightarrow> (if is_closed m' then cancel g else (i, g) \<in> set (osm_streamCtxs m'))"
    "distinct (map fst (osm_streamCtxs m'))" "set (osm_streamCtxs m) \<subseteq> set (osm_streamCtxs m')"
    "osm_closeErr m' = osm_closeErr m"
  shows "ctx_ok m' (pc(g := p)) cancel"
  using assms unfolding ctx_ok_def by auto


section \<open>The invariant\<close>

definition os_inv :: "'t os_state \<Rightarrow> bool" where
  "os_inv s \<longleftrightarrow> chans_ok (os_map s) (os_pc s) \<and> wake_ok (os_map s) (os_pc s)
     \<and> count_ok (os_map s) (os_pc s) (os_opened s)
     \<and> report_ok (os_map s) (os_pc s) (os_reported s)
     \<and> ctx_ok (os_map s) (os_pc s) (os_cancel s)"

lemma os_invI:
  assumes "chans_ok (os_map s) (os_pc s) \<and> wake_ok (os_map s) (os_pc s)"
    "count_ok (os_map s) (os_pc s) (os_opened s)" "report_ok (os_map s) (os_pc s) (os_reported s)"
    "ctx_ok (os_map s) (os_pc s) (os_cancel s)"
  shows "os_inv s"
  using assms by (simp add: os_inv_def)

lemma os_inv_start: "os_start n s \<Longrightarrow> os_inv s"
  by (simp add: os_start_def os_inv_def newOutgoingStreamsMap_def chans_ok_def wake_ok_def count_ok_def
      report_ok_def ctx_ok_def)

text \<open>What \<open>waitForStreamLimit\<close> leaves behind, by its outcome.\<close>

fun reserves :: "wait_result \<Rightarrow> bool" where
  "reserves Reserved = True"
| "reserves (ReservedBlocked l) = True"
| "reserves _ = False"

fun reports :: "wait_result \<Rightarrow> u64 option" where
  "reports (Queued c b) = b"
| "reports (ReservedBlocked l) = Some l"
| "reports _ = None"

definition section_ok :: "wait_result \<Rightarrow> 't outgoingStreamsMap \<Rightarrow> 't outgoingStreamsMap \<Rightarrow> bool" where
  "section_ok r m m' \<longleftrightarrow>
     osm_maxStreams m' = osm_maxStreams m \<and> osm_closeErr m' = osm_closeErr m \<and> osm_streamCtxs m' = osm_streamCtxs m
     \<and> (if reserves r then osm_closeErr m = None \<and> osm_numStreams m < osm_maxStreams m
          \<and> osm_numStreams m' = osm_numStreams m + 1
        else osm_numStreams m' = osm_numStreams m)
     \<and> (case reports r of None \<Rightarrow> osm_blockedSent m' = osm_blockedSent m
        | Some l \<Rightarrow> l = osm_maxStreams m \<and> \<not> osm_blockedSent m \<and> osm_blockedSent m')"

lemma enter_section:
  assumes "openSync_enter ctx m = (r, m')"
  shows "section_ok r m m'"
  using assms
proof (cases rule: openSync_enter_cases)
  case (que b f)
  then show ?thesis by (cases b) (simp_all add: section_ok_def)
qed (simp_all add: section_ok_def)

lemma woken_section:
  assumes ok: "chans_ok m pc" "wake_ok m pc" and g: "pc g = PWoken c" and r: "openSync_woken ctx c m = (r, m')"
  shows "section_ok r m m' \<and> (\<forall>c b. r \<noteq> Queued c b)"
proof (cases "osm_closeErr m = None \<and> ctx = None")
  case True
  then obtain q where "osm_openQueue m = c # q" "osm_numStreams m < osm_maxStreams m"
    using woken_head [OF ok g] by blast
  with True r show ?thesis
    by (auto simp: section_ok_def openSync_woken_def Let_def split: if_splits)
next
  case False
  with r show ?thesis
    by (auto simp: section_ok_def openSync_woken_def openSync_cancelled_def split: option.splits)
qed

lemma addStreamCtxCancel_Some:
  assumes "addStreamCtxCancel rands g m = Some (i, m')"
  shows "i \<notin> fst ` set (osm_streamCtxs m) \<and> m' = m\<lparr>osm_streamCtxs := (i, g) # osm_streamCtxs m\<rparr>"
  using assms by (induction rands g m rule: addStreamCtxCancel.induct) (auto split: if_splits)

lemma sync_next_Some:
  assumes "sync_next rands g (r, m) = Some (p, m')"
  shows "chan_of p = (case r of Queued c b \<Rightarrow> Some c | _ \<Rightarrow> None)" "p \<noteq> PWoken c"
    "holds_stream p = reserves r" "pend_of p = reports r"
    "p = POpening i \<Longrightarrow> r = Reserved \<and> i \<notin> fst ` set (osm_streamCtxs m)
       \<and> m' = m\<lparr>osm_streamCtxs := (i, g) # osm_streamCtxs m\<rparr>"
    "\<exists>cs. m' = m\<lparr>osm_streamCtxs := cs\<rparr>"
    "(\<forall>i. p \<noteq> POpening i) \<Longrightarrow> m' = m"
proof -
  have eta: "\<exists>cs. m = m\<lparr>osm_streamCtxs := cs\<rparr>" by (rule exI [of _ "osm_streamCtxs m"]) simp
  consider (res) i where "r = Reserved" "addStreamCtxCancel rands g m = Some (i, m')" "p = POpening i"
    | (other) "r \<noteq> Reserved" "m' = m" "p = (case r of WaitErr e \<Rightarrow> PReady (Some (Inl e))
        | Queued c None \<Rightarrow> PSelect c | Queued c (Some l) \<Rightarrow> PBlocked c l | ReservedBlocked l \<Rightarrow> PBlocked2 l)"
    using assms by (cases r) (auto simp: sync_next_def split: option.splits)
  then show "chan_of p = (case r of Queued c b \<Rightarrow> Some c | _ \<Rightarrow> None)" "p \<noteq> PWoken c"
    "holds_stream p = reserves r" "pend_of p = reports r"
    "p = POpening i \<Longrightarrow> r = Reserved \<and> i \<notin> fst ` set (osm_streamCtxs m)
       \<and> m' = m\<lparr>osm_streamCtxs := (i, g) # osm_streamCtxs m\<rparr>"
    "\<exists>cs. m' = m\<lparr>osm_streamCtxs := cs\<rparr>"
    "(\<forall>i. p \<noteq> POpening i) \<Longrightarrow> m' = m"
    by (cases; use addStreamCtxCancel_Some [of rands g m] eta in
        \<open>auto split: wait_result.splits option.splits\<close>)+
qed


text \<open>The common part of entering and of waking up.\<close>

lemma section_inv:
  assumes inv: "os_inv s" and sec: "section_ok r (os_map s) m"
    and nx: "sync_next rands g (r, m) = Some (p, m')"
    and g: "\<not> holds_stream (os_pc s g)" "pend_of (os_pc s g) = None"
    and q: "chans_ok m ((os_pc s)(g := p)) \<and> wake_ok m ((os_pc s)(g := p))"
    and t: "os_map t = m'" "os_pc t = (os_pc s)(g := p)" "os_opened t = os_opened s"
      "os_reported t = os_reported s" "\<And>h. h \<noteq> g \<Longrightarrow> os_cancel t h = os_cancel s h"
  shows "os_inv t"
proof (rule os_invI, unfold t)
  note nx' = sync_next_Some [OF nx]
  obtain cs where m': "m' = m\<lparr>osm_streamCtxs := cs\<rparr>" using nx'(6) by blast
  show "chans_ok m' ((os_pc s)(g := p)) \<and> wake_ok m' ((os_pc s)(g := p))"
    using q by (auto simp: m' intro: chans_ok_cong [of m] wake_ok_cong [of m])
  show "count_ok m' ((os_pc s)(g := p)) (os_opened s)"
  proof (cases "reserves r")
    case True
    with inv sec nx'(3) g show ?thesis
      by (intro count_reserve [of "os_map s"]) (simp_all add: os_inv_def section_ok_def m')
  next
    case False
    with inv sec nx'(3) g show ?thesis
      by (intro count_move [of "os_map s"]) (simp_all add: os_inv_def section_ok_def m')
  qed
  show "report_ok m' ((os_pc s)(g := p)) (os_reported s)"
    using inv sec g by (intro report_move [of "os_map s"]) (auto simp: os_inv_def section_ok_def m' nx'(4) split: option.splits)
  have c: "ctx_ok (os_map s) (os_pc s) (os_cancel s)" using inv by (simp add: os_inv_def)
  show "ctx_ok m' ((os_pc s)(g := p)) (os_cancel t)"
  proof (cases "\<exists>i. p = POpening i")
    case True
    then obtain i where p: "p = POpening i" by blast
    with sec nx'(5) [OF p] c show ?thesis by (auto simp: ctx_ok_def section_ok_def t(5))
  next
    case False
    then have "p \<noteq> POpening i" for i by blast
    with sec nx'(7) c show ?thesis by (auto simp: ctx_ok_def section_ok_def t(5))
  qed
qed

text \<open>A step that only moves a goroutine.\<close>

lemma move_inv:
  assumes inv: "os_inv s" and g: "holds_stream p = holds_stream (os_pc s g)"
      "pend_of (os_pc s g) = None" "pend_of p = None" "\<And>i. p \<noteq> POpening i"
    and q: "chans_ok m ((os_pc s)(g := p)) \<and> wake_ok m ((os_pc s)(g := p))"
    and m: "osm_numStreams m = osm_numStreams (os_map s)" "osm_maxStreams m = osm_maxStreams (os_map s)"
      "osm_closeErr m = osm_closeErr (os_map s)" "osm_blockedSent m = osm_blockedSent (os_map s)"
      "osm_streamCtxs m = osm_streamCtxs (os_map s)"
  shows "os_inv (set_pc g p (s\<lparr>os_map := m\<rparr>))"
proof (rule os_invI)
  show "count_ok (os_map (set_pc g p (s\<lparr>os_map := m\<rparr>))) (os_pc (set_pc g p (s\<lparr>os_map := m\<rparr>)))
      (os_opened (set_pc g p (s\<lparr>os_map := m\<rparr>)))"
    using inv g m by (auto simp: os_inv_def intro: count_move [of "os_map s"])
  show "report_ok (os_map (set_pc g p (s\<lparr>os_map := m\<rparr>))) (os_pc (set_pc g p (s\<lparr>os_map := m\<rparr>)))
      (os_reported (set_pc g p (s\<lparr>os_map := m\<rparr>)))"
    using inv g m by (auto simp: os_inv_def intro: report_move [of "os_map s"])
  show "ctx_ok (os_map (set_pc g p (s\<lparr>os_map := m\<rparr>))) (os_pc (set_pc g p (s\<lparr>os_map := m\<rparr>)))
      (os_cancel (set_pc g p (s\<lparr>os_map := m\<rparr>)))"
    using inv g(4) m by (auto simp: os_inv_def ctx_ok_def)
qed (use q in simp)

text \<open>A call of \<open>queueBlocked\<close>.\<close>

lemma emit_inv:
  assumes inv: "os_inv s" and g: "pend_of (os_pc s g) = Some l" "pend_of p = None"
    "holds_stream p = holds_stream (os_pc s g)" "chan_of p = chan_of (os_pc s g)" "\<And>i. p \<noteq> POpening i" "\<And>c. p \<noteq> PWoken c"
  shows "os_inv (set_pc g p (s\<lparr>os_reported := os_reported s @ [l]\<rparr>))"
proof (rule os_invI)
  have "\<And>c. os_pc s g \<noteq> PWoken c" using g(1) by auto
  with inv g show "chans_ok (os_map (set_pc g p (s\<lparr>os_reported := os_reported s @ [l]\<rparr>)))
      (os_pc (set_pc g p (s\<lparr>os_reported := os_reported s @ [l]\<rparr>))) \<and>
    wake_ok (os_map (set_pc g p (s\<lparr>os_reported := os_reported s @ [l]\<rparr>)))
      (os_pc (set_pc g p (s\<lparr>os_reported := os_reported s @ [l]\<rparr>)))"
    by (auto simp: os_inv_def intro: chans_ok_move wake_ok_move)
qed (use inv g in \<open>auto simp: os_inv_def ctx_ok_def intro: count_move report_emit\<close>)


lemma finish_inv:
  assumes inv: "os_inv s" and g: "os_pc s g = POpening i"
    and r: "openSync_finish i opened (os_map s) = ((res, cl), m)"
    and t: "os_map t = m" "os_pc t = (os_pc s)(g := PReady (Some res))"
      "os_opened t = (if isl res then os_opened s else Suc (os_opened s))"
      "os_reported t = os_reported s" "os_cancel t = os_cancel s"
  shows "os_inv t"
proof (rule os_invI, unfold t)
  let ?pc = "(os_pc s)(g := PReady (Some res))"
  let ?H = "{h. holds_stream (os_pc s h)}"
  have c: "count_ok (os_map s) (os_pc s) (os_opened s)" and ct: "ctx_ok (os_map s) (os_pc s) (os_cancel s)"
    and rp: "report_ok (os_map s) (os_pc s) (os_reported s)"
    and ok: "chans_ok (os_map s) (os_pc s)" and w: "wake_ok (os_map s) (os_pc s)"
    using inv by (simp_all add: os_inv_def)
  have fin: "finite ?H" using c by (simp add: count_ok_def)
  have "g \<in> ?H" using g by simp
  then have pos: "0 < card ?H" using fin by (auto simp: card_gt_0_iff)
  with c have n: "osm_closeErr (os_map s) = None \<longrightarrow> 0 < unat (osm_numStreams (os_map s))
      \<and> osm_numStreams (os_map s) \<le> osm_maxStreams (os_map s)"
    by (auto simp: count_ok_def)
  then show "chans_ok m ?pc \<and> wake_ok m ?pc"
    using finish_ok [OF ok w g _ r] by (simp add: word_less_nat_alt)
  have f: "osm_closeErr m = osm_closeErr (os_map s)" "osm_maxStreams m = osm_maxStreams (os_map s)"
    "osm_blockedSent m = osm_blockedSent (os_map s)"
    "osm_streamCtxs m = AList.delete i (osm_streamCtxs (os_map s))"
    "osm_closeErr (os_map s) \<noteq> None \<Longrightarrow> isl res \<and> osm_numStreams m = osm_numStreams (os_map s)"
    "osm_closeErr (os_map s) = None \<Longrightarrow>
      osm_numStreams m = (if isl res then osm_numStreams (os_map s) - 1 else osm_numStreams (os_map s))"
    using r by (auto simp: openSync_finish_def out_putStream_def Let_def split: sum.splits option.splits)
  note cm = card_held_move [OF fin, of g "PReady (Some res)"]
  show "count_ok m ?pc (if isl res then os_opened s else Suc (os_opened s))"
  proof (cases "osm_closeErr (os_map s)")
    case (Some e)
    with c f cm show ?thesis by (simp add: count_ok_def)
  next
    case None
    with n have d: "unat (osm_numStreams (os_map s) - 1) = unat (osm_numStreams (os_map s)) - 1"
      by (simp add: unat_sub_1_pos word_less_nat_alt)
    from None n d have "osm_numStreams m \<le> osm_maxStreams m"
      by (auto simp: f word_le_nat_alt)
    moreover define K where "K = card {h. holds_stream (?pc h)}"
    have "card ?H = Suc K" using cm(2) g by (simp add: K_def)
    with None c f d have "unat (osm_numStreams m) = (if isl res then os_opened s else Suc (os_opened s)) + K"
      by (simp add: count_ok_def)
    ultimately show ?thesis using None cm(1) f unfolding count_ok_def K_def by simp
  qed
  show "report_ok m ?pc (os_reported s)"
    by (rule report_move [OF rp]) (simp_all add: g f)
  show "ctx_ok m ?pc (os_cancel s)"
  proof -
    have "j \<noteq> i" if "os_pc s h = POpening j" "h \<noteq> g" "\<not> is_closed (os_map s)" for h j
      using ct that g unfolding ctx_ok_def by (metis eq_key_imp_eq_value)
    moreover have "(j, h) \<in> set (AList.delete i xs) \<longleftrightarrow> j \<noteq> i \<and> (j, h) \<in> set xs" for j h and xs :: "(int \<times> nat) list"
      by (auto simp: AList.delete_eq)
    moreover have "distinct (map fst (AList.delete i (osm_streamCtxs (os_map s))))"
      using ct by (simp add: ctx_ok_def AList.distinct_delete)
    ultimately show ?thesis using ct by (auto simp: ctx_ok_def f)
  qed
qed


lemma open_inv:
  assumes inv: "os_inv s" and g: "os_pc s g = PReady r" and r: "OpenStream opened (os_map s) = ((res, b), m)"
    and t: "os_map t = m" "os_pc t = (os_pc s)(g := case b of Some l \<Rightarrow> PReport l | None \<Rightarrow> PReady (Some res))"
      "os_opened t = (if isl res then os_opened s else Suc (os_opened s))"
      "os_reported t = os_reported s" "os_cancel t = os_cancel s"
  shows "os_inv t"
proof (rule os_invI, unfold t)
  let ?p = "case b of Some l \<Rightarrow> PReport l | None \<Rightarrow> PReady (Some res)"
  let ?pc = "(os_pc s)(g := ?p)"
  have c: "count_ok (os_map s) (os_pc s) (os_opened s)" and ct: "ctx_ok (os_map s) (os_pc s) (os_cancel s)"
    and rp: "report_ok (os_map s) (os_pc s) (os_reported s)"
    and ok: "chans_ok (os_map s) (os_pc s)" and w: "wake_ok (os_map s) (os_pc s)"
    using inv by (simp_all add: os_inv_def)
  have p: "chan_of ?p = None" "\<not> holds_stream ?p" "\<And>i. ?p \<noteq> POpening i" "pend_of ?p = b"
    by (simp_all split: option.split)
  show "chans_ok m ?pc \<and> wake_ok m ?pc" by (rule open_ok [OF ok w g r p(1)])
  have f: "osm_closeErr m = osm_closeErr (os_map s)" "osm_maxStreams m = osm_maxStreams (os_map s)"
    "osm_streamCtxs m = osm_streamCtxs (os_map s)"
    "isl res \<Longrightarrow> osm_numStreams m = osm_numStreams (os_map s)"
    "\<not> isl res \<Longrightarrow> osm_closeErr (os_map s) = None \<and> osm_numStreams (os_map s) < osm_maxStreams (os_map s)
       \<and> osm_numStreams m = osm_numStreams (os_map s) + 1"
    "case b of None \<Rightarrow> osm_blockedSent m = osm_blockedSent (os_map s)
     | Some l \<Rightarrow> l = osm_maxStreams (os_map s) \<and> \<not> osm_blockedSent (os_map s) \<and> osm_blockedSent m"
    using r by (auto simp: OpenStream_def out_putStream_def Let_def split: option.splits if_splits sum.splits)
  have cm: "count_ok m ?pc (os_opened s)" if "isl res"
    using that g p(2) f by (intro count_move [OF c]) simp_all
  have "{h. holds_stream (?pc h)} = {h. holds_stream (os_pc s h)}" using g p(2) by auto
  moreover have "osm_numStreams m \<le> osm_maxStreams m \<and> unat (osm_numStreams m) = Suc (unat (osm_numStreams (os_map s)))"
    if "\<not> isl res"
    using f(2) f(5) [OF that] unat_add_1_less [of "osm_numStreams (os_map s)"]
    by (auto simp: word_le_nat_alt word_less_nat_alt)
  ultimately have "count_ok m ?pc (Suc (os_opened s))" if "\<not> isl res"
    using c f(1,2) f(5) [OF that] that by (simp add: count_ok_def)
  with cm show "count_ok m ?pc (if isl res then os_opened s else Suc (os_opened s))" by simp
  show "report_ok m ?pc (os_reported s)"
    by (rule report_move [OF rp]) (use g f p(4) in simp_all)
  show "ctx_ok m ?pc (os_cancel s)"
    by (rule ctx_move [OF ct]) (use f p(3) ct in \<open>simp_all add: ctx_ok_def\<close>)
qed

lemma relock2_inv:
  assumes inv: "os_inv s" and g: "os_pc s g = PRelock2"
    and nx: "sync_next rands g (relock_result Reserved (os_map s)) = Some (p, m)"
  shows "os_inv (set_pc g p (s\<lparr>os_map := m\<rparr>))"
proof (cases "osm_closeErr (os_map s)")
  case (Some e)
  with nx have pm: "p = PReady (Some (Inl e))" "m = os_map s" by (simp_all add: relock_result_def sync_next_def)
  have ok: "chans_ok (os_map s) ((os_pc s)(g := p))" "wake_ok (os_map s) ((os_pc s)(g := p))"
    using inv by (auto simp: os_inv_def pm g intro: chans_ok_move wake_ok_move)
  have "count_ok (os_map s) ((os_pc s)(g := p)) (os_opened s)"
    using inv Some card_held_move(1) [of "os_pc s" g p] by (simp add: os_inv_def count_ok_def)
  with ok inv show ?thesis
    unfolding os_inv_def by (simp add: pm report_move [of "os_map s"] g ctx_ok_def)
next
  case None
  with nx have nx': "sync_next rands g (Reserved, os_map s) = Some (p, m)" by (simp add: relock_result_def)
  then obtain i where p: "p = POpening i" by (auto simp: sync_next_def)
  note m = sync_next_Some(5) [OF nx' p]
  have ok: "chans_ok m ((os_pc s)(g := p))" "wake_ok m ((os_pc s)(g := p))"
    using inv m by (auto simp: os_inv_def p g intro: chans_ok_cong [OF chans_ok_move] wake_ok_cong [OF wake_ok_move])
  moreover have "count_ok m ((os_pc s)(g := p)) (os_opened s)"
    using inv m by (auto simp: os_inv_def p g intro: count_move)
  moreover have "report_ok m ((os_pc s)(g := p)) (os_reported s)"
    using inv m by (auto simp: os_inv_def p g intro: report_move)
  moreover have "ctx_ok m ((os_pc s)(g := p)) (os_cancel s)"
    using inv m None by (auto simp: os_inv_def p ctx_ok_def)
  ultimately show ?thesis by (simp add: os_inv_def)
qed


lemma update_inv:
  assumes inv: "os_inv s" and r: "UpdateStreamLimit l (os_map s) = (e, m)"
  shows "os_inv (s\<lparr>os_map := m\<rparr>)"
proof -
  have ok: "chans_ok m (os_pc s) \<and> wake_ok m (os_pc s)"
    using inv by (intro update_ok [OF _ _ r]) (simp_all add: os_inv_def)
  have "m = os_map s \<or> osm_closeErr (os_map s) = None \<and> osm_closeErr m = None
      \<and> osm_maxStreams (os_map s) < osm_maxStreams m
      \<and> osm_numStreams m = osm_numStreams (os_map s) \<and> osm_streamCtxs m = osm_streamCtxs (os_map s)"
    using r by (simp add: UpdateStreamLimit_def split: option.splits if_splits) auto
  then show ?thesis
  proof (elim disjE conjE)
    assume m: "osm_closeErr (os_map s) = None" "osm_closeErr m = None" "osm_maxStreams (os_map s) < osm_maxStreams m"
      "osm_numStreams m = osm_numStreams (os_map s)" "osm_streamCtxs m = osm_streamCtxs (os_map s)"
    have "count_ok m (os_pc s) (os_opened s)" using inv m by (auto simp: os_inv_def count_ok_def)
    moreover have "report_ok m (os_pc s) (os_reported s)"
      using inv m(3) by (auto simp: os_inv_def intro: report_update)
    moreover have "ctx_ok m (os_pc s) (os_cancel s)" using inv m by (simp add: os_inv_def ctx_ok_def)
    ultimately show ?thesis using ok by (simp add: os_inv_def)
  qed (use inv in simp)
qed

lemma close_inv:
  assumes inv: "os_inv s" and r: "out_CloseSession e (os_map s) = ((gs, cl), m)"
  shows "os_inv (s\<lparr>os_map := m, os_cancel := (\<lambda>g. os_cancel s g \<or> g \<in> set gs)\<rparr>)"
proof -
  have ok: "chans_ok m (os_pc s) \<and> wake_ok m (os_pc s)"
    using inv by (intro close_ok [OF _ _ r]) (simp_all add: os_inv_def)
  have m: "osm_numStreams m = osm_numStreams (os_map s)" "osm_maxStreams m = osm_maxStreams (os_map s)"
    "osm_blockedSent m = osm_blockedSent (os_map s)" "osm_streamCtxs m = osm_streamCtxs (os_map s)" "is_closed m"
    using r by (auto simp: out_CloseSession_def split: option.splits)
  have gs: "osm_closeErr (os_map s) = None \<Longrightarrow> gs = map snd (osm_streamCtxs (os_map s))"
    using r by (simp add: out_CloseSession_def)
  have "count_ok m (os_pc s) (os_opened s)"
    using inv m by (auto simp: os_inv_def count_ok_def word_le_nat_alt split: if_splits)
  moreover have "report_ok m (os_pc s) (os_reported s)" using inv m by (simp add: os_inv_def report_ok_def)
  moreover have "ctx_ok m (os_pc s) (\<lambda>g. os_cancel s g \<or> g \<in> set gs)"
    using inv m(4,5) gs by (force simp: os_inv_def ctx_ok_def split: if_splits)
  ultimately show ?thesis using ok by (simp add: os_inv_def)
qed

lemma os_inv_step: "os_step s t \<Longrightarrow> os_inv s \<Longrightarrow> os_inv t"
proof (induction rule: os_step.induct)
  case (step_open s g r opened res b m)
  show ?case by (rule open_inv [OF step_open(3,1,2)]) (simp_all split: option.split)
next
  case (step_report s g l)
  then show ?case by (intro emit_inv) simp_all
next
  case (step_enter s g r rands ctx p m)
  obtain w m1 where e: "openSync_enter ctx (os_map s) = (w, m1)" by (cases "openSync_enter ctx (os_map s)")
  note nx = step_enter(2) [unfolded e]
  have "chans_ok m1 ((os_pc s)(g := p)) \<and> wake_ok m1 ((os_pc s)(g := p))"
    using step_enter(3) by (intro enter_ok [OF _ _ _ e sync_next_Some(1,2) [OF nx]])
      (simp_all add: os_inv_def step_enter(1))
  from section_inv [OF step_enter(3) enter_section [OF e] nx _ _ this] show ?case
    by (simp add: step_enter(1))
next
  case (step_blocked s g c l)
  then show ?case by (intro emit_inv) simp_all
next
  case (step_relock s g c rands p m)
  let ?p = "case osm_closeErr (os_map s) of Some e \<Rightarrow> PReady (Some (Inl e)) | None \<Rightarrow> PSelect c"
  from step_relock(2) have pm: "p = ?p" "m = os_map s"
    by (auto simp: relock_result_def sync_next_def split: option.splits)
  have inv: "chans_ok (os_map s) (os_pc s)" "wake_ok (os_map s) (os_pc s)" using step_relock by (simp_all add: os_inv_def)
  have "chans_ok (os_map s) ((os_pc s)(g := ?p))"
  proof (cases "osm_closeErr (os_map s)")
    case None
    then show ?thesis using step_relock(1) by (auto intro: chans_ok_move [OF inv(1)])
  next
    case (Some e)
    then show ?thesis
      using step_relock(1) chans_okD(2) [OF inv(1)] by (intro leave_chans [OF inv(1), where c = c]) simp_all
  qed
  moreover have "wake_ok (os_map s) ((os_pc s)(g := ?p))"
    using step_relock(1) by (intro wake_ok_move [OF inv(2)]) (auto split: option.splits)
  ultimately show ?case
    using step_relock unfolding pm by (intro move_inv) (simp_all split: option.splits)
next
  case (step_ctx s g c)
  then have "chans_ok (os_map s) ((os_pc s)(g := PCtxDone c))" "wake_ok (os_map s) ((os_pc s)(g := PCtxDone c))"
    by (auto simp: os_inv_def intro: chans_ok_move wake_ok_move)
  with step_ctx move_inv [of s "PCtxDone c" g "os_map s"] show ?case by simp
next
  case (step_token s g c)
  then have "chans_ok (take_token c (os_map s)) ((os_pc s)(g := PWoken c)) \<and>
      wake_ok (take_token c (os_map s)) ((os_pc s)(g := PWoken c))"
    by (intro token_ok) (simp_all add: os_inv_def)
  with step_token show ?case by (intro move_inv) (simp_all add: take_token_def)
next
  case (step_closed s g c)
  then have "chans_ok (os_map s) ((os_pc s)(g := PWoken c)) \<and> wake_ok (os_map s) ((os_pc s)(g := PWoken c))"
    by (intro closed_select_ok) (simp_all add: os_inv_def)
  with step_closed move_inv [of s "PWoken c" g "os_map s"] show ?case by simp
next
  case (step_cancelled s g c e)
  then have "chans_ok (openSync_cancelled c (os_map s)) ((os_pc s)(g := PReady (Some (Inl e)))) \<and>
      wake_ok (openSync_cancelled c (os_map s)) ((os_pc s)(g := PReady (Some (Inl e))))"
    by (intro cancelled_ok) (simp_all add: os_inv_def)
  with step_cancelled show ?case by (intro move_inv) (simp_all add: openSync_cancelled_def)
next
  case (step_woken s g c rands p m)
  obtain w m1 where e: "openSync_woken (os_ctx s g) c (os_map s) = (w, m1)"
    by (cases "openSync_woken (os_ctx s g) c (os_map s)")
  note nx = step_woken(2) [unfolded e]
  have inv: "chans_ok (os_map s) (os_pc s)" "wake_ok (os_map s) (os_pc s)" using step_woken by (simp_all add: os_inv_def)
  note sec = woken_section [OF inv step_woken(1) e]
  then have "chan_of p = None" using sync_next_Some(1) [OF nx] by (simp split: wait_result.splits)
  from section_inv [OF step_woken(3) conjunct1 [OF sec] nx _ _ woken_ok [OF inv step_woken(1) e this]]
  show ?case by (simp add: step_woken(1))
next
  case (step_blocked2 s g l)
  then show ?case by (intro emit_inv) simp_all
next
  case (step_relock2 s g rands p m)
  then show ?case by (intro relock2_inv) simp_all
next
  case (step_finish s g i opened res cl m)
  show ?case by (rule finish_inv [OF step_finish(3,1,2)]) simp_all
next
  case (step_update l s e m)
  then show ?case by (intro update_inv)
next
  case (step_remove s i)
  then show ?case
    by (auto simp: os_inv_def out_removeStream_def count_ok_def report_ok_def ctx_ok_def
        intro: chans_ok_cong wake_ok_cong)
next
  case (step_close e s gs cl m)
  then show ?case by (intro close_inv)
next
  case (step_cancel s g e)
  then show ?case by (simp add: os_inv_def)
qed

lemma os_inv_reach: "reach (os_start n) os_step s \<Longrightarrow> os_inv s"
  by (erule reach_invariant) (auto intro: os_inv_start os_inv_step)


lemma os_inv_opened: "os_inv s \<Longrightarrow> os_opened s \<le> unat (osm_maxStreams (os_map s))"
  by (auto simp: os_inv_def count_ok_def word_le_nat_alt split: if_splits)

section \<open>What it means for the callers\<close>

text \<open>
  C8. However many goroutines call \<open>OpenStream\<close> and \<open>OpenStreamSync\<close>, while limits arrive, calls
  are cancelled, QUIC refuses streams and the session is closed: no run-time panic happens, never
  more streams are returned than the peer's limit allows, and while the session is open
  \<open>numStreams\<close> is exactly the streams returned plus the reservations in progress.
\<close>

theorem open_streams_within_limit:
  assumes "reach (os_start n) os_step s"
  shows "\<not> osm_panic (os_map s) \<and> os_opened s \<le> unat (osm_maxStreams (os_map s))
    \<and> (osm_closeErr (os_map s) = None \<longrightarrow>
      unat (osm_numStreams (os_map s)) = os_opened s + card {g. holds_stream (os_pc s g)})"
  using os_inv_reach [OF assms] os_inv_opened [OF os_inv_reach [OF assms]] chans_okD(11)
  by (auto simp: os_inv_def count_ok_def)

text \<open>
  C4. First come, first served, and no lost wake-up: while the session is open, some goroutine owns
  the head of the queue; if the limit leaves room, it has been woken (it took the token, or the
  token is in its channel), and no other waiting goroutine is; if the limit leaves no room, nobody is.
\<close>

theorem open_sync_wakes_the_first:
  assumes "reach (os_start n) os_step s" and "osm_openQueue (os_map s) = c # q"
  shows "(\<exists>!g. chan_of (os_pc s g) = Some c)
    \<and> (osm_numStreams (os_map s) < osm_maxStreams (os_map s) \<longleftrightarrow>
         ch_token (osm_chan (os_map s) c) \<or> (\<exists>g. os_pc s g = PWoken c))
    \<and> (\<forall>d \<in> set q. \<not> ch_token (osm_chan (os_map s) d) \<and> (\<forall>g. os_pc s g \<noteq> PWoken d))"
proof -
  from os_inv_reach [OF assms(1)] have ok: "chans_ok (os_map s) (os_pc s)" and w: "wake_ok (os_map s) (os_pc s)"
    by (simp_all add: os_inv_def)
  from assms(2) have "c \<in> set (osm_openQueue (os_map s))" by simp
  from chans_okD(6) [OF ok this] obtain g where g: "chan_of (os_pc s g) = Some c" by blast
  with chans_okD(10) [OF ok g] have "\<exists>!g. chan_of (os_pc s g) = Some c" by blast
  with wake_okD [OF w assms(2)] show ?thesis by (simp add: has_wakeup_def)
qed

text \<open>
  \<open>queueBlocked\<close> is called at most once for each limit, and only for limits the peer announced
  (never above the current one), whichever goroutines hit the limit.
\<close>

theorem streams_blocked_reported_once:
  assumes "reach (os_start n) os_step s"
  shows "distinct (os_reported s) \<and> (\<forall>l \<in> set (os_reported s). l \<le> osm_maxStreams (os_map s))"
  using os_inv_reach [OF assms] by (auto simp: os_inv_def report_ok_def)

text \<open>
  After \<open>CloseSession\<close> nobody waits any more: every goroutine in the \<open>select\<close> finds its channel
  closed and will return the close error, the context of every goroutine that is opening a QUIC
  stream has been cancelled, and whatever QUIC answers, the call returns the close error.
\<close>

theorem close_releases_waiters:
  assumes "reach (os_start n) os_step s" and "osm_closeErr (os_map s) = Some e"
  shows "(os_pc s g = PSelect c \<longrightarrow> ch_closed (osm_chan (os_map s) c)
        \<and> openSync_woken ctx c (os_map s) = (WaitErr e, os_map s))
    \<and> (os_pc s g = POpening i \<longrightarrow> os_cancel s g
        \<and> fst (fst (openSync_finish i opened (os_map s))) = Inl e)"
proof (intro conjI impI)
  from os_inv_reach [OF assms(1)] have ok: "chans_ok (os_map s) (os_pc s)" and c: "ctx_ok (os_map s) (os_pc s) (os_cancel s)"
    by (simp_all add: os_inv_def)
  show "ch_closed (osm_chan (os_map s) c)" if "os_pc s g = PSelect c"
    using chans_okD(8) [OF ok, of g c] assms(2) that by simp
  show "os_cancel s g" if "os_pc s g = POpening i"
    using c assms(2) that by (auto simp: ctx_ok_def)
qed (use assms(2) in \<open>auto simp: openSync_woken_def openSync_finish_def Let_def split: sum.split\<close>)

subsection \<open>An example run\<close>

text \<open>
  With limit 1: goroutine 0 opens a stream, goroutine 1 waits for the next one and reports the
  limit, then the limit is raised to 2, and finally the session is closed.
\<close>

definition os_ex0 :: "string os_state" where
  "os_ex0 = \<lparr>os_map = newOutgoingStreamsMap 1, os_pc = (\<lambda>_. PReady None), os_ctx = (\<lambda>_. None),
     os_cancel = (\<lambda>_. False), os_reported = [], os_opened = 0\<rparr>"

definition os_ex1 :: "string os_state" where
  "os_ex1 = os_ex0\<lparr>os_map := snd (OpenStream (Inr (3, ''s'')) (os_map os_ex0)),
     os_pc := (\<lambda>_. PReady None)(0 := PReady (Some (Inr ''s''))), os_opened := 1\<rparr>"

definition os_ex2 :: "string os_state" where
  "os_ex2 = set_pc 1 (PBlocked 0 1) (os_ex1\<lparr>os_map := snd (openSync_enter None (os_map os_ex1)),
     os_ctx := (os_ctx os_ex1)(1 := None), os_cancel := (os_cancel os_ex1)(1 := False)\<rparr>)"

definition os_ex3 :: "string os_state" where
  "os_ex3 = set_pc 1 (PRelock 0) (os_ex2\<lparr>os_reported := os_reported os_ex2 @ [1]\<rparr>)"

definition os_ex4 :: "string os_state" where
  "os_ex4 = set_pc 1 (PSelect 0) (os_ex3\<lparr>os_map := os_map os_ex3\<rparr>)"

definition os_ex5 :: "string os_state" where
  "os_ex5 = os_ex4\<lparr>os_map := snd (UpdateStreamLimit 2 (os_map os_ex4))\<rparr>"

definition os_ex6 :: "string os_state" where
  "os_ex6 = os_ex5\<lparr>os_map := snd (out_CloseSession ECanceled (os_map os_ex5)),
     os_cancel := (\<lambda>g. os_cancel os_ex5 g \<or> g \<in> set [])\<rparr>"

lemma two_le_one_u64: "(2 :: u64) \<le> 1 \<longleftrightarrow> False"
  by (simp add: word_le_nat_alt)

lemmas os_ex_defs = two_le_one_u64 os_ex6_def os_ex5_def os_ex4_def os_ex3_def os_ex2_def os_ex1_def os_ex0_def
  newOutgoingStreamsMap_def maybeUnblockOpenSync_def open_chan_def out_defs

lemma os_ex1_step: "os_step os_ex0 os_ex1"
  using step_open [where s = os_ex0 and g = 0 and opened = "Inr (3, ''s'')" and r = None and res = "Inr ''s''"
      and b = None and m = "snd (OpenStream (Inr (3, ''s'')) (os_map os_ex0))"]
  by (simp add: os_ex_defs)

lemma os_ex5_reach: "reach (os_start 1) os_step os_ex5"
proof -
  have 0: "reach (os_start 1) os_step os_ex0"
    by (rule reach_init) (simp add: os_start_def os_ex0_def)
  from reach_step [OF 0 os_ex1_step] have 1: "reach (os_start 1) os_step os_ex1" .
  have "os_step os_ex1 os_ex2"
    using step_enter [where s = os_ex1 and g = 1 and ctx = None and rands = "[]" and r = None
        and p = "PBlocked 0 1" and m = "snd (openSync_enter None (os_map os_ex1))"]
    by (simp add: os_ex_defs sync_next_def)
  from reach_step [OF 1 this] have 2: "reach (os_start 1) os_step os_ex2" .
  have "os_step os_ex2 os_ex3"
    unfolding os_ex3_def by (rule step_blocked) (simp add: os_ex2_def)
  from reach_step [OF 2 this] have 3: "reach (os_start 1) os_step os_ex3" .
  have "os_step os_ex3 os_ex4"
    unfolding os_ex4_def
    by (rule step_relock [where rands = "[]"]) (simp_all add: os_ex_defs sync_next_def relock_result_def)
  from reach_step [OF 3 this] have 4: "reach (os_start 1) os_step os_ex4" .
  have "os_step os_ex4 os_ex5"
    unfolding os_ex5_def by (rule step_update [where l = 2 and e = None]) (simp add: os_ex_defs)
  from reach_step [OF 4 this] show ?thesis .
qed

lemma os_ex6_reach: "reach (os_start 1) os_step os_ex6"
proof (rule reach_step [OF os_ex5_reach])
  show "os_step os_ex5 os_ex6"
    unfolding os_ex6_def
    by (rule step_close [where e = ECanceled and cl = "[(''s'', ECanceled)]"]) (simp add: os_ex_defs)
qed

theorem open_streams_within_limit_witness: "os_opened os_ex5 = 1 \<and> unat (osm_maxStreams (os_map os_ex5)) = 2
    \<and> os_opened os_ex5 \<le> unat (osm_maxStreams (os_map os_ex5))"
proof -
  have "os_opened os_ex5 = 1" "unat (osm_maxStreams (os_map os_ex5)) = 2" by (simp_all add: os_ex_defs)
  with open_streams_within_limit [OF os_ex5_reach] show ?thesis by blast
qed

theorem open_sync_wakes_the_first_witness: "os_pc os_ex5 1 = PSelect 0 \<and> ch_token (osm_chan (os_map os_ex5) 0)"
proof -
  have "osm_openQueue (os_map os_ex5) = 0 # []" "osm_numStreams (os_map os_ex5) < osm_maxStreams (os_map os_ex5)"
    "\<forall>g. os_pc os_ex5 g \<noteq> PWoken 0" "os_pc os_ex5 1 = PSelect 0"
    by (simp_all add: os_ex_defs)
  with open_sync_wakes_the_first [OF os_ex5_reach this(1)] show ?thesis by blast
qed

theorem streams_blocked_reported_once_witness: "os_reported os_ex5 = [1] \<and> distinct (os_reported os_ex5)"
proof -
  have "os_reported os_ex5 = [1]" by (simp add: os_ex_defs)
  with streams_blocked_reported_once [OF os_ex5_reach] show ?thesis by blast
qed

theorem close_releases_waiters_witness:
  "os_pc os_ex6 1 = PSelect 0 \<and> openSync_woken None 0 (os_map os_ex6) = (WaitErr ECanceled, os_map os_ex6)"
proof -
  have "osm_closeErr (os_map os_ex6) = Some ECanceled" "os_pc os_ex6 1 = PSelect 0"
    by (simp_all add: os_ex_defs)
  with close_releases_waiters [OF os_ex6_reach this(1), of 1 0 None] show ?thesis by blast
qed

end
