(* ===== verification/WT_StreamLimits.thy ===== *)
theory WT_StreamLimits
  imports WT_OutgoingSync WT_Incoming
begin

text \<open>
  The stream limits end to end: one endpoint's outgoing map (with any number of goroutines that
  open streams, theory \<open>WT_OutgoingSync\<close>) and the other endpoint's incoming map (theory
  \<open>WT_Incoming\<close>), connected by the streams and by WT_MAX_STREAMS capsules that arrive in order, are
  an instance of the credit protocol of \<open>WT_Credit\<close>.
\<close>

section \<open>The opening side as a sender of credit\<close>

text \<open>
  One unit is one stream returned to a caller. \<open>os_send\<close> performs any step of the goroutines that
  neither closes the session nor processes a limit; the step is chosen by its result \<open>t\<close>.
\<close>

definition os_sinv :: "'t os_state \<Rightarrow> bool" where
  "os_sinv s \<longleftrightarrow> os_inv s \<and> osm_closeErr (os_map s) = None"

definition os_sent :: "'t os_state \<Rightarrow> int" where
  "os_sent s = int (os_opened s)"

definition os_lim :: "'t os_state \<Rightarrow> int" where
  "os_lim s = uint (osm_maxStreams (os_map s))"

definition os_send :: "'t os_state \<Rightarrow> 't os_state \<Rightarrow> int \<times> 't os_state" where
  "os_send t s =
     (if os_step s t \<and> osm_maxStreams (os_map t) = osm_maxStreams (os_map s) \<and> osm_closeErr (os_map t) = None
      then (os_sent t - os_sent s, t) else (0, s))"

definition os_upd :: "int \<Rightarrow> 't os_state \<Rightarrow> bool \<times> 't os_state" where
  "os_upd l s =
     (let (e, m) = UpdateStreamLimit (word_of_int l) (os_map s) in (e = None, s\<lparr>os_map := m\<rparr>))"

lemma os_step_opened: "os_step s t \<Longrightarrow> os_opened s \<le> os_opened t"
  by (induction rule: os_step.induct) simp_all

lemma uint_word_of_stream_limit: "0 \<le> l \<Longrightarrow> l \<le> 2 ^ 60 \<Longrightarrow> uint (word_of_int l :: u64) = l"
  by (simp add: uint_word_of_int)

interpretation out_credit: credit_sender os_sinv os_sent os_lim os_send os_upd "2 ^ 60"
proof
  show "os_sent s \<le> os_lim s" if "os_sinv s" for s :: "'t os_state"
  proof -
    have "os_opened s \<le> unat (osm_maxStreams (os_map s))"
      using that by (intro os_inv_opened) (simp add: os_sinv_def)
    then show ?thesis by (simp only: os_sent_def os_lim_def uint_nat of_nat_le_iff)
  qed
  show "os_sinv s' \<and> 0 \<le> a \<and> os_sent s' = os_sent s + a \<and> os_lim s' = os_lim s"
    if "os_sinv s" "os_send d s = (a, s')" for s d s' :: "'t os_state" and a
    using that os_inv_step [of s d] os_step_opened [of s d]
    by (auto simp: os_send_def os_sinv_def os_lim_def os_sent_def split: if_splits)
  show "ok \<and> os_sinv s' \<and> os_lim s' = l \<and> os_sent s' = os_sent s"
    if s: "os_sinv s" "os_lim s < l" "l \<le> 2 ^ 60" "os_upd l s = (ok, s')" for s s' :: "'t os_state" and l ok
  proof -
    obtain e m where u: "UpdateStreamLimit (word_of_int l) (os_map s) = (e, m)"
      by (cases "UpdateStreamLimit (word_of_int l) (os_map s)")
    have "0 \<le> l" using s(2) uint_ge_0 [of "osm_maxStreams (os_map s)"] unfolding os_lim_def by linarith
    note l = uint_word_of_stream_limit [OF this s(3)]
    with s(1,2) u have m: "e = None" "osm_closeErr m = None" "uint (osm_maxStreams m) = l"
      by (simp_all add: UpdateStreamLimit_def os_sinv_def os_lim_def word_le_def split: if_splits) auto
    from s(4) u m(1) have "ok" "s' = s\<lparr>os_map := m\<rparr>" by (simp_all add: os_upd_def)
    with update_inv [OF _ u] s(1) m show ?thesis by (simp add: os_sinv_def os_lim_def os_sent_def)
  qed
  show "\<not> fst (os_upd l s)" if "os_sinv s" "0 \<le> l" "l \<le> os_lim s" for s :: "'t os_state" and l
  proof -
    have "l < 2 ^ 64" using that(3) uint_lt2p [of "osm_maxStreams (os_map s)"] by (simp add: os_lim_def)
    with that(2) have "uint (word_of_int l :: u64) = l" by (simp add: uint_word_of_int)
    with that show ?thesis
      by (simp add: os_upd_def UpdateStreamLimit_def os_sinv_def os_lim_def word_le_def)
  qed
qed


section \<open>Both sides together\<close>

interpretation stream_net: credit_protocol os_sinv os_sent os_lim os_send os_upd
  "in_rinv n" in_rcvd in_adv in_ann in_rstep in_units "2 ^ 60" "2 ^ 60"
  for n
  by unfold_locales

abbreviation streams_reach :: "u64 \<Rightarrow> 't os_state \<Rightarrow> ('t os_state, 'r in_state) net \<Rightarrow> bool" where
  "streams_reach n s0 x \<equiv>
     reach (net_init s0 \<lparr>i_map = newIncomingStreamsMap n, i_pending = [], i_announced = []\<rparr>)
       (net_step os_send os_upd os_sent in_rstep in_units (2 ^ 60)) x"

lemma streams_reach_inv:
  assumes "streams_reach n s0 x" and "os_start n s0" and "n \<le> maxStreamsLimit"
  shows "stream_net.net_inv n x"
proof (rule stream_net.net_inv_reach [OF assms(1)])
  let ?r = "\<lparr>i_map = newIncomingStreamsMap n, i_pending = [], i_announced = []\<rparr> :: 'b in_state"
  show "os_sinv s0" using os_inv_start [OF assms(2)] assms(2)
    by (simp add: os_sinv_def os_start_def newOutgoingStreamsMap_def)
  show "in_rinv n ?r" using announce_inv_start [of n ?r]
    by (simp add: in_rinv_def in_start_def newIncomingStreamsMap_def Let_def)
  show "os_sent s0 = in_rcvd ?r" "os_sent s0 \<le> 2 ^ 60" "os_lim s0 = in_ann ?r"
    using assms(2,3) by (simp_all add: os_start_def os_sent_def in_rcvd_def os_lim_def in_ann_def
        newOutgoingStreamsMap_def newIncomingStreamsMap_def min_def)
qed

text \<open>
  C5. Stream limits are safe end to end: when both endpoints start from the same limit, streams and
  WT_MAX_STREAMS capsules travel in any relative order and the capsules in order, then neither
  endpoint ever raises a flow control error (no stream above the announced limit, no limit that
  does not increase), every returned stream is known to the peer or in flight, and the number of
  returned streams is within what the peer accepts.
\<close>

theorem stream_limits_safe:
  assumes "streams_reach n s0 x" and "os_start n s0" and "n \<le> maxStreamsLimit"
  shows "\<not> n_err x \<and> int (os_opened (n_snd x)) \<le> uint (ism_maxStreams (i_map (n_rcv x)))
    \<and> int (os_opened (n_snd x)) = uint (ism_numStreams (i_map (n_rcv x))) + n_flight x"
proof -
  note inv = streams_reach_inv [OF assms]
  from inv have "\<not> n_err x" "os_sent (n_snd x) = in_rcvd (n_rcv x) + n_flight x"
    unfolding stream_net.net_inv_def by blast+
  with stream_net.net_invD(2) [OF inv] show ?thesis by (simp add: os_sent_def in_adv_def in_rcvd_def)
qed


definition streams_example :: "(string os_state, string in_state) net" where
  "streams_example =
     \<lparr>n_snd = os_ex1,
      n_rcv = \<lparr>i_map = (newIncomingStreamsMap 1)\<lparr>ism_numStreams := 1, ism_m := Some [(3, ''s'')],
                 ism_acceptQueue := \<lparr>aq_c = True, aq_queue = [''s'']\<rparr>\<rparr>,
               i_pending = [], i_announced = []\<rparr>,
      n_flight = 0, n_caps = [], n_err = False\<rparr>"

lemma streams_example_reach: "streams_reach 1 os_ex0 streams_example"
proof -
  let ?r0 = "\<lparr>i_map = newIncomingStreamsMap 1, i_pending = [], i_announced = []\<rparr> :: string in_state"
  let ?n0 = "\<lparr>n_snd = os_ex0, n_rcv = ?r0, n_flight = 0, n_caps = [], n_err = False\<rparr>"
  let ?n1 = "?n0\<lparr>n_snd := os_ex1, n_flight := 1\<rparr>"
  let ?S = "net_step os_send os_upd os_sent in_rstep in_units (2 ^ 60)"
  have 0: "streams_reach 1 os_ex0 ?n0" by (rule reach_init) (simp add: net_init_def)
  have "os_send os_ex1 os_ex0 = (1, os_ex1)"
    using os_ex1_step by (simp add: os_send_def os_sent_def os_ex_defs)
  moreover have "os_sent os_ex1 \<le> 2 ^ 60" by (simp add: os_sent_def os_ex_defs)
  ultimately have "?S ?n0 ?n1"
    using net_step.net_send [where n = ?n0 and d = os_ex1 and a = 1 and s' = os_ex1] by simp
  from reach_step [OF 0 this] have 1: "streams_reach 1 os_ex0 ?n1" .
  have "in_rstep (InAdd 3 ''s'') ?r0 = ((True, []), n_rcv streams_example)"
    by (simp add: streams_example_def in_AddStream_def newIncomingStreamsMap_def Let_def newAcceptQueue_def
        maxStreamsLimit_def acceptQueue_add_def acceptQueue_notify_def acceptQueue_enqueue_def)
  then have "?S ?n1 streams_example"
    using net_step.net_recv [where n = ?n1 and e = "InAdd 3 ''s''" and units = in_units and rstep = in_rstep
        and ok = True and as = "[]" and r' = "n_rcv streams_example"]
    by (simp add: streams_example_def)
  from reach_step [OF 1 this] show ?thesis .
qed

theorem stream_limits_safe_witness: "streams_reach 1 os_ex0 streams_example \<and> \<not> n_err streams_example
    \<and> int (os_opened (n_snd streams_example)) \<le> uint (ism_maxStreams (i_map (n_rcv streams_example)))"
proof -
  have "os_start 1 os_ex0" "1 \<le> maxStreamsLimit"
    by (simp_all add: os_start_def os_ex0_def maxStreamsLimit_def)
  from stream_limits_safe [OF streams_example_reach this] streams_example_reach show ?thesis by blast
qed

section \<open>Credit comes back\<close>

text \<open>When no stream is open, the peer may open as many as were configured, up to the limit of \<open>2^60\<close> in all.\<close>

definition idle_full :: "u64 \<Rightarrow> 't incomingStreamsMap \<Rightarrow> bool" where
  "idle_full n s \<longleftrightarrow> ism_maxOpenStreams s = min n maxStreamsLimit
     \<and> (ism_m s = Some [] \<longrightarrow>
          unat (ism_maxStreams s) = min (unat (ism_numStreams s) + unat (ism_maxOpenStreams s)) (2 ^ 60))"

lemma idle_full_remove:
  assumes inv: "in_inv_map s" and full: "idle_full n s" and r: "RemoveStream_mx i s = (v, s')"
  shows "idle_full n s'"
  using r
proof (cases rule: RemoveStream_mx_cases [OF inv r, case_names absent kept raised])
  case absent
  with full show ?thesis by simp
next
  case (kept m)
  note D = in_inv_mapD [OF inv kept(1)]
  have "m \<noteq> []" using kept(2) by auto
  with D(2) have "0 < unat (ism_maxOpenStreams s)" by (cases m) auto
  with kept D show ?thesis using full by (auto simp: idle_full_def)
next
  case (raised m w)
  with full show ?thesis by (auto simp: idle_full_def)
qed

lemma idle_full_step:
  assumes "in_inv_map (i_map s)" "idle_full n (i_map s)" "in_step s t"
  shows "idle_full n (i_map t)"
  using assms(3)
proof (cases rule: in_step.cases)
  case (in_add i str r m')
  have "AList.update i str m \<noteq> []" for m by (cases m) auto
  with in_add assms(2) show ?thesis by (auto simp: idle_full_def in_AddStream_def split: option.splits if_splits)
next
  case (in_remove i v m')
  with idle_full_remove [OF assms(1,2)] show ?thesis by simp
next
  case (in_queue xs w ys as m')
  with assms(2) show ?thesis by (auto simp: idle_full_def RemoveStream_queue_def split: if_splits)
next
  case in_accept
  with assms(2) show ?thesis by (simp add: idle_full_def)
next
  case (in_close e)
  with assms(2) show ?thesis by (auto simp: idle_full_def in_CloseSession_def split: option.splits)
qed

lemma streams_reach_idle:
  assumes "streams_reach n s0 x" and "os_start n s0" and "n \<le> maxStreamsLimit"
  shows "idle_full n (i_map (n_rcv x))"
  using assms(1)
proof (rule reach_invariant)
  show "idle_full n (i_map (n_rcv y))"
    if "net_init s0 \<lparr>i_map = newIncomingStreamsMap n, i_pending = [], i_announced = []\<rparr> y" for y :: "('a os_state, 'b in_state) net"
    using that unat_maxStreamsLimit
    by (auto simp: net_init_def idle_full_def newIncomingStreamsMap_def Let_def min_def word_le_nat_alt)
next
  fix y z :: "('a os_state, 'b in_state) net"
  assume y: "streams_reach n s0 y" "idle_full n (i_map (n_rcv y))"
    and step: "net_step os_send os_upd os_sent in_rstep in_units (2 ^ 60) y z"
  have ri: "in_rinv n (n_rcv y)" using streams_reach_inv [OF y(1) assms(2,3)] unfolding stream_net.net_inv_def by blast
  have "idle_full n (i_map r')" if "in_rstep e (n_rcv y) = ((ok, as), r')" for e ok as r'
    using in_rstep_in_step [OF ri that] y(2) ri idle_full_step by (auto simp: in_rinv_def announce_inv_def)
  with step y(2) show "idle_full n (i_map (n_rcv z))" by (cases rule: net_step.cases) auto
qed

text \<open>
  C32. Stream credit is never lost. When nothing is on the way between the endpoints and the accepting one
  has no stream open and no \<open>RemoveStream\<close> call under way, then the opening endpoint may open as
  many further streams as the other one allows at a time, until \<open>2^60\<close> have been opened in all.
\<close>

theorem stream_limits_live:
  assumes "streams_reach n s0 x" and "os_start n s0" and "n \<le> maxStreamsLimit"
    and "n_flight x = 0" "n_caps x = []" "i_pending (n_rcv x) = []" "ism_m (i_map (n_rcv x)) = Some []"
  shows "unat (osm_maxStreams (os_map (n_snd x))) = min (os_opened (n_snd x) + unat n) (2 ^ 60)"
proof -
  let ?m = "i_map (n_rcv x)"
  note inv = streams_reach_inv [OF assms(1-3)]
  have "announce_inv n (n_rcv x)" using inv unfolding stream_net.net_inv_def in_rinv_def by blast
  then have "ism_queuedMaxStreams ?m = ism_maxStreams ?m" using assms(6) by (auto simp: announce_inv_def)
  with stream_net.net_inv_quiescent [OF inv assms(4,5)]
  have lim: "osm_maxStreams (os_map (n_snd x)) = ism_maxStreams ?m" and "int (os_opened (n_snd x)) = uint (ism_numStreams ?m)"
    by (simp_all add: os_lim_def in_ann_def os_sent_def in_rcvd_def word_uint_eq_iff)
  then have "os_opened (n_snd x) = unat (ism_numStreams ?m)" by (simp only: uint_nat of_nat_eq_iff)
  with lim streams_reach_idle [OF assms(1-3)] assms(3,7) show ?thesis by (simp add: idle_full_def min_def)
qed

text \<open>The stream of the example is removed, and the new limit announced and processed: one more may be opened.\<close>

definition streams_example' :: "(string os_state, string in_state) net" where
  "streams_example' =
     \<lparr>n_snd = snd (os_upd 2 os_ex1),
      n_rcv = \<lparr>i_map = (newIncomingStreamsMap 1)\<lparr>ism_numStreams := 1, ism_maxStreams := 2, ism_queuedMaxStreams := 2,
                 ism_acceptQueue := \<lparr>aq_c = True, aq_queue = [''s'']\<rparr>\<rparr>,
               i_pending = [], i_announced = [2]\<rparr>,
      n_flight = 0, n_caps = [], n_err = False\<rparr>"

lemma streams_example'_reach: "streams_reach 1 os_ex0 streams_example'"
proof -
  let ?S = "net_step os_send os_upd os_sent in_rstep in_units (2 ^ 60)"
  let ?m0 = "i_map (n_rcv streams_example)"
  let ?r1 = "\<lparr>i_map = ?m0\<lparr>ism_m := Some [], ism_maxStreams := 2\<rparr>, i_pending = [2], i_announced = []\<rparr>"
  let ?x1 = "streams_example\<lparr>n_rcv := ?r1\<rparr>"
  let ?x2 = "streams_example\<lparr>n_rcv := n_rcv streams_example', n_caps := [2]\<rparr>"
  note evals = streams_example_def streams_example'_def newIncomingStreamsMap_def Let_def newAcceptQueue_def
    maxStreamsLimit_def RemoveStream_mx_def RemoveStream_queue_def min_def
  have "in_rstep (InRemove 3) (n_rcv streams_example) = ((True, []), ?r1)" by (simp add: evals)
  then have "?S streams_example ?x1"
    using net_step.net_recv [where n = streams_example and e = "InRemove 3" and units = in_units and rstep = in_rstep
        and ok = True and as = "[]" and r' = ?r1] by (simp add: streams_example_def)
  from reach_step [OF streams_example_reach this] have 1: "streams_reach 1 os_ex0 ?x1" .
  have "in_rstep (InQueue 0) ?r1 = ((True, [2]), n_rcv streams_example')" by (simp add: evals)
  then have "?S ?x1 ?x2"
    using net_step.net_recv [where n = ?x1 and e = "InQueue 0" and units = in_units and rstep = in_rstep
        and ok = True and as = "[2]" and r' = "n_rcv streams_example'"] by (simp add: streams_example_def)
  from reach_step [OF 1 this] have 2: "streams_reach 1 os_ex0 ?x2" .
  have "os_upd 2 os_ex1 = (True, n_snd streams_example')"
    by (simp add: streams_example'_def os_upd_def UpdateStreamLimit_def os_ex_defs case_prod_beta)
  then have "?S ?x2 streams_example'"
    using net_step.net_limit [where n = ?x2 and l = 2 and ls = "[]" and upd = os_upd and ok = True and s' = "n_snd streams_example'"]
    by (simp add: streams_example_def streams_example'_def)
  from reach_step [OF 2 this] show ?thesis .
qed

theorem stream_limits_live_witness:
  "streams_reach 1 os_ex0 streams_example' \<and> os_opened (n_snd streams_example') = 1
   \<and> unat (osm_maxStreams (os_map (n_snd streams_example'))) = 2"
proof -
  have "os_start 1 os_ex0" "1 \<le> maxStreamsLimit"
    by (simp_all add: os_start_def os_ex0_def maxStreamsLimit_def)
  moreover have "n_flight streams_example' = 0" "n_caps streams_example' = []" "i_pending (n_rcv streams_example') = []"
      "ism_m (i_map (n_rcv streams_example')) = Some []" "os_opened (n_snd streams_example') = 1"
    by (simp_all add: streams_example'_def newIncomingStreamsMap_def Let_def os_upd_def case_prod_beta os_ex_defs)
  ultimately show ?thesis
    using stream_limits_live [OF streams_example'_reach] streams_example'_reach by simp
qed

end
