(* ===== verification/WT_Handshake.thy ===== *)
theory WT_Handshake
  imports WT_Client WT_CapsuleQueue WT_StreamLimits
begin

text \<open>
  Both ends of the establishment of a session: what a server that was configured and serves
  connections advertises, what a successful \<open>Upgrade\<close> created and answered, and how the sessions
  that client and server create correspond. The root theory states the agreement of both ends.
\<close>

section \<open>What a server advertises\<close>

definition h3_configured :: "Config \<Rightarrow> 'c h3_Server \<Rightarrow> 'c h3_Server" where
  "h3_configured cfg h3 =
     (let h3' = ConfigureHTTP3Server h3
      in h3'\<lparr>h3_AdditionalSettings := map_option (addSettings cfg) (h3_AdditionalSettings h3')\<rparr>)"

text \<open>What never changes after \<open>initialize\<close>.\<close>

definition srv_static :: "'c h3_Server option \<Rightarrow> Config option \<Rightarrow> string list \<Rightarrow> ('c, 'b, 'u, 's) Server \<Rightarrow> bool" where
  "srv_static h3 cfg ps s \<longleftrightarrow>
     srv_Config s = cfg \<and> srv_ApplicationProtocols s = ps
     \<and> srv_config s = (if srv_inited s then effective_config cfg else zero_Config)
     \<and> srv_H3 s = (if srv_inited s then map_option (h3_configured (effective_config cfg)) h3 else h3)"

lemma srv_static_initialize: "srv_static h3 cfg ps s \<Longrightarrow> srv_static h3 cfg ps (server_initialize s)"
  by (auto simp: srv_static_def server_initialize_def server_init_def effective_config_def
      h3_configured_def [abs_def] Let_def split: option.splits)

lemma srv_static_conns [simp]: "srv_static h3 cfg ps (s\<lparr>srv_conns := x\<rparr>) = srv_static h3 cfg ps s"
  "srv_static h3 cfg ps (s\<lparr>srv_closed := b\<rparr>) = srv_static h3 cfg ps s"
  "srv_static h3 cfg ps (s\<lparr>srv_ctxDone := b\<rparr>) = srv_static h3 cfg ps s"
  by (simp_all add: srv_static_def)

lemma srv_static_step:
  assumes "srv_step sfv ext settings_of s s'" "srv_static h3 cfg ps s"
  shows "srv_static h3 cfg ps s'"
  using assms
proof (induction rule: srv_step.induct)
  case (srv_upgrade r s res s')
  obtain a b where "res = (a, b)" by (cases res)
  with srv_upgrade Upgrade_cases [of sfv ext r s a b s'] show ?case
    by (auto simp: upgraded_def Let_def srv_static_initialize)
qed (auto simp: ServeQUICConn_def server_Close_def server_connDone_def Let_def srv_static_initialize
      split: if_splits option.splits)

lemma srv_static_reach:
  "reach (srv_initial h3 cfg ps) (srv_step sfv ext settings_of) s \<Longrightarrow> srv_static h3 cfg ps s"
proof (erule reach_invariant)
  fix s t assume "srv_static h3 cfg ps s" "srv_step sfv ext settings_of s t"
  then show "srv_static h3 cfg ps t" by (blast intro: srv_static_step)
qed (simp add: srv_initial_def newServer_def srv_static_def)

text \<open>A reachable server that was initialised: its configuration, protocols and settings.\<close>

lemma server_advertises:
  assumes "reach (srv_initial (Some h3) cfg ps) (srv_step sfv ext settings_of) s"
  shows "srv_config (server_initialize s) = effective_config cfg \<and> srv_ApplicationProtocols (server_initialize s) = ps
    \<and> (\<exists>h3' m. srv_H3 (server_initialize s) = Some h3' \<and> h3_EnableDatagrams h3'
         \<and> h3_AdditionalSettings h3' = Some (addSettings (effective_config cfg) m)
         \<and> m settingsWebTransportEnabled = Some 1)"
proof -
  have "srv_inited (server_initialize s)" by (simp add: server_initialize_def)
  moreover note srv_static_initialize [OF srv_static_reach [OF assms]]
  ultimately show ?thesis
    by (auto simp: srv_static_def h3_configured_def ConfigureHTTP3Server_def Let_def settings_ids)
qed

section \<open>A successful upgrade\<close>

definition upgrade_made where
  "upgrade_made sfv r s x \<longleftrightarrow>
     isl (fst (fst x))
     \<or> (\<exists>conn settings hs mes. let p = selectProtocol sfv (srv_ApplicationProtocols s) (rq_protocols r) in
          rq_settings r = SettingsReceived settings \<and> EnableDatagrams settings
          \<and> fst (fst x) = Inr (newSession (rq_streamID r) p (Config_sessionFlowControl (srv_config s) (Some settings)))
          \<and> snd (fst x) = hs @ [ManagerEffects conn mes, RespondOK]
          \<and> (if p = '''' then hs = [] else \<exists>v. sfv_MarshalItem sfv p = Inr v \<and> hs = [AddProtocolHeader v]))"

lemma map_sum_Inr_iff: "map_sum f g x = Inr y \<longleftrightarrow> (\<exists>z. x = Inr z \<and> y = g z)"
  by (cases x) auto

lemma Upgrade_made: "upgrade_made sfv r (server_initialize s) (Upgrade sfv ext r s)"
  unfolding Upgrade_def Let_def upgrade_made_def
  by (auto simp: map_sum_Inr_iff split: option.split settings_wait.split sum.split prod.split)

section \<open>Corresponding sessions\<close>

text \<open>
  What two ends of a session agree on: identity, protocol, and each end's credit is what the other
  end allows, for both kinds of streams and for data.
\<close>

definition credit_matches :: "Session \<Rightarrow> Session \<Rightarrow> bool" where
  "credit_matches a b \<longleftrightarrow>
     osm_maxStreams (ses_outgoingStreams a) = ism_maxStreams (ses_incomingStreams b)
     \<and> osm_maxStreams (ses_outgoingUniStreams a) = ism_maxStreams (ses_incomingUniStreams b)
     \<and> map_option out_maxData (ses_outgoingDataFC a) = map_option in_maxData (ses_incomingDataFC b)"

definition sessions_match :: "Session \<Rightarrow> Session \<Rightarrow> bool" where
  "sessions_match a b \<longleftrightarrow>
     ses_sessionID a = ses_sessionID b \<and> ses_applicationProtocol a = ses_applicationProtocol b
     \<and> ses_flowControlEnabled a = ses_flowControlEnabled b \<and> credit_matches a b \<and> credit_matches b a"

lemma streamLimit_min [simp]: "min (streamLimit x) maxStreamsLimit = streamLimit x"
  by (simp add: min_def streamLimit_le)

lemma newSession_match:
  assumes "wf_Config c" "wf_Config d"
    and "Other rd = Some (addSettings d sd)" "Other rc = Some (addSettings c sc)"
  shows "sessions_match (newSession i p (Config_sessionFlowControl c (Some rd)))
           (newSession i p (Config_sessionFlowControl d (Some rc)))"
proof (cases "fc_offered c \<and> fc_offered d")
  case True
  with sessionFlowControl_peer [of c d rd sd] sessionFlowControl_peer [of d c rc sc] assms show ?thesis
    by (simp add: sessions_match_def credit_matches_def newSession_def newIncomingStreamsMap_def
        newOutgoingStreamsMap_def newOutgoingDataFlowController_def newIncomingDataFlowController_def Let_def)
next
  case False
  then have "Config_sessionFlowControl c (Some rd) = zero_sessionFlowControl"
    "Config_sessionFlowControl d (Some rc) = zero_sessionFlowControl"
    using sessionFlowControl_peer [of c d rd sd] sessionFlowControl_peer [of d c rc sc] assms
    by (cases "fc_offered c"; cases "fc_offered d"; simp add: sessionFlowControl_off)+
  then show ?thesis
    by (simp add: sessions_match_def credit_matches_def newSession_def newIncomingStreamsMap_def
        newOutgoingStreamsMap_def zero_sessionFlowControl_def Let_def)
qed

section \<open>Request and response\<close>

definition header_values :: "http_Header \<Rightarrow> string \<Rightarrow> string list" where
  "header_values h key = (case h (CanonicalHeaderKey key) of None \<Rightarrow> [] | Some vs \<Rightarrow> vs)"

text \<open>The client's request and SETTINGS as they reach the server.\<close>

definition request_received :: "http_Request \<Rightarrow> ('b, 'u) ClientConn \<Rightarrow> 'c connect_request \<Rightarrow> bool" where
  "request_received req c r \<longleftrightarrow>
     rq_Method r = req_Method req \<and> rq_Proto r = req_Proto req
     \<and> rq_protocols r = header_values (req_Header req) wtAvailableProtocolsHeader
     \<and> (\<exists>x. rq_settings r = SettingsReceived x \<and> EnableDatagrams x \<and> Other x = Some (cc_AdditionalSettings c))"

text \<open>The headers of the response, from what \<open>Upgrade\<close> did.\<close>

fun response_header :: "('c, 'b, 'u, 's) srv_effect list \<Rightarrow> http_Header" where
  "response_header [] = Map.empty"
| "response_header (AddProtocolHeader v # es) = header_Set wtProtocolHeader v (response_header es)"
| "response_header (_ # es) = response_header es"

text \<open>The server's SETTINGS and its response to the request on stream \<open>i\<close>, as they reach the client.\<close>

definition answer_received :: "'c h3_Server \<Rightarrow> ('c, 'b, 'u, 's) srv_effect list \<Rightarrow> u64 \<Rightarrow> dial_env \<Rightarrow> bool" where
  "answer_received h3 es i env \<longleftrightarrow>
     de_handshake env = WaitDone \<and> cst_datagramsRemote (de_state env) \<and> cst_partialDeliveryRemote (de_state env)
     \<and> de_settingsWait env = WaitDone \<and> EnableExtendedConnect (de_settings env)
     \<and> EnableDatagrams (de_settings env) = h3_EnableDatagrams h3 \<and> Other (de_settings env) = h3_AdditionalSettings h3
     \<and> de_OpenRequestStream env = Inr i \<and> de_SendRequestHeader env = None
     \<and> (\<exists>rsp. de_ReadResponse env = Inr rsp \<and> rsp_StatusCode rsp = 200 \<and> rsp_Header rsp = response_header es)"

lemma dial_request_values:
  assumes "dial_request sfv ext offered host None = Inr req"
  shows "if offered = [] then header_values (req_Header req) wtAvailableProtocolsHeader = []
    else \<exists>h. sfv_MarshalList sfv offered = Inr h \<and> header_values (req_Header req) wtAvailableProtocolsHeader = [h]"
  using assms by (auto simp: dial_request_def header_values_def header_Get_def header_Set_def Let_def split: sum.splits if_splits)

lemma selectProtocol_offered:
  assumes "sfv_contract sfv" "dial_request sfv ext offered host None = Inr req"
    and "p = selectProtocol sfv supported (header_values (req_Header req) wtAvailableProtocolsHeader)" "p \<noteq> ''''"
  shows "p \<in> set offered \<and> p \<in> set supported"
proof (cases "offered = []")
  case True
  with assms dial_request_values [OF assms(2)] show ?thesis by (simp add: selectProtocol_def sfv_contract_def)
next
  case False
  with dial_request_values [OF assms(2)] obtain h where
    "sfv_MarshalList sfv offered = Inr h" "header_values (req_Header req) wtAvailableProtocolsHeader = [h]" by auto
  then have "p = (case find (\<lambda>p. p \<in> set supported) offered of None \<Rightarrow> '''' | Some p \<Rightarrow> p)"
    using assms(1,3) by (simp add: selectProtocol_def sfv_contract_def offered_protocols_strings)
  with assms(4) show ?thesis by (cases "find (\<lambda>p. p \<in> set supported) offered") (auto simp: find_Some_iff)
qed

lemma answer_accepted:
  assumes "sfv_contract sfv" "p \<noteq> '''' \<longrightarrow> p \<in> set offered"
    and "if p = '''' then hs = [] else \<exists>v. sfv_MarshalItem sfv p = Inr v \<and> hs = [AddProtocolHeader v]"
  shows "accepts_protocol sfv offered (response_header (hs @ [ManagerEffects conn mes, RespondOK])) p"
  using assms by (auto simp: accepts_protocol_def header_Set_def sfv_contract_def split: if_splits)

lemma NewClientConn_made:
  assumes "NewClientConn st d = (Inr c, d')"
  shows "cc_config c = effective_config (tr_Config d)
    \<and> cc_AdditionalSettings c = addSettings (effective_config (tr_Config d)) [settingsWebTransportEnabled \<mapsto> 1]
    \<and> cc_applicationProtocols c = tr_ApplicationProtocols d"
  using assms by (auto simp: NewClientConn_def Transport_init_def effective_config_def Let_def split: if_splits)

end
