(* ===== verification/WT_GoStrings.thy ===== *)
theory WT_GoStrings
  imports WT_Prelude
begin

text \<open>
  What the transfer programs under \<open>interop\<close> use of Go's packages \<open>strings\<close>, \<open>bytes\<close> and
  \<open>path/filepath\<close> (on Unix): prefixes, cutting and splitting at a separator, trimming and splitting at
  Unicode white space, and cleaning, joining and taking apart of slash-separated paths.

  A path is understood through its elements: \<open>clean_step\<close> is what one element does to the stack of the
  elements so far, and \<open>walk\<close> what a relative path does to the elements of a directory. The lemmas reduce
  \<open>filepath.Join\<close> to \<open>walk\<close>; the claims on files rest on them.
\<close>

section \<open>Prefixes and separators\<close>

definition HasPrefix :: "'a list \<Rightarrow> 'a list \<Rightarrow> bool" where
  "HasPrefix s p \<longleftrightarrow> take (length p) s = p"

definition TrimPrefix :: "'a list \<Rightarrow> 'a list \<Rightarrow> 'a list" where
  "TrimPrefix s p = (if HasPrefix s p then drop (length p) s else s)"

text \<open>\<open>Cut\<close> at the first occurrence of a separator of one byte; all of \<open>s\<close> and nothing if there is none.\<close>

definition Cut :: "'a list \<Rightarrow> 'a \<Rightarrow> 'a list \<times> 'a list \<times> bool" where
  "Cut s c = (takeWhile (\<lambda>x. x \<noteq> c) s, tl (dropWhile (\<lambda>x. x \<noteq> c) s), c \<in> set s)"

text \<open>\<open>Split\<close> at a separator of one byte, and \<open>Join\<close>.\<close>

fun split_on :: "'a \<Rightarrow> 'a list \<Rightarrow> 'a list list" where
  "split_on c [] = [[]]"
| "split_on c (x # xs) =
     (if x = c then [] # split_on c xs
      else (case split_on c xs of y # ys \<Rightarrow> (x # y) # ys | [] \<Rightarrow> [[x]]))"

fun join_with :: "'a \<Rightarrow> 'a list list \<Rightarrow> 'a list" where
  "join_with c [] = []"
| "join_with c [x] = x"
| "join_with c (x # y # ys) = x @ c # join_with c (y # ys)"

lemma HasPrefix_append [simp]: "HasPrefix (p @ s) p"
  by (simp add: HasPrefix_def)

lemma TrimPrefix_append [simp]: "TrimPrefix (p @ s) p = s"
  by (simp add: TrimPrefix_def)

lemma Cut_found: "c \<notin> set s \<Longrightarrow> Cut (s @ c # t) c = (s, t, True)"
  by (simp add: Cut_def takeWhile_append dropWhile_append)

lemma split_on_nonempty [simp]: "split_on c s \<noteq> []"
  by (cases s) (auto split: list.split)

lemma split_on_no_sep: "c \<notin> set s \<Longrightarrow> split_on c s = [s]"
  by (induction s) auto

lemma split_on_append: "split_on c (s @ c # t) = split_on c s @ split_on c t"
proof (induction s)
  case Nil
  then show ?case by simp
next
  case (Cons x s)
  have "split_on c s \<noteq> []" by simp
  with Cons show ?case by (cases "split_on c s") auto
qed

lemma split_on_join: "es \<noteq> [] \<Longrightarrow> \<forall>e \<in> set es. c \<notin> set e \<Longrightarrow> split_on c (join_with c es) = es"
  by (induction c es rule: join_with.induct) (auto simp: split_on_no_sep split_on_append)

lemma join_split_on: "join_with c (split_on c s) = s"
proof (induction s)
  case (Cons x s)
  then show ?case by (cases "split_on c s"; cases "tl (split_on c s)") auto
qed simp

lemma split_on_elem: "e \<in> set (split_on c s) \<Longrightarrow> c \<notin> set e"
  by (induction s arbitrary: e) (auto split: if_splits list.splits)

lemma join_with_eq_Nil: "\<forall>e \<in> set es. e \<noteq> [] \<Longrightarrow> join_with c es = [] \<longleftrightarrow> es = []"
  by (induction c es rule: join_with.induct) auto

lemma join_with_hd: "es \<noteq> [] \<Longrightarrow> hd es \<noteq> [] \<Longrightarrow> hd (join_with c es) = hd (hd es)"
  by (induction c es rule: join_with.induct) auto

lemma join_with_append:
  "xs \<noteq> [] \<Longrightarrow> ys \<noteq> [] \<Longrightarrow> join_with c (xs @ ys) = join_with c xs @ c # join_with c ys"
proof (induction c xs rule: join_with.induct)
  case (2 c x)
  then show ?case by (cases ys) auto
qed auto

section \<open>White space\<close>

text \<open>
  The UTF-8 encodings of the characters of \<open>unicode.IsSpace\<close>. None starts with a continuation byte,
  so that matching them at a byte of a string is the same as decoding a character there.
\<close>

definition bytes_char :: "nat list \<Rightarrow> string" where
  "bytes_char = map char_of"

definition white_space :: "string list" where
  "white_space =
     map bytes_char ([[9], [10], [11], [12], [13], [32], [0xC2, 0x85], [0xC2, 0xA0], [0xE1, 0x9A, 0x80],
       [0xE2, 0x80, 0xA8], [0xE2, 0x80, 0xA9], [0xE2, 0x80, 0xAF], [0xE2, 0x81, 0x9F], [0xE3, 0x80, 0x80]]
       @ map (\<lambda>n. [0xE2, 0x80, 0x80 + n]) [0..<11])"

text \<open>The white space at the start of \<open>s\<close>, as the number of its bytes; 0 if there is none.\<close>

definition space_len :: "string list \<Rightarrow> string \<Rightarrow> nat" where
  "space_len ws s = (case find (HasPrefix s) ws of None \<Rightarrow> 0 | Some w \<Rightarrow> length w)"

function trim_with :: "string list \<Rightarrow> string \<Rightarrow> string" where
  "trim_with ws s = (if space_len ws s = 0 \<or> s = [] then s else trim_with ws (drop (space_len ws s) s))"
  by auto

termination trim_with
  by (relation "measure (length o snd)") auto

declare trim_with.simps [simp del]

definition TrimSpace :: "string \<Rightarrow> string" where
  "TrimSpace s = rev (trim_with (map rev white_space) (rev (trim_with white_space s)))"

text \<open>\<open>Fields\<close>: the non-empty pieces between white space. \<open>cur\<close> is the piece being read.\<close>

function fields_from :: "string \<Rightarrow> string \<Rightarrow> string list" where
  "fields_from cur s =
     (case s of
        [] \<Rightarrow> (if cur = [] then [] else [cur])
      | c # cs \<Rightarrow>
          if space_len white_space s = 0 then fields_from (cur @ [c]) cs
          else (if cur = [] then [] else [cur]) @ fields_from [] (drop (space_len white_space s) s))"
  by auto

termination fields_from
  by (relation "measure (length o snd)") auto

declare fields_from.simps [simp del]

definition Fields :: "string \<Rightarrow> string list" where
  "Fields s = fields_from [] s"

text \<open>Text of visible ASCII characters has no white space in it.\<close>

definition visible :: "string \<Rightarrow> bool" where
  "visible s \<longleftrightarrow> (\<forall>c \<in> set s. 33 \<le> (of_char c :: nat) \<and> (of_char c :: nat) \<le> 126)"

lemma white_space_bytes:
  "w \<in> set white_space \<Longrightarrow> w \<noteq> [] \<and> (\<forall>c \<in> set w. (of_char c :: nat) < 33 \<or> 126 < (of_char c :: nat))"
  unfolding white_space_def bytes_char_def upt_rec_numeral
  by (auto simp: of_char_of upt_rec)

lemma find_NoneI: "(\<And>x. x \<in> set xs \<Longrightarrow> \<not> P x) \<Longrightarrow> find P xs = None"
  by (induction xs) auto

lemma HasPrefix_hd: "HasPrefix s w \<Longrightarrow> w \<noteq> [] \<Longrightarrow> s \<noteq> [] \<and> hd s = hd w"
  unfolding HasPrefix_def by (cases s; cases w) auto

lemma space_len_no_space:
  assumes "\<And>w. w \<in> set ws \<Longrightarrow> w \<noteq> [] \<and> (\<forall>c \<in> set w. (of_char c :: nat) < 33 \<or> 126 < (of_char c :: nat))"
    and "s = [] \<or> 33 \<le> (of_char (hd s) :: nat) \<and> (of_char (hd s) :: nat) \<le> 126"
  shows "space_len ws s = 0"
proof -
  have "\<not> HasPrefix s w" if "w \<in> set ws" for w
    using HasPrefix_hd [of s w] assms(1) [OF that] assms(2) hd_in_set [of w] by fastforce
  then show ?thesis by (simp add: space_len_def find_NoneI)
qed

lemma trim_with_id: "space_len ws s = 0 \<Longrightarrow> trim_with ws s = s"
  by (simp add: trim_with.simps)

definition visible_ends :: "string \<Rightarrow> bool" where
  "visible_ends s \<longleftrightarrow> s \<noteq> [] \<and> visible [hd s, last s]"

lemma TrimSpace_id: "visible_ends s \<Longrightarrow> TrimSpace s = s"
proof -
  assume s: "visible_ends s"
  have "trim_with white_space s = s"
    by (intro trim_with_id space_len_no_space white_space_bytes)
      (use s in \<open>simp_all add: visible_ends_def visible_def\<close>)
  moreover have "w \<noteq> [] \<and> (\<forall>c \<in> set w. (of_char c :: nat) < 33 \<or> 126 < (of_char c :: nat))"
    if "w \<in> set (map rev white_space)" for w
    using that white_space_bytes [of "rev w"] by auto
  then have "trim_with (map rev white_space) (rev s) = rev s"
    by (intro trim_with_id space_len_no_space)
      (use s in \<open>simp_all add: visible_ends_def visible_def hd_rev\<close>)
  ultimately show ?thesis by (simp add: TrimSpace_def)
qed

lemma fields_from_visible: "visible s \<Longrightarrow> fields_from cur (s @ t) = fields_from (cur @ s) t"
proof (induction s arbitrary: cur)
  case Nil
  then show ?case by simp
next
  case (Cons c s)
  have "space_len white_space (c # s @ t) = 0"
    by (intro space_len_no_space white_space_bytes) (use Cons.prems in \<open>simp_all add: visible_def\<close>)
  then have "fields_from cur ((c # s) @ t) = fields_from (cur @ [c]) (s @ t)"
    by (simp add: fields_from.simps [of cur])
  also have "\<dots> = fields_from ((cur @ [c]) @ s) t"
    using Cons by (simp add: visible_def)
  finally show ?case by simp
qed

lemma space_len_blank: "space_len white_space (CHR '' '' # t) = 1"
  by (simp add: space_len_def white_space_def HasPrefix_def bytes_char_def char_of_def bit_Suc_0_iff)

lemma Fields_join:
  "\<forall>f \<in> set fs. visible f \<and> f \<noteq> [] \<Longrightarrow> Fields (join_with CHR '' '' fs) = fs"
  unfolding Fields_def
proof (induction "CHR '' ''" fs rule: join_with.induct)
  case 1
  then show ?case by (simp add: fields_from.simps)
next
  case (2 x)
  then show ?case
    using fields_from_visible [of x "[]" "[]"] by (simp add: fields_from.simps [of x])
next
  case (3 x y ys)
  then have "fields_from [] (join_with CHR '' '' (x # y # ys)) = fields_from x (CHR '' '' # join_with CHR '' '' (y # ys))"
    using fields_from_visible [of x "[]"] by simp
  also have "\<dots> = x # fields_from [] (join_with CHR '' '' (y # ys))"
    using 3 by (simp add: fields_from.simps [of x] space_len_blank)
  finally show ?case using 3 by simp
qed

section \<open>Paths\<close>

text \<open>One element of a path against the stack of those before it (the last on top).\<close>

definition clean_step :: "bool \<Rightarrow> string list \<Rightarrow> string \<Rightarrow> string list" where
  "clean_step rooted st e =
     (if e = '''' \<or> e = ''.'' then st
      else if e = ''..'' then
        (if st \<noteq> [] \<and> hd st \<noteq> ''..'' then tl st else if rooted then st else e # st)
      else e # st)"

definition rooted :: "string \<Rightarrow> bool" where
  "rooted p \<longleftrightarrow> p \<noteq> '''' \<and> hd p = CHR ''/''"

definition clean_elems :: "bool \<Rightarrow> string list \<Rightarrow> string list" where
  "clean_elems r es = rev (foldl (clean_step r) [] es)"

definition Clean :: "string \<Rightarrow> string" where
  "Clean p =
     (let body = join_with CHR ''/'' (clean_elems (rooted p) (split_on CHR ''/'' p))
      in if rooted p then CHR ''/'' # body else if body = '''' then ''.'' else body)"

definition path_Join :: "string list \<Rightarrow> string" where
  "path_Join elem =
     (case dropWhile (\<lambda>e. e = '''') elem of [] \<Rightarrow> '''' | es \<Rightarrow> Clean (join_with CHR ''/'' es))"

definition path_Base :: "string \<Rightarrow> string" where
  "path_Base p =
     (if p = '''' then ''.''
      else
        let q = rev (dropWhile (\<lambda>c. c = CHR ''/'') (rev p));
            b = rev (takeWhile (\<lambda>c. c \<noteq> CHR ''/'') (rev q))
        in if b = '''' then ''/'' else b)"

definition path_Dir :: "string \<Rightarrow> string" where
  "path_Dir p = Clean (rev (dropWhile (\<lambda>c. c \<noteq> CHR ''/'') (rev p)))"

text \<open>Names that stand for themselves in a path, and absolute paths made of them.\<close>

definition plain :: "string \<Rightarrow> bool" where
  "plain e \<longleftrightarrow> e \<noteq> '''' \<and> e \<noteq> ''.'' \<and> e \<noteq> ''..'' \<and> CHR ''/'' \<notin> set e"

definition abs_path :: "string list \<Rightarrow> string" where
  "abs_path es = CHR ''/'' # join_with CHR ''/'' es"

definition walk :: "string list \<Rightarrow> string \<Rightarrow> string list" where
  "walk es p = rev (foldl (clean_step True) (rev es) (split_on CHR ''/'' p))"

lemma clean_step_plain [simp]: "plain e \<Longrightarrow> clean_step r st e = e # st"
  by (simp add: clean_step_def plain_def)

lemma foldl_clean_plain: "\<forall>e \<in> set es. plain e \<Longrightarrow> foldl (clean_step r) st es = rev es @ st"
  by (induction es arbitrary: st) simp_all

lemma clean_stack_elem:
  "e \<in> set (foldl (clean_step r) st es) \<Longrightarrow>
   e \<in> set st \<or> e \<in> set es \<and> e \<noteq> '''' \<and> e \<noteq> ''.'' \<and> (r \<longrightarrow> e \<noteq> ''..'')"
proof (induction es rule: rev_induct)
  case (snoc x es)
  then show ?case
    by (auto simp: clean_step_def [of r "foldl (clean_step r) st es"] dest: list.set_sel(2) split: if_splits)
qed simp

text \<open>A relative path and its cleaned elements do the same to every directory.\<close>

lemma foldl_clean_elems: "foldl (clean_step True) st (clean_elems False es) = foldl (clean_step True) st es"
  unfolding clean_elems_def
proof (induction es rule: rev_induct)
  case Nil
  then show ?case by simp
next
  case (snoc e es)
  let ?S = "foldl (clean_step False) [] es"
  show ?case
  proof (cases "e = ''..'' \<and> ?S \<noteq> [] \<and> hd ?S \<noteq> ''..''")
    case True
    then obtain n S where S: "?S = n # S" "n \<noteq> ''..''" by (cases ?S) auto
    then have "n \<noteq> ''''" "n \<noteq> ''.''" using clean_stack_elem [of n False "[]" es] by auto
    then have "clean_step True X n = n # X" for X using S(2) by (simp add: clean_step_def)
    moreover have "clean_step r (n # X) e = X" for r X using S(2) True by (simp add: clean_step_def)
    ultimately show ?thesis using S snoc [symmetric] by simp
  next
    case False
    then have "clean_step False ?S e = (if e = '''' \<or> e = ''.'' then ?S else e # ?S)"
      by (auto simp: clean_step_def [of False ?S])
    moreover have "clean_step True X e = X" if "e = '''' \<or> e = ''.''" for X
      using that by (simp add: clean_step_def)
    ultimately show ?thesis using snoc by simp
  qed
qed

lemma clean_elems_elem:
  assumes "e \<in> set (clean_elems r (split_on CHR ''/'' p))"
  shows "e \<noteq> ''''" "CHR ''/'' \<notin> set e" "r \<Longrightarrow> plain e"
  using assms clean_stack_elem [of e r "[]"] split_on_elem [of e "CHR ''/''" p]
  by (auto simp: clean_elems_def plain_def)

lemma Clean_relative:
  assumes "\<not> rooted p"
  shows "\<not> rooted (Clean p)" "walk ds (Clean p) = walk ds p"
proof -
  let ?es = "clean_elems False (split_on CHR ''/'' p)"
  have es: "\<forall>e \<in> set ?es. e \<noteq> '''' \<and> CHR ''/'' \<notin> set e" using clean_elems_elem by blast
  then have C: "Clean p = (if ?es = [] then ''.'' else join_with CHR ''/'' ?es)"
    using assms join_with_eq_Nil [of ?es] by (auto simp: Clean_def Let_def)
  have "hd (join_with CHR ''/'' ?es) \<noteq> CHR ''/''" if "?es \<noteq> []"
    using that es join_with_hd [of ?es] hd_in_set [of ?es] hd_in_set [of "hd ?es"] by metis
  then show "\<not> rooted (Clean p)" by (simp add: C rooted_def)
  have "foldl (clean_step True) (rev ds) (split_on CHR ''/'' (Clean p)) = foldl (clean_step True) (rev ds) ?es"
    using C es by (cases "?es = []") (simp_all add: split_on_join clean_step_def)
  then show "walk ds (Clean p) = walk ds p" by (simp add: walk_def foldl_clean_elems)
qed

lemma walk_append: "walk ds (a @ CHR ''/'' # b) = walk (walk ds a) b"
  by (simp add: walk_def split_on_append)

lemma walk_names: "es \<noteq> [] \<Longrightarrow> \<forall>e \<in> set es. plain e \<Longrightarrow> walk ds (join_with CHR ''/'' es) = ds @ es"
  by (simp add: walk_def split_on_join plain_def foldl_clean_plain)

lemma walk_name: "plain e \<Longrightarrow> walk ds e = ds @ [e]"
  using walk_names [of "[e]" ds] by simp

lemma walk_up: "walk (ds @ [d]) ''..'' = (if d = ''..'' then ds @ [d] else ds)"
  by (simp add: walk_def clean_step_def)

lemma walk_slash [simp]: "walk ds ''/'' = ds"
  by (simp add: walk_def clean_step_def)

lemma walk_dot [simp]: "walk ds ''.'' = ds"
  by (simp add: walk_def clean_step_def)

lemma walk_plain: "\<forall>d \<in> set ds. plain d \<Longrightarrow> \<forall>d \<in> set (walk ds p). plain d"
  using clean_stack_elem [of _ True "rev ds" "split_on CHR ''/'' p"] split_on_elem [of _ "CHR ''/''" p]
  by (auto simp: walk_def plain_def)

lemma path_Join_absolute:
  assumes "\<forall>d \<in> set ds. plain d"
  shows "path_Join [abs_path ds, p] = abs_path (walk ds p)"
proof -
  have "split_on CHR ''/'' (abs_path ds) = '''' # (if ds = [] then [''''] else ds)"
    using assms by (simp add: abs_path_def split_on_join plain_def)
  then have "clean_elems True (split_on CHR ''/'' (abs_path ds @ CHR ''/'' # p)) = walk ds p"
    using assms by (simp add: split_on_append clean_elems_def walk_def foldl_clean_plain clean_step_def [of True "[]" "''''"])
  moreover have "rooted (abs_path ds @ CHR ''/'' # p)" by (simp add: rooted_def abs_path_def)
  ultimately have "Clean (abs_path ds @ CHR ''/'' # p) = abs_path (walk ds p)"
    by (simp only: Clean_def Let_def if_True abs_path_def [of "walk ds p"])
  moreover have "path_Join [abs_path ds, p] = Clean (abs_path ds @ CHR ''/'' # p)"
    by (simp add: path_Join_def abs_path_def)
  ultimately show ?thesis by simp
qed

lemma path_Join_relative:
  assumes "a \<noteq> ''''" "\<not> rooted a"
  shows "\<not> rooted (path_Join [a, b])" "walk ds (path_Join [a, b]) = walk (walk ds a) b"
proof -
  have "path_Join [a, b] = Clean (a @ CHR ''/'' # b)" using assms by (simp add: path_Join_def)
  moreover have "\<not> rooted (a @ CHR ''/'' # b)" using assms by (simp add: rooted_def)
  ultimately show "\<not> rooted (path_Join [a, b])" "walk ds (path_Join [a, b]) = walk (walk ds a) b"
    using Clean_relative [of "a @ CHR ''/'' # b"] by (simp_all add: walk_append)
qed

lemma plain_relative: "plain a \<Longrightarrow> a \<noteq> '''' \<and> \<not> rooted a"
  unfolding plain_def rooted_def using hd_in_set [of a] by metis

text \<open>The last element of a path.\<close>

lemma path_Base_elem: "path_Base p = ''/'' \<or> path_Base p \<noteq> '''' \<and> CHR ''/'' \<notin> set (path_Base p)"
  by (auto simp: path_Base_def Let_def dest: set_takeWhileD)

lemma path_Base_append:
  assumes "plain e"
  shows "path_Base (a @ CHR ''/'' # e) = e" "path_Base e = e"
proof -
  have e: "e \<noteq> []" "CHR ''/'' \<notin> set (rev e)" using assms by (simp_all add: plain_def)
  then obtain c cs where c: "rev e = c # cs" "c \<noteq> CHR ''/''" by (cases "rev e") auto
  then have "dropWhile (\<lambda>c. c = CHR ''/'') (rev e @ t) = rev e @ t" "dropWhile (\<lambda>c. c = CHR ''/'') (rev e) = rev e" for t
    by simp_all
  moreover have "takeWhile (\<lambda>c. c \<noteq> CHR ''/'') (rev e @ CHR ''/'' # t) = rev e" "takeWhile (\<lambda>c. c \<noteq> CHR ''/'') (rev e) = rev e" for t
    using e(2) by (auto simp: takeWhile_append)
  ultimately show "path_Base (a @ CHR ''/'' # e) = e" "path_Base e = e"
    using e(1) by (simp_all add: path_Base_def Let_def del: takeWhile_eq_all_conv)
qed

lemma path_Base_names:
  assumes "es \<noteq> []" "\<forall>e \<in> set es. plain e"
  shows "path_Base (join_with CHR ''/'' es) = last es"
proof (cases "butlast es")
  case Nil
  then have "es = [last es]" using assms(1) by (metis append_butlast_last_id append_Nil)
  then show ?thesis using assms path_Base_append(2) by (metis join_with.simps(2) last_in_set)
next
  case (Cons b bs)
  then have "join_with CHR ''/'' es = join_with CHR ''/'' (butlast es) @ CHR ''/'' # last es"
    using assms(1) join_with_append [of "butlast es" "[last es]"] by (metis append_butlast_last_id join_with.simps(2) list.distinct(1))
  then show ?thesis using assms path_Base_append(1) by simp
qed

lemma path_Join_names:
  assumes "ds \<noteq> []" "es \<noteq> []" "\<forall>e \<in> set (ds @ es). plain e"
  shows "path_Join [join_with CHR ''/'' ds, join_with CHR ''/'' es] = join_with CHR ''/'' (ds @ es)"
proof -
  have ne: "join_with CHR ''/'' xs \<noteq> ''''" if "xs \<noteq> []" "\<forall>e \<in> set xs. plain e" for xs
    using that join_with_eq_Nil [of xs] by (auto simp: plain_def)
  have "\<not> rooted (join_with CHR ''/'' (ds @ es))"
    using assms join_with_hd [of "ds @ es"] plain_relative [of "hd (ds @ es)"] hd_in_set [of "ds @ es"]
    by (auto simp: rooted_def)
  moreover have "split_on CHR ''/'' (join_with CHR ''/'' (ds @ es)) = ds @ es"
    using assms by (intro split_on_join) (auto simp: plain_def)
  ultimately have "Clean (join_with CHR ''/'' (ds @ es)) = join_with CHR ''/'' (ds @ es)"
    using assms ne [of "ds @ es"] by (simp add: Clean_def clean_elems_def foldl_clean_plain Let_def)
  then show ?thesis using assms ne [of ds] by (simp add: path_Join_def join_with_append)
qed

end
