(* ===== verification/WT_Interop.thy ===== *)
theory WT_Interop
  imports WT_Client WT_GoStrings "HOL-Library.Multiset"
begin

text \<open>
  The transfer programs under \<open>interop\<close>, which exchange files over a session: one end asks for a file
  with \<open>GET name\<close>, the other answers with its content on the same bidirectional stream, or with
  \<open>PUSH name\<close>, a newline and the content on a unidirectional stream or in a datagram. Files are read
  below \<open>/www\<close> and stored below \<open>/downloads\<close>.

  Parameters: what the operating system and the session answer to each call (the record \<open>os_env\<close> and
  the functions \<open>w\<close>, \<open>send\<close> of type \<open>writer\<close>), \<open>url.Parse\<close>, and \<open>errgroup\<close> with its documented contract. Calls are
  returned as lists of effects; log messages are left out. The files of an end do not change while it
  serves them.
\<close>

section \<open>Files\<close>

record os_env =
  os_ReadFile :: "string \<Rightarrow> go_error + bytes"
  os_MkdirAll :: "string \<Rightarrow> go_error option"
  os_WriteFile :: "string \<Rightarrow> bytes \<Rightarrow> go_error option"

datatype fs_call = MkdirAll string | WriteFile string bytes

definition readFile :: "(go_error \<Rightarrow> string) \<Rightarrow> os_env \<Rightarrow> string \<Rightarrow> go_error + bytes" where
  "readFile ext os path0 =
     (let path = path_Join [''/www'', TrimPrefix path0 ''/'']
      in case os_ReadFile os path of
           Inl err \<Rightarrow> Inl (ENew (''failed to read file for '' @ path @ '': '' @ go_Error ext err))
         | Inr data \<Rightarrow> Inr data)"

definition saveFile :: "os_env \<Rightarrow> string \<Rightarrow> bytes \<Rightarrow> go_error option \<times> fs_call list" where
  "saveFile os name data =
     (let full = path_Join [''/downloads'', name]
      in case os_MkdirAll os (path_Dir full) of
           Some err \<Rightarrow> (Some err, [MkdirAll (path_Dir full)])
         | None \<Rightarrow> (os_WriteFile os full data, [MkdirAll (path_Dir full), WriteFile full data]))"

section \<open>Messages\<close>

definition getPrefix :: string where
  "getPrefix = ''GET ''"

definition pushPrefix :: string where
  "pushPrefix = ''PUSH ''"

definition newline :: byte where
  "newline = 10"

text \<open>The calls on a stream; \<open>CancelReadCall\<close> carries the code.\<close>

datatype str_call = WriteCall bytes | CloseCall | CancelReadCall u32

text \<open>
  What the calls of \<open>Write\<close> on a stream, or of \<open>SendDatagram\<close>, return: the result of the last one of a
  sequence of calls.
\<close>

type_synonym writer = "bytes list \<Rightarrow> go_error option"

definition requestFile :: "writer \<Rightarrow> string \<Rightarrow> go_error option \<times> str_call list" where
  "requestFile w filename =
     (let data = bytes_of_string (getPrefix @ filename) in (w [data], [WriteCall data, CloseCall]))"

definition parseRequest :: "bytes \<Rightarrow> go_error + string" where
  "parseRequest data =
     (if \<not> HasPrefix data (bytes_of_string getPrefix) then Inl (ENew ''unexpected data, missing GET prefix'')
      else
        let filename = TrimSpace (string_of_bytes (TrimPrefix data (bytes_of_string getPrefix)))
        in if filename = '''' then Inl (ENew ''missing filename in GET'') else Inr filename)"

definition sendFile :: "(go_error \<Rightarrow> string) \<Rightarrow> os_env \<Rightarrow> string \<Rightarrow> writer
    \<Rightarrow> go_error option \<times> str_call list" where
  "sendFile ext os filename w =
     (case readFile ext os filename of
        Inl err \<Rightarrow> (Some (ENew (''failed to read file for '' @ filename @ '': '' @ go_Error ext err)), [])
      | Inr payload \<Rightarrow> (w [payload], [WriteCall payload]))"

definition pushFile :: "(go_error \<Rightarrow> string) \<Rightarrow> os_env \<Rightarrow> string \<Rightarrow> writer
    \<Rightarrow> go_error option \<times> str_call list" where
  "pushFile ext os filename w =
     (case readFile ext os filename of
        Inl err \<Rightarrow> (Some (ENew (''failed to read file for '' @ filename @ '': '' @ go_Error ext err)), [])
      | Inr payload \<Rightarrow>
          let hdr = bytes_of_string (pushPrefix @ path_Base filename) @ [newline]
          in case w [hdr] of
               Some err \<Rightarrow> (Some err, [WriteCall hdr])
             | None \<Rightarrow> (w [hdr, payload], [WriteCall hdr, WriteCall payload]))"

text \<open>\<open>storePush\<close> reads the stream to its end, \<open>r\<close>; the datagram variant differs in the error texts.\<close>

definition storePush :: "os_env \<Rightarrow> go_error + bytes \<Rightarrow> string \<Rightarrow> go_error option \<times> fs_call list" where
  "storePush os r endpoint =
     (case r of
        Inl err \<Rightarrow> (Some err, [])
      | Inr data \<Rightarrow>
          if \<not> HasPrefix data (bytes_of_string pushPrefix) then (Some (ENew ''unexpected data, missing PUSH prefix''), [])
          else
            let (name, payload, ok) = Cut (TrimPrefix data (bytes_of_string pushPrefix)) newline
            in if \<not> ok then (Some (ENew ''missing newline in PUSH''), [])
               else if length name = 0 then (Some (ENew ''missing filename in PUSH''), [])
               else
                 let filename = TrimSpace (string_of_bytes name)
                 in saveFile os (path_Join [endpoint, path_Base filename]) payload)"

definition storePushFromDatagram :: "os_env \<Rightarrow> bytes \<Rightarrow> string \<Rightarrow> go_error option \<times> fs_call list" where
  "storePushFromDatagram os data endpoint =
     (if \<not> HasPrefix data (bytes_of_string pushPrefix) then (Some (ENew ''unexpected datagram, missing PUSH prefix''), [])
      else
        let (name, payload, ok) = Cut (TrimPrefix data (bytes_of_string pushPrefix)) newline
        in if \<not> ok then (Some (ENew ''missing newline in PUSH datagram''), [])
           else if length name = 0 then (Some (ENew ''missing filename in PUSH datagram''), [])
           else
             let filename = TrimSpace (string_of_bytes name)
             in saveFile os (path_Join [endpoint, path_Base filename]) payload)"

section \<open>The serving end\<close>

text \<open>
  The goroutine of an accepted bidirectional stream: \<open>rd\<close> is the result of \<open>io.ReadAll\<close>. The stream is
  closed after the file was sent, or could not be.
\<close>

definition transfer_bidi :: "(go_error \<Rightarrow> string) \<Rightarrow> os_env \<Rightarrow> writer \<Rightarrow> string
    \<Rightarrow> go_error + bytes \<Rightarrow> str_call list" where
  "transfer_bidi ext os w endpoint rd =
     (case rd of
        Inl err \<Rightarrow> [CancelReadCall 1234]
      | Inr data \<Rightarrow>
          (case parseRequest data of
             Inl err \<Rightarrow> [CancelReadCall 1234]
           | Inr filename \<Rightarrow> snd (sendFile ext os (path_Join [endpoint, filename]) w) @ [CloseCall]))"

text \<open>
  The goroutine of an accepted unidirectional stream, with the result of \<open>OpenUniStreamSync\<close>: the calls
  on the stream it opens.
\<close>

definition transfer_uni :: "(go_error \<Rightarrow> string) \<Rightarrow> os_env \<Rightarrow> go_error + writer \<Rightarrow> string
    \<Rightarrow> go_error + bytes \<Rightarrow> str_call list" where
  "transfer_uni ext os opened endpoint rd =
     (case rd of
        Inl err \<Rightarrow> []
      | Inr data \<Rightarrow>
          (case parseRequest data of
             Inl err \<Rightarrow> []
           | Inr filename \<Rightarrow>
               (case opened of
                  Inl err \<Rightarrow> []
                | Inr w \<Rightarrow> snd (pushFile ext os (path_Join [endpoint, filename]) w) @ [CloseCall])))"

text \<open>
  One iteration of the datagram loop: the datagram sent, if any, and the loop over the results of
  \<open>ReceiveDatagram\<close>, which ends with an error of either call; \<open>sent\<close> are the datagrams sent so far. The
  flag says that the loop ended.
\<close>

definition transfer_datagram :: "(go_error \<Rightarrow> string) \<Rightarrow> os_env \<Rightarrow> string \<Rightarrow> bytes \<Rightarrow> bytes option" where
  "transfer_datagram ext os endpoint data =
     (case parseRequest data of
        Inl err \<Rightarrow> None
      | Inr filename \<Rightarrow>
          (case readFile ext os (path_Join [endpoint, filename]) of
             Inl err \<Rightarrow> None
           | Inr payload \<Rightarrow> Some (bytes_of_string (pushPrefix @ path_Base filename) @ [newline] @ payload)))"

fun transfer_datagrams :: "(go_error \<Rightarrow> string) \<Rightarrow> os_env \<Rightarrow> writer \<Rightarrow> string \<Rightarrow> bytes list
    \<Rightarrow> (go_error + bytes) list \<Rightarrow> bytes list \<times> bool" where
  "transfer_datagrams ext os send endpoint sent [] = (sent, False)"
| "transfer_datagrams ext os send endpoint sent (Inl err # rs) = (sent, True)"
| "transfer_datagrams ext os send endpoint sent (Inr data # rs) =
     (case transfer_datagram ext os endpoint data of
        None \<Rightarrow> transfer_datagrams ext os send endpoint sent rs
      | Some d \<Rightarrow>
          (case send (sent @ [d]) of
             Some err \<Rightarrow> (sent @ [d], True)
           | None \<Rightarrow> transfer_datagrams ext os send endpoint (sent @ [d]) rs))"

text \<open>An accept loop, which starts a goroutine for each stream and ends with the first error.\<close>

fun accept_loop :: "('a \<Rightarrow> 'b) \<Rightarrow> (go_error + 'a) list \<Rightarrow> 'b list \<times> bool" where
  "accept_loop h [] = ([], False)"
| "accept_loop h (Inl err # rs) = ([], True)"
| "accept_loop h (Inr x # rs) = (let (ys, b) = accept_loop h rs in (h x # ys, b))"

text \<open>
  \<open>runTransfer\<close>: the answers to what was accepted and received, on streams and in datagrams; it returns
  when all three loops have ended.
\<close>

record transfer_input =
  ti_bidi :: "(go_error + (go_error + bytes) \<times> writer) list"
  ti_uni :: "(go_error + (go_error + bytes) \<times> (go_error + writer)) list"
  ti_datagrams :: "(go_error + bytes) list"
  ti_send :: writer

definition runTransfer :: "(go_error \<Rightarrow> string) \<Rightarrow> os_env \<Rightarrow> string \<Rightarrow> transfer_input
    \<Rightarrow> str_call list list \<times> str_call list list \<times> bytes list \<times> bool" where
  "runTransfer ext os endpoint i =
     (let (bs, b1) = accept_loop (\<lambda>(rd, w). transfer_bidi ext os w endpoint rd) (ti_bidi i);
          (us, b2) = accept_loop (\<lambda>(rd, opened). transfer_uni ext os opened endpoint rd) (ti_uni i);
          (ds, b3) = transfer_datagrams ext os (ti_send i) endpoint [] (ti_datagrams i)
      in (bs, us, ds, b1 \<and> b2 \<and> b3))"

section \<open>The requesting end\<close>

text \<open>
  \<open>Wait\<close> of \<open>golang.org/x/sync/errgroup\<close>, a function of the results of the goroutines: it returns an
  error of one of them, and none only if all returned none.
\<close>

type_synonym errgroup = "go_error option list \<Rightarrow> go_error option"

definition errgroup_contract :: "errgroup \<Rightarrow> bool" where
  "errgroup_contract eg \<longleftrightarrow>
     (\<forall>rs. (eg rs = None \<longleftrightarrow> (\<forall>r \<in> set rs. r = None)) \<and> (\<forall>e. eg rs = Some e \<longrightarrow> Some e \<in> set rs))"

text \<open>A request on an opened stream, as both stream transfers make it.\<close>

definition send_request :: "(go_error \<Rightarrow> string) \<Rightarrow> writer \<Rightarrow> string \<Rightarrow> go_error option \<times> str_call list" where
  "send_request ext w req =
     (case requestFile w req of
        (Some err, cs) \<Rightarrow> (Some (EWrap (''failed to request file '' @ req @ '': '' @ go_Error ext err) err), cs)
      | (None, cs) \<Rightarrow> (None, cs))"

text \<open>
  The transfers take what the \<open>i\<close>-th call of the session returned, and give the error, the calls on the
  opened streams, and the calls that store files.
\<close>

definition runTransferUniReceive ::
  "(go_error \<Rightarrow> string) \<Rightarrow> errgroup \<Rightarrow> os_env \<Rightarrow> (nat \<Rightarrow> go_error + writer) \<Rightarrow> (nat \<Rightarrow> go_error + (go_error + bytes))
     \<Rightarrow> string \<Rightarrow> string list \<Rightarrow> go_error option \<times> str_call list list \<times> fs_call list" where
  "runTransferUniReceive ext eg os opened accepted endpoint requests =
     (let sends = map (\<lambda>i. case opened i of
            Inl err \<Rightarrow> (Some err, [])
          | Inr w \<Rightarrow> send_request ext w (requests ! i)) [0..<length requests];
          stores = map (\<lambda>i. case accepted i of
            Inl err \<Rightarrow> (Some err, [])
          | Inr r \<Rightarrow> storePush os r endpoint) [0..<length requests]
      in (eg (map fst sends @ map fst stores), map snd sends, concat (map snd stores)))"

definition receive_bidi :: "(go_error \<Rightarrow> string) \<Rightarrow> os_env \<Rightarrow> go_error + writer \<times> (go_error + bytes) \<Rightarrow> string \<Rightarrow> string
    \<Rightarrow> go_error option \<times> str_call list \<times> fs_call list" where
  "receive_bidi ext os opened endpoint req =
     (case opened of
        Inl err \<Rightarrow> (Some err, [], [])
      | Inr (w, rd) \<Rightarrow>
          (case send_request ext w req of
             (Some err, cs) \<Rightarrow> (Some err, cs, [])
           | (None, cs) \<Rightarrow>
               (case rd of
                  Inl err \<Rightarrow> (Some (EWrap (''failed to read response: '' @ go_Error ext err) err), cs, [])
                | Inr data \<Rightarrow>
                    let (err, fs) = saveFile os (path_Join [endpoint, path_Base req]) data in (err, cs, fs))))"

definition runTransferBidiReceive ::
  "(go_error \<Rightarrow> string) \<Rightarrow> errgroup \<Rightarrow> os_env \<Rightarrow> (nat \<Rightarrow> go_error + writer \<times> (go_error + bytes))
     \<Rightarrow> string \<Rightarrow> string list \<Rightarrow> go_error option \<times> str_call list list \<times> fs_call list" where
  "runTransferBidiReceive ext eg os opened endpoint requests =
     (let rs = map (\<lambda>i. receive_bidi ext os (opened i) endpoint (requests ! i)) [0..<length requests]
      in (eg (map fst rs), map (fst o snd) rs, concat (map (snd o snd) rs)))"

text \<open>The two goroutines of the datagram transfer; \<open>rcv i\<close> is the result of the \<open>i\<close>-th \<open>ReceiveDatagram\<close>.\<close>

fun send_requests :: "(go_error \<Rightarrow> string) \<Rightarrow> writer \<Rightarrow> bytes list \<Rightarrow> string list \<Rightarrow> go_error option \<times> bytes list" where
  "send_requests ext send sent [] = (None, sent)"
| "send_requests ext send sent (req # reqs) =
     (let d = bytes_of_string (getPrefix @ req)
      in case send (sent @ [d]) of
           Some err \<Rightarrow> (Some (EWrap (''failed to send GET datagram for '' @ req @ '': '' @ go_Error ext err) err), sent @ [d])
         | None \<Rightarrow> send_requests ext send (sent @ [d]) reqs)"

function receive_pushes :: "(go_error \<Rightarrow> string) \<Rightarrow> os_env \<Rightarrow> (nat \<Rightarrow> go_error + bytes) \<Rightarrow> string \<Rightarrow> nat \<Rightarrow> nat
    \<Rightarrow> go_error option \<times> fs_call list" where
  "receive_pushes ext os rcv endpoint i n =
     (if n \<le> i then (None, [])
      else
        case rcv i of
          Inl err \<Rightarrow> (Some (EWrap (''receiving PUSH datagram '' @ show_nat (i + 1) @ ''/'' @ show_nat n @ '': '' @ go_Error ext err) err), [])
        | Inr data \<Rightarrow>
            (case storePushFromDatagram os data endpoint of
               (Some err, fs) \<Rightarrow> (Some err, fs)
             | (None, fs) \<Rightarrow> (let (err, fs') = receive_pushes ext os rcv endpoint (i + 1) n in (err, fs @ fs'))))"
  by pat_completeness auto

termination receive_pushes
  by (relation "measure (\<lambda>(_, _, _, _, i, n). n - i)") auto

declare receive_pushes.simps [simp del]

definition runTransferDatagramReceive ::
  "(go_error \<Rightarrow> string) \<Rightarrow> errgroup \<Rightarrow> os_env \<Rightarrow> writer \<Rightarrow> (nat \<Rightarrow> go_error + bytes)
     \<Rightarrow> string \<Rightarrow> string list \<Rightarrow> go_error option \<times> bytes list \<times> fs_call list" where
  "runTransferDatagramReceive ext eg os send rcv endpoint requests =
     (let (err1, sent) = send_requests ext send [] requests;
          (err2, fs) = receive_pushes ext os rcv endpoint 0 (length requests)
      in (eg [err1, err2], sent, fs))"

section \<open>The files an end reads and writes\<close>

lemma www_path: "''/www'' = abs_path [''www'']" "''/downloads'' = abs_path [''downloads'']"
  by (simp_all add: abs_path_def)

lemma dirs_plain [simp]: "plain ''www''" "plain ''downloads''"
  by (simp_all add: plain_def)

lemma TrimPrefix_relative: "\<not> rooted p \<Longrightarrow> TrimPrefix p ''/'' = p"
  by (cases p) (auto simp: rooted_def TrimPrefix_def HasPrefix_def)

text \<open>The file that a request for \<open>filename\<close> at an endpoint reads, and the one that storing writes.\<close>

lemma read_path:
  assumes "plain ep"
  shows "path_Join [''/www'', TrimPrefix (path_Join [ep, filename]) ''/''] = abs_path (walk [''www'', ep] filename)"
  using assms plain_relative [OF assms] path_Join_relative [where a = ep and b = filename]
  by (simp add: TrimPrefix_relative www_path path_Join_absolute walk_name)

lemma save_path:
  assumes "plain ep"
  shows "path_Join [''/downloads'', path_Join [ep, name]] = abs_path (walk [''downloads'', ep] name)"
  using assms plain_relative [OF assms] path_Join_relative [where a = ep and b = name]
  by (simp add: www_path path_Join_absolute walk_name)

lemma path_Dir_abs:
  assumes "ds \<noteq> []" "\<forall>d \<in> set ds. plain d" "plain e"
  shows "path_Dir (abs_path (ds @ [e])) = abs_path ds"
proof -
  have "abs_path (ds @ [e]) = (abs_path ds @ [CHR ''/'']) @ e"
    using assms by (simp add: abs_path_def join_with_append)
  moreover have "CHR ''/'' \<notin> set (rev e)" using assms by (simp add: plain_def)
  ultimately have "rev (dropWhile (\<lambda>c. c \<noteq> CHR ''/'') (rev (abs_path (ds @ [e])))) = abs_path ds @ [CHR ''/'']"
    by (auto simp: dropWhile_append)
  moreover have "Clean (abs_path ds @ [CHR ''/'']) = path_Join [abs_path ds, '''']"
    by (simp add: path_Join_def abs_path_def)
  ultimately show ?thesis
    using assms path_Join_absolute [of ds "''''"] by (simp add: path_Dir_def walk_def clean_step_def)
qed

definition below :: "string list \<Rightarrow> string \<Rightarrow> bool" where
  "below ds p \<longleftrightarrow> (\<exists>es. (\<forall>e \<in> set es. plain e) \<and> p = abs_path (ds @ es))"

lemma belowI: "\<forall>e \<in> set es. plain e \<Longrightarrow> below ds (abs_path (ds @ es))"
  by (auto simp: below_def)

lemma save_below:
  assumes "plain ep"
  shows "below [''downloads''] (path_Join [''/downloads'', path_Join [ep, path_Base x]])"
proof -
  let ?b = "path_Base x"
  consider "?b = ''/'' \<or> ?b = ''.''" | "?b = ''..''" | "plain ?b"
    using path_Base_elem [of x] by (auto simp: plain_def)
  then have "\<exists>es. (\<forall>e \<in> set es. plain e) \<and> walk [''downloads'', ep] ?b = [''downloads''] @ es"
  proof cases
    case 1
    then have "walk [''downloads'', ep] ?b = [''downloads''] @ [ep]" by auto
    with assms show ?thesis by (intro exI [of _ "[ep]"]) simp
  next
    case 2
    then have "walk [''downloads'', ep] ?b = [''downloads''] @ []"
      using assms walk_up [of "[''downloads'']" ep] by (simp add: plain_def)
    then show ?thesis by (intro exI [of _ "[]"]) simp
  next
    case 3
    then have "walk [''downloads'', ep] ?b = [''downloads''] @ [ep, ?b]" by (simp add: walk_name)
    with assms 3 show ?thesis by (intro exI [of _ "[ep, ?b]"]) simp
  qed
  then show ?thesis by (auto simp: save_path [OF assms] below_def)
qed

text \<open>The calls store nothing outside \<open>/downloads\<close>.\<close>

definition stores_below :: "fs_call list \<Rightarrow> bool" where
  "stores_below fs \<longleftrightarrow> (\<forall>p d. WriteFile p d \<in> set fs \<longrightarrow> below [''downloads''] p)"

lemma stores_below_simps [simp]:
  "stores_below []" "stores_below (xs @ ys) \<longleftrightarrow> stores_below xs \<and> stores_below ys"
  "stores_below (concat xss) \<longleftrightarrow> (\<forall>xs \<in> set xss. stores_below xs)"
  by (auto simp: stores_below_def)

lemma saveFile_below: "plain ep \<Longrightarrow> stores_below (snd (saveFile os (path_Join [ep, path_Base x]) data))"
  using save_below [of ep x] by (simp add: saveFile_def Let_def stores_below_def split: option.split)

lemma storePush_below: "plain ep \<Longrightarrow> stores_below (snd (storePush os r ep))"
  by (simp add: storePush_def saveFile_below Let_def split: sum.split prod.split)

lemma storePushFromDatagram_below: "plain ep \<Longrightarrow> stores_below (snd (storePushFromDatagram os data ep))"
  by (simp add: storePushFromDatagram_def saveFile_below Let_def split: prod.split)

lemma receive_bidi_below: "plain ep \<Longrightarrow> stores_below (snd (snd (receive_bidi ext os opened ep req)))"
  by (simp add: receive_bidi_def case_prod_beta saveFile_below Let_def split: sum.split option.split)

lemma receive_pushes_below: "plain ep \<Longrightarrow> stores_below (snd (receive_pushes ext os rcv ep i n))"
proof (induction "n - i" arbitrary: i)
  case 0
  then show ?case by (simp add: receive_pushes.simps)
next
  case (Suc k)
  then have "stores_below (snd (receive_pushes ext os rcv ep (i + 1) n))" by simp
  then show ?case
    using Suc.prems by (subst receive_pushes.simps)
      (simp add: case_prod_beta storePushFromDatagram_below split: sum.split option.split)
qed

text \<open>
  C36. Whatever the peer sends, an end stores files only below \<open>/downloads\<close>: the name in a PUSH message is
  reduced to its last element, and even \<open>..\<close> or \<open>/\<close> as a name does not lead out of the directory.
\<close>

theorem downloads_confined:
  assumes "plain endpoint"
    and "WriteFile p d \<in> set (snd (snd (runTransferUniReceive ext eg os opened accepted endpoint requests)))
      \<union> set (snd (snd (runTransferBidiReceive ext eg os opened' endpoint requests)))
      \<union> set (snd (snd (runTransferDatagramReceive ext eg os send rcv endpoint requests)))"
  shows "below [''downloads''] p"
proof -
  have "stores_below (snd (snd (runTransferUniReceive ext eg os opened accepted endpoint requests)))"
    using assms(1) by (simp add: runTransferUniReceive_def Let_def storePush_below split: sum.split)
  moreover have "stores_below (snd (snd (runTransferBidiReceive ext eg os opened' endpoint requests)))"
    using assms(1) by (simp add: runTransferBidiReceive_def Let_def receive_bidi_below)
  moreover have "stores_below (snd (snd (runTransferDatagramReceive ext eg os send rcv endpoint requests)))"
    using assms(1) by (simp add: runTransferDatagramReceive_def case_prod_beta receive_pushes_below)
  ultimately show ?thesis using assms(2) unfolding stores_below_def by blast
qed

section \<open>Transfers\<close>

text \<open>A file is named by the elements of its path below the endpoint's directory.\<close>

definition file_name :: "string list \<Rightarrow> bool" where
  "file_name es \<longleftrightarrow> es \<noteq> [] \<and> (\<forall>e \<in> set es. plain e) \<and> visible_ends (join_with CHR ''/'' es)
     \<and> visible_ends (last es) \<and> CHR 0x0A \<notin> set (last es)"

text \<open>The bytes that calls put on a stream.\<close>

definition written :: "str_call list \<Rightarrow> bytes" where
  "written cs = concat (map (\<lambda>c. case c of WriteCall d \<Rightarrow> d | _ \<Rightarrow> []) cs)"

definition push_message :: "string \<Rightarrow> bytes \<Rightarrow> bytes" where
  "push_message name payload = bytes_of_string (pushPrefix @ name) @ newline # payload"

lemma bytes_of_string_append: "bytes_of_string (a @ b) = bytes_of_string a @ bytes_of_string b"
  by (simp add: bytes_of_string_def)

lemma newline_char: "newline = byte_of_char CHR 0x0A"
  by (simp add: newline_def byte_of_char_def)

lemma newline_in_bytes: "newline \<in> set (bytes_of_string s) \<longleftrightarrow> CHR 0x0A \<in> set s"
proof -
  have "inj byte_of_char" by (metis char_of_byte_of_char injI)
  then show ?thesis unfolding newline_char bytes_of_string_def by (auto simp: inj_eq)
qed

lemma parseRequest_ok:
  "visible_ends s \<Longrightarrow> parseRequest (bytes_of_string (getPrefix @ s)) = Inr s"
  by (simp add: parseRequest_def bytes_of_string_append TrimSpace_id Let_def) (simp add: visible_ends_def)

lemma cut_push:
  "CHR 0x0A \<notin> set name \<Longrightarrow>
   Cut (TrimPrefix (push_message name payload) (bytes_of_string pushPrefix)) newline = (bytes_of_string name, payload, True)"
  by (simp add: push_message_def bytes_of_string_append Cut_found newline_in_bytes)

lemma push_prefix: "HasPrefix (push_message name payload) (bytes_of_string pushPrefix)"
  by (simp add: push_message_def bytes_of_string_append)

definition saved :: "string \<Rightarrow> string \<Rightarrow> bytes \<Rightarrow> fs_call list" where
  "saved ep name data = [MkdirAll (abs_path [''downloads'', ep]), WriteFile (abs_path [''downloads'', ep, name]) data]"

text \<open>An operating system that stores every file.\<close>

definition stores :: "os_env \<Rightarrow> bool" where
  "stores os \<longleftrightarrow> (\<forall>p. os_MkdirAll os p = None) \<and> (\<forall>p d. os_WriteFile os p d = None)"

lemma saveFile_ok:
  assumes "stores os" "plain ep" "plain name"
  shows "saveFile os (path_Join [ep, name]) data = (None, saved ep name data)"
  using assms path_Dir_abs [of "[''downloads'', ep]" name]
  by (simp add: saveFile_def stores_def save_path walk_name saved_def Let_def)

lemma storePush_ok:
  assumes "stores os" "plain ep" "plain name" "visible_ends name" "CHR 0x0A \<notin> set name"
  shows "storePush os (Inr (push_message name data)) ep = (None, saved ep name data)"
    and "storePushFromDatagram os (push_message name data) ep = (None, saved ep name data)"
  using assms cut_push [of name data] push_prefix [of name data]
  by (auto simp: storePush_def storePushFromDatagram_def visible_ends_def TrimSpace_id path_Base_append saveFile_ok Let_def)

lemma store_file:
  assumes "stores os" "plain ep" "file_name es"
  shows "storePush os (Inr (push_message (last es) data)) ep = (None, saved ep (last es) data)"
    and "storePushFromDatagram os (push_message (last es) data) ep = (None, saved ep (last es) data)"
  using assms storePush_ok [of os ep "last es" data] by (simp_all add: file_name_def)

text \<open>The serving end reads the file that was asked for, if its name is made of plain elements.\<close>

definition serves :: "os_env \<Rightarrow> string \<Rightarrow> (string list \<Rightarrow> bytes) \<Rightarrow> bool" where
  "serves os ep content \<longleftrightarrow> (\<forall>es. file_name es \<longrightarrow> os_ReadFile os (abs_path (''www'' # ep # es)) = Inr (content es))"

lemma readFile_ok:
  assumes "serves os ep content" "plain ep" "file_name es"
  shows "readFile ext os (path_Join [ep, join_with CHR ''/'' es]) = Inr (content es)"
  using assms by (simp add: readFile_def read_path walk_names file_name_def serves_def)

lemma Base_of_name:
  assumes "plain ep" "file_name es"
  shows "path_Base (path_Join [ep, join_with CHR ''/'' es]) = last es" "path_Base (join_with CHR ''/'' es) = last es"
  using assms path_Join_names [of "[ep]" es] path_Base_names [of "ep # es"] path_Base_names [of es]
  by (simp_all add: file_name_def)

abbreviation reliable :: writer where
  "reliable \<equiv> \<lambda>_. None"

abbreviation GET :: "string list \<Rightarrow> bytes" where
  "GET es \<equiv> bytes_of_string (getPrefix @ join_with CHR ''/'' es)"

lemma serving_ok:
  assumes "serves os ep content" "plain ep" "file_name es"
  shows "transfer_bidi ext os reliable ep (Inr (GET es)) = [WriteCall (content es), CloseCall]"
    and "written (transfer_uni ext os (Inr reliable) ep (Inr (GET es))) = push_message (last es) (content es)"
    and "transfer_datagram ext os ep (GET es) = Some (push_message (last es) (content es))"
  using assms readFile_ok [OF assms] parseRequest_ok [of "join_with CHR ''/'' es"] Base_of_name [of ep es]
  by (simp_all add: transfer_bidi_def transfer_uni_def transfer_datagram_def sendFile_def pushFile_def written_def
      push_message_def file_name_def Let_def)

lemma accept_loop_ok: "\<forall>r \<in> set rs. \<exists>x. r = Inr x \<Longrightarrow> fst (accept_loop h rs) = map (h o projr) rs"
  by (induction rs) (auto simp: case_prod_beta Let_def)

lemma errgroup_all_ok: "errgroup_contract eg \<Longrightarrow> \<forall>r \<in> set rs. r = None \<Longrightarrow> eg rs = None"
  by (simp add: errgroup_contract_def)

lemma send_request_ok: "send_request ext reliable req =
    (None, [WriteCall (bytes_of_string (getPrefix @ req)), CloseCall])"
  by (simp add: send_request_def requestFile_def Let_def)

lemma mset_concat_map: "mset xs = mset ys \<Longrightarrow> mset (concat (map f xs)) = mset (concat (map f ys))"
proof -
  assume "mset xs = mset ys"
  moreover have "mset (concat (map f zs)) = sum_mset (image_mset (\<lambda>x. mset (f x)) (mset zs))" for zs
    by (induction zs) simp_all
  ultimately show ?thesis by simp
qed

lemma map_nth_upt: "map (\<lambda>i. f (xs ! i)) [0..<length xs] = map f xs"
  by (rule nth_equalityI) simp_all

definition GET_calls :: "string list \<Rightarrow> str_call list" where
  "GET_calls es = [WriteCall (GET es), CloseCall]"

lemma written_GET [simp]: "written (GET_calls es) = GET es"
  by (simp add: written_def GET_calls_def)

text \<open>
  C35. Files requested on unidirectional streams arrive. One end runs \<open>runTransferUniReceive\<close> for a list of
  files, the other \<open>runTransfer\<close> on the streams the first one opened, which it accepts in any order;
  the first end accepts the answers in any order. If no call fails, it returns no error and stores
  every file, with the content the other end has for it, under its name at the endpoint.
\<close>

theorem push_transfer_complete:
  assumes "errgroup_contract eg" "plain ep" "plain ep'" "\<forall>es \<in> set nss. file_name es"
    and "serves srv ep content" "stores os"
    and client: "client = runTransferUniReceive ext eg os (\<lambda>_. Inr reliable) accepted ep' (map (join_with CHR ''/'') nss)"
    and "mset (ti_uni input) = mset (map (\<lambda>cs. Inr (Inr (written cs), Inr reliable)) (fst (snd client)))"
    and "mset (map accepted [0..<length nss])
       = mset (map (\<lambda>cs. Inr (Inr (written cs))) (fst (snd (runTransfer ext' srv ep input))))"
  shows "fst client = None
    \<and> mset (snd (snd client)) = mset (concat (map (\<lambda>es. saved ep' (last es) (content es)) nss))"
proof -
  let ?store = "\<lambda>a. case a of Inl err \<Rightarrow> (Some err, []) | Inr r \<Rightarrow> storePush os r ep'"
  let ?push = "\<lambda>es. Inr (Inr (push_message (last es) (content es))) :: go_error + (go_error + bytes)"
  let ?us = "fst (snd (runTransfer ext' srv ep input))"
  let ?serve = "\<lambda>(rd, opened). transfer_uni ext' srv opened ep rd"
  have calls: "fst (snd client) = map GET_calls nss"
    using map_nth_upt [of "\<lambda>r. snd (send_request ext reliable r)" "map (join_with CHR ''/'') nss"]
    by (simp add: client runTransferUniReceive_def Let_def send_request_ok GET_calls_def comp_def)
  then have uni: "mset (ti_uni input) = mset (map (\<lambda>es. Inr (Inr (GET es), Inr reliable)) nss)"
    using assms(8) by (simp add: comp_def)
  then have "\<forall>r \<in> set (ti_uni input). \<exists>x. r = Inr x" using mset_eq_setD [OF uni] by auto
  then have "?us = map (?serve o projr) (ti_uni input)"
    by (simp add: runTransfer_def case_prod_beta accept_loop_ok)
  then have "mset (map (\<lambda>cs. Inr (Inr (written cs))) ?us)
      = image_mset (\<lambda>x. Inr (Inr (written ((?serve o projr) x)))) (mset (ti_uni input))"
    by (simp add: comp_def image_mset.compositionality)
  also have "\<dots> = mset (map ?push nss)"
    using assms(4) serving_ok(2) [OF assms(5,2)] unfolding uni
    by (simp add: image_mset.compositionality comp_def) (auto intro!: image_mset_cong)
  finally have acc: "mset (map accepted [0..<length nss]) = mset (map ?push nss)" using assms(9) by simp
  have stored: "?store (?push es) = (None, saved ep' (last es) (content es))" if "es \<in> set nss" for es
    using that assms(4) store_file(1) [OF assms(6,3)] by simp
  have "mset (snd (snd client)) = mset (concat (map (snd o ?store) (map accepted [0..<length nss])))"
    by (simp add: client runTransferUniReceive_def Let_def comp_def)
  also have "\<dots> = mset (concat (map (snd o ?store) (map ?push nss)))"
    using acc by (rule mset_concat_map)
  also have "map (snd o ?store) (map ?push nss) = map (\<lambda>es. saved ep' (last es) (content es)) nss"
    using stored by (simp add: comp_def)
  finally have "mset (snd (snd client)) = mset (concat (map (\<lambda>es. saved ep' (last es) (content es)) nss))" .
  moreover have "fst (?store a) = None" if "a \<in> set (map accepted [0..<length nss])" for a
    using that stored mset_eq_setD [OF acc] by force
  then have "fst client = None"
    by (auto simp: client runTransferUniReceive_def Let_def send_request_ok intro!: errgroup_all_ok [OF assms(1)])
  ultimately show ?thesis by blast
qed

text \<open>
  Files requested on bidirectional streams arrive on the same streams: the \<open>i\<close>-th stream carries the
  \<open>i\<close>-th request to a goroutine of \<open>runTransfer\<close>, and its answer back.
\<close>

theorem bidi_transfer_complete:
  assumes "errgroup_contract eg" "plain ep" "plain ep'" "\<forall>es \<in> set nss. file_name es"
    and "serves srv ep content" "stores os"
    and client: "client = runTransferBidiReceive ext eg os opened ep' (map (join_with CHR ''/'') nss)"
    and "\<forall>i < length nss. opened i
       = Inr (reliable, Inr (written (transfer_bidi ext' srv reliable ep (Inr (written (fst (snd client) ! i))))))"
  shows "fst client = None \<and> snd (snd client) = concat (map (\<lambda>es. saved ep' (last es) (content es)) nss)"
proof -
  let ?r = "\<lambda>i. receive_bidi ext os (opened i) ep' (join_with CHR ''/'' (nss ! i))"
  have "map (\<lambda>i. receive_bidi ext os (opened i) ep' (map (join_with CHR ''/'') nss ! i)) [0..<length nss] = map ?r [0..<length nss]"
    by simp
  then have cl: "client = (eg (map (fst o ?r) [0..<length nss]), map (fst o snd o ?r) [0..<length nss],
      concat (map (snd o snd o ?r) [0..<length nss]))"
    by (simp add: client runTransferBidiReceive_def Let_def del: map_eq_conv)
  have r: "?r i = (None, GET_calls (nss ! i), saved ep' (last (nss ! i)) (content (nss ! i)))" if i: "i < length nss" for i
  proof -
    let ?es = "nss ! i"
    have es: "file_name ?es" using assms(4) i by simp
    have "fst (snd (?r i)) = GET_calls ?es"
      using assms(8) i by (auto simp: receive_bidi_def send_request_ok GET_calls_def case_prod_beta Let_def)
    then have "written (fst (snd client) ! i) = GET ?es" using i by (simp add: cl)
    then have "opened i = Inr (reliable, Inr (content ?es))"
      using assms(8) i serving_ok(1) [OF assms(5,2) es] by (simp add: written_def)
    then show ?thesis
      using es assms(3,6) Base_of_name(2) [OF assms(3) es]
      by (simp add: receive_bidi_def send_request_ok GET_calls_def saveFile_ok file_name_def)
  qed
  have "map (snd o snd o ?r) [0..<length nss] = map (\<lambda>i. saved ep' (last (nss ! i)) (content (nss ! i))) [0..<length nss]"
    using r by simp
  then have "snd (snd client) = concat (map (\<lambda>es. saved ep' (last es) (content es)) nss)"
    by (simp add: cl map_nth_upt [of "\<lambda>es. saved ep' (last es) (content es)"])
  moreover have "fst client = None" using r by (auto simp: cl intro!: errgroup_all_ok [OF assms(1)])
  ultimately show ?thesis by blast
qed

lemma send_requests_ok:
  "send_requests ext reliable sent reqs = (None, sent @ map (\<lambda>r. bytes_of_string (getPrefix @ r)) reqs)"
  by (induction reqs arbitrary: sent) (simp_all add: Let_def)

lemma transfer_datagrams_ok:
  "\<forall>d \<in> set ds. transfer_datagram ext os ep d = Some (g d) \<Longrightarrow>
   transfer_datagrams ext os reliable ep sent (map Inr ds) = (sent @ map g ds, False)"
  by (induction ds arbitrary: sent) simp_all

lemma receive_pushes_ok:
  "\<forall>j. i \<le> j \<and> j < n \<longrightarrow> (\<exists>data. rcv j = Inr data \<and> storePushFromDatagram os data ep = (None, f j)) \<Longrightarrow>
   receive_pushes ext os rcv ep i n = (None, concat (map f [i..<n]))"
proof (induction "n - i" arbitrary: i)
  case 0
  then show ?case by (simp add: receive_pushes.simps)
next
  case (Suc k)
  then have "receive_pushes ext os rcv ep (i + 1) n = (None, concat (map f [i + 1..<n]))" by simp
  then show ?case
    using Suc.prems Suc.hyps(2) by (subst receive_pushes.simps) (auto simp: upt_rec [of i n])
qed

text \<open>Files requested in datagrams arrive, if no datagram is lost or reordered.\<close>

theorem datagram_transfer_complete:
  assumes "errgroup_contract eg" "plain ep" "plain ep'" "\<forall>es \<in> set nss. file_name es"
    and "serves srv ep content" "stores os"
    and client: "client = runTransferDatagramReceive ext eg os reliable rcv ep' (map (join_with CHR ''/'') nss)"
    and "ti_datagrams input = map Inr (fst (snd client))" "ti_send input = reliable"
    and "\<forall>i < length nss. rcv i = Inr (fst (snd (snd (runTransfer ext' srv ep input))) ! i)"
  shows "fst client = None \<and> snd (snd client) = concat (map (\<lambda>es. saved ep' (last es) (content es)) nss)"
proof -
  have "fst (snd client) = map GET nss"
    by (simp add: client runTransferDatagramReceive_def send_requests_ok case_prod_beta comp_def)
  moreover have "transfer_datagram ext' srv ep (GET es) = Some (push_message (last es) (content es))" if "es \<in> set nss" for es
    using that assms(4) serving_ok(3) [OF assms(5,2)] by blast
  then have "transfer_datagrams ext' srv reliable ep [] (map Inr (map GET nss))
      = (map (\<lambda>d. the (transfer_datagram ext' srv ep d)) (map GET nss), False)"
    by (subst transfer_datagrams_ok [where g = "\<lambda>d. the (transfer_datagram ext' srv ep d)"]) auto
  ultimately have ds: "fst (snd (snd (runTransfer ext' srv ep input)))
      = map (\<lambda>es. the (transfer_datagram ext' srv ep (GET es))) nss"
    using assms(8,9) by (simp add: runTransfer_def case_prod_beta comp_def)
  have "rcv i = Inr (push_message (last (nss ! i)) (content (nss ! i)))" if "i < length nss" for i
    using that assms(4,10) serving_ok(3) [OF assms(5,2)] by (simp add: ds)
  then have "receive_pushes ext os rcv ep' 0 (length nss)
      = (None, concat (map (\<lambda>i. saved ep' (last (nss ! i)) (content (nss ! i))) [0..<length nss]))"
    using assms(4) store_file(2) [OF assms(6,3)] by (intro receive_pushes_ok) simp
  then show ?thesis
    using errgroup_all_ok [OF assms(1), of "[None, None]"] map_nth_upt [of "\<lambda>es. saved ep' (last es) (content es)" nss]
    by (simp add: client runTransferDatagramReceive_def send_requests_ok)
qed

text \<open>
  C39. What the serving end reads is not confined to \<open>/www\<close>. For every endpoint and every file of the system,
  the request whose name climbs two directories makes \<open>runTransfer\<close> send that file's content: the name
  is joined to the endpoint and cleaned, which resolves its leading \<open>..\<close>, before \<open>/www\<close> is put in front.
\<close>

theorem served_files_not_confined:
  assumes "plain ep" "file_name es" "os_ReadFile os (abs_path es) = Inr secret"
  shows "fst (runTransfer ext os ep \<lparr>ti_bidi = [Inr (Inr (GET ([''..'', ''..''] @ es)), reliable)], ti_uni = us,
      ti_datagrams = ds, ti_send = w\<rparr>) = [[WriteCall secret, CloseCall]]"
proof -
  let ?n = "join_with CHR ''/'' ([''..'', ''..''] @ es)"
  obtain e es' where es: "es = e # es'" using assms(2) by (cases es) (auto simp: file_name_def)
  have n: "?n = ''..'' @ CHR ''/'' # ''..'' @ CHR ''/'' # join_with CHR ''/'' es" by (simp add: es)
  have "walk [''www'', ep] ?n = es"
    using assms(1,2) walk_up [of "[''www'']" ep] walk_up [of "[]" "''www''"] walk_names [of es "[]"]
    unfolding n walk_append by (simp add: plain_def file_name_def)
  moreover have "visible_ends ?n"
    using assms(2) unfolding n visible_ends_def visible_def file_name_def by simp
  ultimately show ?thesis
    using assms(1,3) by (simp add: runTransfer_def transfer_bidi_def parseRequest_ok sendFile_def readFile_def read_path
      case_prod_beta Let_def)
qed

section \<open>Instances\<close>

text \<open>An error group that returns the error of the first goroutine in order that has one.\<close>

definition first_error :: errgroup where
  "first_error rs = (case filter (\<lambda>r. r \<noteq> None) rs of [] \<Rightarrow> None | r # _ \<Rightarrow> r)"

lemma first_error_contract: "errgroup_contract first_error"
proof -
  have "(first_error rs = None \<longleftrightarrow> (\<forall>r \<in> set rs. r = None)) \<and> (\<forall>e. first_error rs = Some e \<longrightarrow> Some e \<in> set rs)" for rs
    by (induction rs) (auto simp: first_error_def)
  then show ?thesis by (simp add: errgroup_contract_def)
qed

text \<open>A file system whose files contain their own paths and which stores everything, and two files.\<close>

definition demo_os :: os_env where
  "demo_os = \<lparr>os_ReadFile = \<lambda>p. Inr (bytes_of_string p), os_MkdirAll = \<lambda>_. None, os_WriteFile = \<lambda>_ _. None\<rparr>"

definition demo_content :: "string list \<Rightarrow> bytes" where
  "demo_content es = bytes_of_string (abs_path ([''www'', ''ep''] @ es))"

definition demo_files :: "string list list" where
  "demo_files = [[''a.txt''], [''d'', ''b.txt'']]"

definition demo_input :: transfer_input where
  "demo_input = \<lparr>ti_bidi = [], ti_uni = map (\<lambda>es. Inr (Inr (GET es), Inr reliable)) (rev demo_files),
     ti_datagrams = [], ti_send = reliable\<rparr>"

definition demo_accepted :: "nat \<Rightarrow> go_error + (go_error + bytes)" where
  "demo_accepted i = Inr (Inr (push_message (last (demo_files ! i)) (demo_content (demo_files ! i))))"

lemma demo_serves: "serves demo_os ''ep'' demo_content"
  by (simp add: serves_def demo_os_def demo_content_def)

lemma demo_stores: "stores demo_os"
  by (simp add: stores_def demo_os_def)

lemma demo_names: "plain ''ep''" "\<forall>es \<in> set demo_files. file_name es"
  by (simp_all add: demo_files_def file_name_def plain_def visible_ends_def visible_def)

theorem push_transfer_complete_witness:
  "fst (runTransferUniReceive (\<lambda>_. '''') first_error demo_os (\<lambda>_. Inr reliable) demo_accepted ''ep'' [''a.txt'', ''d/b.txt'']) = None
   \<and> mset (snd (snd (runTransferUniReceive (\<lambda>_. '''') first_error demo_os (\<lambda>_. Inr reliable) demo_accepted ''ep'' [''a.txt'', ''d/b.txt''])))
     = mset (saved ''ep'' ''a.txt'' (bytes_of_string ''/www/ep/a.txt'') @ saved ''ep'' ''b.txt'' (bytes_of_string ''/www/ep/d/b.txt''))"
proof -
  let ?client = "runTransferUniReceive (\<lambda>_. '''') first_error demo_os (\<lambda>_. Inr reliable) demo_accepted ''ep'' (map (join_with CHR ''/'') demo_files)"
  have calls: "fst (snd ?client) = map GET_calls demo_files"
    by (simp add: runTransferUniReceive_def demo_files_def send_request_ok GET_calls_def Let_def upt_rec)
  have answers: "map (\<lambda>cs. Inr (Inr (written cs)) :: go_error + (go_error + bytes)) (fst (snd (runTransfer (\<lambda>_. '''') demo_os ''ep'' demo_input)))
      = map (\<lambda>es. Inr (Inr (push_message (last es) (demo_content es)))) (rev demo_files)"
    using demo_names(2) serving_ok(2) [OF demo_serves demo_names(1)]
    by (simp add: runTransfer_def demo_input_def case_prod_beta accept_loop_ok comp_def)
  have "fst ?client = None \<and> mset (snd (snd ?client)) = mset (concat (map (\<lambda>es. saved ''ep'' (last es) (demo_content es)) demo_files))"
  proof (rule push_transfer_complete [OF first_error_contract demo_names(1) demo_names demo_serves demo_stores refl])
    show "mset (ti_uni demo_input) = mset (map (\<lambda>cs. Inr (Inr (written cs), Inr reliable)) (fst (snd ?client)))"
      unfolding calls by (simp add: demo_input_def rev_map [symmetric] comp_def)
    show "mset (map demo_accepted [0..<length demo_files])
      = mset (map (\<lambda>cs. Inr (Inr (written cs))) (fst (snd (runTransfer (\<lambda>_. '''') demo_os ''ep'' demo_input))))"
      using map_nth_upt [of "\<lambda>es. Inr (Inr (push_message (last es) (demo_content es))) :: go_error + (go_error + bytes)" demo_files]
      unfolding answers demo_accepted_def by (simp only: rev_map [symmetric] mset_rev)
  qed
  then show ?thesis by (simp add: demo_files_def demo_content_def abs_path_def)
qed

theorem downloads_confined_witness:
  "below [''downloads''] (abs_path [''downloads''])
   \<and> WriteFile (abs_path [''downloads'']) [1] \<in> set (snd (snd (runTransferUniReceive (\<lambda>_. '''') first_error demo_os (\<lambda>_. Inr reliable)
       (\<lambda>_. Inr (Inr (push_message ''..'' [1]))) ''ep'' [''a''])))"
proof -
  have "storePush demo_os (Inr (push_message ''..'' [1])) ''ep''
      = saveFile demo_os (path_Join [''ep'', path_Base ''..'']) [1]"
    using cut_push [of "''..''" "[1]"] push_prefix [of "''..''" "[1]"]
    by (simp add: storePush_def TrimSpace_id visible_ends_def visible_def)
  moreover have "path_Base ''..'' = ''..''" by (simp add: path_Base_def)
  moreover have "path_Join [''/downloads'', path_Join [''ep'', ''..'']] = abs_path [''downloads'']"
    using save_path [OF demo_names(1), of "''..''"] walk_up [of "[''downloads'']" "''ep''"] by simp
  ultimately have w: "WriteFile (abs_path [''downloads'']) [1] \<in> set (snd (snd (runTransferUniReceive (\<lambda>_. '''') first_error demo_os (\<lambda>_. Inr reliable)
       (\<lambda>_. Inr (Inr (push_message ''..'' [1]))) ''ep'' [''a''])))"
    by (simp add: runTransferUniReceive_def Let_def saveFile_def demo_os_def)
  then show ?thesis using downloads_confined [OF demo_names(1) UnI1 [OF UnI1 [OF w]]] by blast
qed

theorem served_files_not_confined_witness:
  "fst (runTransfer (\<lambda>_. '''') demo_os ''ep'' \<lparr>ti_bidi = [Inr (Inr (bytes_of_string ''GET ../../etc/passwd''), reliable)],
      ti_uni = [], ti_datagrams = [], ti_send = reliable\<rparr>) = [[WriteCall (bytes_of_string ''/etc/passwd''), CloseCall]]"
proof -
  have "file_name [''etc'', ''passwd'']" by (simp add: file_name_def plain_def visible_ends_def visible_def)
  from served_files_not_confined [OF demo_names(1) this, of demo_os "bytes_of_string ''/etc/passwd''"]
  show ?thesis by (simp add: demo_os_def abs_path_def getPrefix_def)
qed

end
