(* ===== verification/WT_InteropRun.thy ===== *)
theory WT_InteropRun
  imports WT_Interop
begin

text \<open>
  The programs of \<open>interop/server.go\<close> and \<open>interop/client.go\<close>: the parsing of the requests in the
  environment variables, and the two runs, from the test case to the transfer.

  Parameters: \<open>url.Parse\<close> (host and path of its result), the environment variables, what the operating
  system answers, and what the session answers to the calls of the transfers (\<open>session_io\<close>). A run ends
  with \<open>os.Exit\<close>, with a return, with a panic, or does not end because it waits for the peer.
\<close>

section \<open>Requests\<close>

text \<open>A Go map from endpoints to the files requested there.\<close>

type_synonym request_map = "(string \<times> string list) list"

text \<open>\<open>requests[k] = append(requests[k], rest)\<close>.\<close>

definition append_request :: "string \<Rightarrow> string \<Rightarrow> request_map \<Rightarrow> request_map" where
  "append_request k rest m = AList.update k ((case map_of m k of None \<Rightarrow> [] | Some rs \<Rightarrow> rs) @ [rest]) m"

definition server_request :: "request_map \<Rightarrow> string \<Rightarrow> request_map" where
  "server_request m pathStr0 =
     (let pathStr = TrimPrefix (TrimSpace pathStr0) ''/''
      in if pathStr = '''' then m
         else
           let (before, after, ok) = Cut pathStr CHR ''/''
           in if \<not> ok then AList.update pathStr [] m else append_request before after m)"

text \<open>\<open>None\<close> is the nil map.\<close>

definition parseServerRequests :: "string \<Rightarrow> request_map option" where
  "parseServerRequests s = (if s = '''' then None else Some (foldl server_request [] (Fields s)))"



section \<open>Runs\<close>

datatype run_outcome = Exit nat | Return "go_error option" | Panic | Blocked

text \<open>What the session answers during a transfer.\<close>

record session_io =
  si_uniOpened :: "nat \<Rightarrow> go_error + writer"
  si_uniAccepted :: "nat \<Rightarrow> go_error + (go_error + bytes)"
  si_bidi :: "nat \<Rightarrow> go_error + writer \<times> (go_error + bytes)"
  si_send :: writer
  si_received :: "nat \<Rightarrow> go_error + bytes"
  si_input :: transfer_input
  si_done :: bool                             \<comment> \<open>the session's context ends\<close>

record run_env =
  re_TESTCASE :: string
  re_REQUESTS :: string
  re_PROTOCOLS :: string
  re_createLog :: "go_error option"
  re_keyLog :: "go_error option"
  re_os :: os_env
  re_io :: session_io

definition write_protocol :: "(go_error \<Rightarrow> string) \<Rightarrow> os_env \<Rightarrow> Session \<Rightarrow> go_error option \<times> fs_call list" where
  "write_protocol ext os sess =
     (let p = ''/downloads/negotiated_protocol.txt'';
          data = bytes_of_string (sst_ApplicationProtocol (Session_SessionState () sess))
      in (case os_WriteFile os p data of
            None \<Rightarrow> None
          | Some err \<Rightarrow> Some (EWrap (''failed to write negotiated_protocol.txt: '' @ go_Error ext err) err),
          [WriteFile p data]))"

text \<open>The receiving transfers, by the way the files come: the result and the calls that store files.\<close>

definition receive_uni :: "(go_error \<Rightarrow> string) \<Rightarrow> errgroup \<Rightarrow> run_env \<Rightarrow> string \<Rightarrow> string list \<Rightarrow> run_outcome \<times> fs_call list" where
  "receive_uni ext eg env endpoint requests =
     (let (err, _, fs) = runTransferUniReceive ext eg (re_os env) (si_uniOpened (re_io env)) (si_uniAccepted (re_io env)) endpoint requests
      in (Return err, fs))"

definition receive_bidis :: "(go_error \<Rightarrow> string) \<Rightarrow> errgroup \<Rightarrow> run_env \<Rightarrow> string \<Rightarrow> string list \<Rightarrow> run_outcome \<times> fs_call list" where
  "receive_bidis ext eg env endpoint requests =
     (let (err, _, fs) = runTransferBidiReceive ext eg (re_os env) (si_bidi (re_io env)) endpoint requests
      in (Return err, fs))"

definition receive_datagrams :: "(go_error \<Rightarrow> string) \<Rightarrow> errgroup \<Rightarrow> run_env \<Rightarrow> string \<Rightarrow> string list \<Rightarrow> run_outcome \<times> fs_call list" where
  "receive_datagrams ext eg env endpoint requests =
     (let (err, _, fs) = runTransferDatagramReceive ext eg (re_os env) (si_send (re_io env)) (si_received (re_io env)) endpoint requests
      in (Return err, fs))"

definition serve_transfer :: "(go_error \<Rightarrow> string) \<Rightarrow> run_env \<Rightarrow> string \<Rightarrow> run_outcome \<times> fs_call list" where
  "serve_transfer ext env endpoint =
     (let (_, _, _, ended) = runTransfer ext (re_os env) endpoint (si_input (re_io env))
      in (if ended then Return None else Blocked, []))"

subsection \<open>The server\<close>

text \<open>\<open>ReadDir\<close> gives names, and which are directories.\<close>

definition discoverEndpoints :: "go_error + (string \<times> bool) list \<Rightarrow> go_error + string list" where
  "discoverEndpoints readDir =
     (case readDir of Inl err \<Rightarrow> Inl err | Inr entries \<Rightarrow> Inr (map fst (filter snd entries)))"

text \<open>
  What the main goroutine sees first: a session that the handler of an endpoint made, an error of the
  listener, or nothing. (An error of the listener ends the process also later, during a transfer.)
\<close>

datatype server_event = SessionArrives string Session | ListenFails go_error | NothingArrives

datatype server_effect =
    Register string string                    \<comment> \<open>\<open>http.HandleFunc\<close>: pattern and endpoint\<close>
  | ListenAndServe "string list"              \<comment> \<open>with the application protocols\<close>
  | Store "fs_call list"
  | CloseServer

definition register_endpoint :: "string \<Rightarrow> server_effect list" where
  "register_endpoint ep =
     Register (''/'' @ ep) ep # (if ep \<noteq> '''' \<and> last ep = CHR ''/'' then [] else [Register (''/'' @ ep @ ''/'') ep])"

definition server_testcase :: "(go_error \<Rightarrow> string) \<Rightarrow> errgroup \<Rightarrow> run_env \<Rightarrow> request_map \<Rightarrow> string \<Rightarrow> Session
    \<Rightarrow> run_outcome \<times> fs_call list" where
  "server_testcase ext eg env requestMap endpoint sess =
     (let requests = (case map_of requestMap endpoint of None \<Rightarrow> [] | Some rs \<Rightarrow> rs); t = re_TESTCASE env
      in if t = ''handshake'' then
           (case write_protocol ext (re_os env) sess of
              (Some err, fs) \<Rightarrow> (Return (Some err), fs)
            | (None, fs) \<Rightarrow> (if si_done (re_io env) then Return None else Blocked, fs))
         else if t = ''transfer'' then serve_transfer ext env endpoint
         else if t = ''transfer-datagram-send'' then receive_datagrams ext eg env endpoint requests
         else if t = ''transfer-unidirectional-send'' then receive_uni ext eg env endpoint requests
         else if t = ''transfer-bidirectional-send'' then receive_bidis ext eg env endpoint requests
         else (Exit 127, []))"

definition server_testcases :: "string list" where
  "server_testcases = [''handshake'', ''transfer'', ''transfer-unidirectional-send'', ''transfer-bidirectional-send'',
     ''transfer-datagram-send'']"

definition RunInteropServer :: "(go_error \<Rightarrow> string) \<Rightarrow> errgroup \<Rightarrow> run_env \<Rightarrow> go_error option
    \<Rightarrow> go_error + (string \<times> bool) list \<Rightarrow> server_event \<Rightarrow> run_outcome \<times> server_effect list" where
  "RunInteropServer ext eg env loadCert readDir event =
     (if re_TESTCASE env \<notin> set server_testcases then (Exit 127, [])
      else
        let requestMap = (case parseServerRequests (re_REQUESTS env) of None \<Rightarrow> [] | Some m \<Rightarrow> m)
        in if length requestMap > 1 then (Return (Some (ENew ''webtransport-go currently doesn't support flow control'')), [])
           else
             case re_createLog env of
               Some err \<Rightarrow> (Return (Some (EWrap (''failed to create log file: '' @ go_Error ext err) err)), [])
             | None \<Rightarrow>
             (case re_keyLog env of
               Some err \<Rightarrow> (Return (Some (EWrap (''failed to create key log: '' @ go_Error ext err) err)), [])
             | None \<Rightarrow>
             (case loadCert of
               Some err \<Rightarrow> (Return (Some (EWrap (''failed to load certificate: '' @ go_Error ext err) err)), [])
             | None \<Rightarrow>
             (case discoverEndpoints readDir of
               Inl err \<Rightarrow> (Return (Some (EWrap (''failed to read /www: '' @ go_Error ext err) err)), [CloseServer])
             | Inr [] \<Rightarrow> (Return (Some (ENew ''no endpoints discovered in /www'')), [CloseServer])
             | Inr endpoints \<Rightarrow>
                 let reg = concat (map register_endpoint endpoints) @ [ListenAndServe (split_on CHR '' '' (re_PROTOCOLS env))]
                 in case event of
                      NothingArrives \<Rightarrow> (Blocked, reg)
                    | ListenFails err \<Rightarrow> (if errors_Is err ECanceled then Blocked else Exit 1, reg)
                    | SessionArrives ep sess \<Rightarrow>
                        (case server_testcase ext eg env requestMap ep sess of
                           (Return r, fs) \<Rightarrow> (Return r, reg @ [Store fs, CloseServer])
                         | (out, fs) \<Rightarrow> (out, reg @ [Store fs]))))))"

subsection \<open>The client\<close>







section \<open>Requests are grouped by endpoint\<close>

definition grouped :: "string \<Rightarrow> (string \<times> string) list \<Rightarrow> string list option" where
  "grouped k prs = (let rs = map snd (filter (\<lambda>p. fst p = k) prs) in if rs = [] then None else Some rs)"

lemma map_of_append_request:
  "map_of (append_request k rest m) = (map_of m)(k \<mapsto> (case map_of m k of None \<Rightarrow> [] | Some rs \<Rightarrow> rs) @ [rest])"
  by (simp add: append_request_def update_conv')

lemma grouped_snoc:
  "grouped k (prs @ [(e, f)]) = (if k = e then Some ((case grouped k prs of None \<Rightarrow> [] | Some rs \<Rightarrow> rs) @ [f]) else grouped k prs)"
  by (auto simp: grouped_def Let_def)

definition request_path :: "string \<times> string \<Rightarrow> string" where
  "request_path p = ''/'' @ fst p @ ''/'' @ snd p"

definition request_ok :: "string \<times> string \<Rightarrow> bool" where
  "request_ok p \<longleftrightarrow> fst p \<noteq> '''' \<and> CHR ''/'' \<notin> set (fst p) \<and> visible (fst p) \<and> visible (snd p)"

lemma request_path_visible: "request_ok p \<Longrightarrow> visible (request_path p) \<and> visible_ends (request_path p)"
  unfolding request_ok_def request_path_def visible_ends_def visible_def
  by (cases "snd p") (auto simp: last_append)

lemma server_request_ok:
  assumes "request_ok p"
  shows "server_request m (request_path p) = append_request (fst p) (snd p) m"
proof -
  have "TrimPrefix (TrimSpace (request_path p)) ''/'' = fst p @ ''/'' @ snd p"
    using request_path_visible [OF assms] by (simp add: TrimSpace_id) (simp add: request_path_def TrimPrefix_def HasPrefix_def)
  then show ?thesis
    using assms Cut_found [of "CHR ''/''" "fst p" "snd p"] by (simp add: server_request_def request_ok_def)
qed

text \<open>
  \<open>parseServerRequests\<close> groups the requests by endpoint: of a list of paths \<open>/endpoint/file\<close> separated by
  blanks, the map has, for each endpoint that occurs, the files requested there in their order, and
  no other endpoint.
\<close>

theorem server_requests_grouped:
  assumes "prs \<noteq> []" "\<forall>p \<in> set prs. request_ok p"
  shows "\<exists>m. parseServerRequests (join_with CHR '' '' (map request_path prs)) = Some m
    \<and> (\<forall>k. map_of m k = grouped k prs)"
proof -
  have "Fields (join_with CHR '' '' (map request_path prs)) = map request_path prs"
    using assms(2) request_path_visible by (intro Fields_join) (auto simp: visible_ends_def)
  moreover have "join_with CHR '' '' (map request_path prs) \<noteq> ''''"
    using assms join_with_eq_Nil [of "map request_path prs"] by (auto simp: request_path_def)
  moreover have "map_of (foldl server_request [] (map request_path prs)) k = grouped k prs" for k
    using assms(2)
  proof (induction prs arbitrary: k rule: rev_induct)
    case Nil
    then show ?case by (simp add: grouped_def)
  next
    case (snoc p prs)
    then show ?case
      using grouped_snoc [of k prs "fst p" "snd p"] by (simp add: server_request_ok map_of_append_request)
  qed
  ultimately show ?thesis by (simp add: parseServerRequests_def)
qed

section \<open>When the client panics\<close>


lemma Transport_Close_inited [simp]: "tr_inited d \<Longrightarrow> Transport_Close d \<noteq> None"
  by (simp add: Transport_Close_def)








section \<open>An instance\<close>

theorem server_requests_grouped_witness:
  "\<exists>m. parseServerRequests ''/ep/a.txt /other/x /ep/d/b.txt'' = Some m
    \<and> map_of m ''ep'' = Some [''a.txt'', ''d/b.txt''] \<and> map_of m ''other'' = Some [''x''] \<and> map_of m ''a.txt'' = None"
proof -
  let ?prs = "[(''ep'', ''a.txt''), (''other'', ''x''), (''ep'', ''d/b.txt'')]"
  have "\<forall>p \<in> set ?prs. request_ok p" by (simp add: request_ok_def visible_def)
  from server_requests_grouped [OF _ this] obtain m where
    m: "parseServerRequests (join_with CHR '' '' (map request_path ?prs)) = Some m" "\<And>k. map_of m k = grouped k ?prs"
    by blast
  then show ?thesis by (intro exI [of _ m]) (simp add: request_path_def grouped_def)
qed

text \<open>
  The main functions of both programs: the exit status after a run; a panic ends a Go program with
  status 2, and a run that blocks does not end.
\<close>

definition interop_main :: "run_outcome \<Rightarrow> nat option" where
  "interop_main run =
     (case run of
        Exit n \<Rightarrow> Some n
      | Return err \<Rightarrow> Some (if err \<noteq> None then 1 else 0)
      | Panic \<Rightarrow> Some 2
      | Blocked \<Rightarrow> None)"

end
