(* ===== verification/WT_OutgoingSpec.thy ===== *)
theory WT_OutgoingSpec
  imports WT_OutgoingSync
begin

text \<open>
  What \<open>OpenStream\<close> and \<open>OpenStreamSync\<close> promise, as a specification without channels, tokens and
  critical sections: a counting semaphore whose limit the peer raises, with a queue of waiting
  goroutines that is served first come first served and that nobody overtakes, and which is closed
  with the session. The goroutines of \<open>WT_OutgoingSync\<close> implement it: the relation \<open>sem_rel\<close> is a forward
  simulation, in which each step of a goroutine is one step of the semaphore or does not concern it.
\<close>

section \<open>The semaphore\<close>

datatype sem_status = Idle | Waiting | Holding

record sem_state =
  sem_used :: nat
  sem_limit :: nat
  sem_queue :: "nat list"                    \<comment> \<open>the waiting goroutines, in order\<close>
  sem_status :: "nat \<Rightarrow> sem_status"
  sem_closed :: bool

text \<open>
  \<open>sem_try\<close> is a call of \<open>OpenStream\<close> that gets a stream, \<open>sem_acquire\<close> one of \<open>OpenStreamSync\<close> that finds
  room at once; both only while nobody waits. A holder keeps its unit when QUIC opened the stream, and
  gives it back when QUIC did not.
\<close>

inductive sem_step :: "sem_state \<Rightarrow> sem_state \<Rightarrow> bool" where
  sem_try: "\<not> sem_closed a \<Longrightarrow> sem_queue a = [] \<Longrightarrow> sem_used a < sem_limit a \<Longrightarrow>
    sem_step a (a\<lparr>sem_used := Suc (sem_used a)\<rparr>)"
| sem_acquire: "\<not> sem_closed a \<Longrightarrow> sem_queue a = [] \<Longrightarrow> sem_used a < sem_limit a \<Longrightarrow> sem_status a g = Idle \<Longrightarrow>
    sem_step a (a\<lparr>sem_used := Suc (sem_used a), sem_status := (sem_status a)(g := Holding)\<rparr>)"
| sem_wait: "\<not> sem_closed a \<Longrightarrow> sem_status a g = Idle \<Longrightarrow> sem_queue a \<noteq> [] \<or> sem_limit a \<le> sem_used a \<Longrightarrow>
    sem_step a (a\<lparr>sem_queue := sem_queue a @ [g], sem_status := (sem_status a)(g := Waiting)\<rparr>)"
| sem_grant: "\<not> sem_closed a \<Longrightarrow> sem_queue a = g # q \<Longrightarrow> sem_used a < sem_limit a \<Longrightarrow>
    sem_step a (a\<lparr>sem_used := Suc (sem_used a), sem_queue := q, sem_status := (sem_status a)(g := Holding)\<rparr>)"
| sem_abandon: "\<not> sem_closed a \<Longrightarrow> g \<in> set (sem_queue a) \<Longrightarrow>
    sem_step a (a\<lparr>sem_queue := filter (\<lambda>h. h \<noteq> g) (sem_queue a), sem_status := (sem_status a)(g := Idle)\<rparr>)"
| sem_keep: "\<not> sem_closed a \<Longrightarrow> sem_status a g = Holding \<Longrightarrow>
    sem_step a (a\<lparr>sem_status := (sem_status a)(g := Idle)\<rparr>)"
| sem_release: "\<not> sem_closed a \<Longrightarrow> sem_status a g = Holding \<Longrightarrow> 0 < sem_used a \<Longrightarrow>
    sem_step a (a\<lparr>sem_used := sem_used a - 1, sem_status := (sem_status a)(g := Idle)\<rparr>)"
| sem_turned_away: "sem_closed a \<Longrightarrow> sem_status a g \<noteq> Idle \<Longrightarrow>
    sem_step a (a\<lparr>sem_status := (sem_status a)(g := Idle)\<rparr>)"
| sem_raise: "\<not> sem_closed a \<Longrightarrow> sem_limit a < l \<Longrightarrow> sem_step a (a\<lparr>sem_limit := l\<rparr>)"
| sem_close: "\<not> sem_closed a \<Longrightarrow> sem_step a (a\<lparr>sem_closed := True, sem_queue := []\<rparr>)"

definition sem_start :: "nat \<Rightarrow> sem_state \<Rightarrow> bool" where
  "sem_start n a \<longleftrightarrow> a = \<lparr>sem_used = 0, sem_limit = n, sem_queue = [], sem_status = \<lambda>_. Idle, sem_closed = False\<rparr>"

section \<open>The simulation\<close>

definition status_of :: "'t pc \<Rightarrow> sem_status" where
  "status_of p = (if holds_stream p then Holding else if chan_of p = None then Idle else Waiting)"

text \<open>The \<open>i\<close>-th goroutine of the semaphore's queue waits on the \<open>i\<close>-th channel of the map's queue.\<close>

definition sem_rel :: "'t os_state \<Rightarrow> sem_state \<Rightarrow> bool" where
  "sem_rel s a \<longleftrightarrow>
     sem_used a = unat (osm_numStreams (os_map s)) \<and> sem_limit a = unat (osm_maxStreams (os_map s))
     \<and> sem_closed a = is_closed (os_map s)
     \<and> sem_status a = (\<lambda>g. status_of (os_pc s g))
     \<and> map Some (osm_openQueue (os_map s)) = map (\<lambda>g. chan_of (os_pc s g)) (sem_queue a)"

lemma status_of_simps [simp]:
  "status_of (PReady r) = Idle" "status_of (PReport l) = Idle" "status_of (PBlocked c l) = Waiting"
  "status_of (PRelock c) = Waiting" "status_of (PSelect c) = Waiting" "status_of (PCtxDone c) = Waiting"
  "status_of (PWoken c) = Waiting" "status_of (PBlocked2 l) = Holding" "status_of PRelock2 = Holding"
  "status_of (POpening i) = Holding"
  by (simp_all add: status_of_def)

lemma sem_relD:
  assumes "sem_rel s a"
  shows "sem_used a = unat (osm_numStreams (os_map s))" "sem_limit a = unat (osm_maxStreams (os_map s))"
    "sem_closed a = is_closed (os_map s)" "sem_status a g = status_of (os_pc s g)"
    "sem_queue a = [] \<longleftrightarrow> osm_openQueue (os_map s) = []"
  using assms by (auto simp: sem_rel_def)

lemma sem_rel_start: "os_start n s \<Longrightarrow> sem_start (unat n) a \<Longrightarrow> sem_rel s a"
  by (simp add: os_start_def sem_start_def sem_rel_def newOutgoingStreamsMap_def)

text \<open>A step that the semaphore does not see.\<close>

lemma sem_stutter:
  assumes "sem_rel s a" "\<And>h. status_of (os_pc t h) = status_of (os_pc s h)" "\<And>h. chan_of (os_pc t h) = chan_of (os_pc s h)"
    "osm_numStreams (os_map t) = osm_numStreams (os_map s)" "osm_maxStreams (os_map t) = osm_maxStreams (os_map s)"
    "is_closed (os_map t) = is_closed (os_map s)" "osm_openQueue (os_map t) = osm_openQueue (os_map s)"
  shows "sem_rel t a"
  using assms(1) unfolding sem_rel_def assms(2-7) .

text \<open>A waiting goroutine is in both queues, at the same place; it leaves both.\<close>

lemma waiting_in_queue:
  assumes "sem_rel s a" "chans_ok (os_map s) (os_pc s)" "chan_of (os_pc s g) = Some c" "\<not> is_closed (os_map s)"
  shows "g \<in> set (sem_queue a)"
proof -
  have "c \<in> set (osm_openQueue (os_map s))" by (rule chans_okD(9) [OF assms(2-4)])
  then have "Some c \<in> set (map Some (osm_openQueue (os_map s)))" by simp
  also have "map Some (osm_openQueue (os_map s)) = map (\<lambda>g. chan_of (os_pc s g)) (sem_queue a)"
    using assms(1) by (simp add: sem_rel_def)
  finally have "Some c \<in> set (map (\<lambda>g. chan_of (os_pc s g)) (sem_queue a))" .
  then obtain h where "h \<in> set (sem_queue a)" "chan_of (os_pc s h) = Some c" by auto
  with chans_okD(10) [OF assms(2,3), of h] show ?thesis by simp
qed

lemma queues_leave:
  assumes "map Some Q = map (\<lambda>g. chan_of (pc g)) G" "chan_of (pc g) = Some c"
    "\<And>h. chan_of (pc h) = Some c \<Longrightarrow> h = g"
  shows "map Some (filter (\<lambda>d. d \<noteq> c) Q) = map (\<lambda>h. chan_of ((pc(g := p)) h)) (filter (\<lambda>h. h \<noteq> g) G)"
proof -
  have other: "chan_of (pc h) \<noteq> Some c \<longleftrightarrow> h \<noteq> g" for h using assms(2,3) by metis
  have "map Some (filter (\<lambda>d. d \<noteq> c) Q) = filter (\<lambda>x. x \<noteq> Some c) (map Some Q)" by (simp add: filter_map comp_def)
  also have "\<dots> = map (\<lambda>g. chan_of (pc g)) (filter (\<lambda>h. chan_of (pc h) \<noteq> Some c) G)"
    unfolding assms(1) by (simp add: filter_map comp_def)
  also have "\<dots> = map (\<lambda>h. chan_of ((pc(g := p)) h)) (filter (\<lambda>h. h \<noteq> g) G)"
    unfolding other by (intro map_cong) simp_all
  finally show ?thesis .
qed

lemma queue_frame:
  assumes "map Some Q = map (\<lambda>g. chan_of (pc g)) G" "chan_of (pc g) = None"
  shows "map Some Q = map (\<lambda>h. chan_of ((pc(g := p)) h)) G"
proof -
  have "g \<notin> set G"
  proof
    assume "g \<in> set G"
    then have "chan_of (pc g) \<in> set (map (\<lambda>g. chan_of (pc g)) G)" by simp
    also have "map (\<lambda>g. chan_of (pc g)) G = map Some Q" using assms(1) by simp
    finally show False using assms(2) by auto
  qed
  then have "map (\<lambda>h. chan_of ((pc(g := p)) h)) G = map (\<lambda>h. chan_of (pc h)) G" by (intro map_cong) auto
  with assms(1) show ?thesis by (rule trans [OF _ sym])
qed

definition sem_follows :: "sem_state \<Rightarrow> 't os_state \<Rightarrow> bool" where
  "sem_follows a t \<longleftrightarrow> (\<exists>b. (b = a \<or> sem_step a b) \<and> sem_rel t b)"

lemma sem_follows_stutter: "sem_rel t a \<Longrightarrow> sem_follows a t"
  by (auto simp: sem_follows_def)

lemma sem_follows_step: "sem_step a b \<Longrightarrow> sem_rel t b \<Longrightarrow> sem_follows a t"
  by (auto simp: sem_follows_def)

text \<open>A goroutine stops waiting without a stream.\<close>

lemma sim_leave:
  assumes rel: "sem_rel s a" and ok: "chans_ok (os_map s) (os_pc s)" and c: "chan_of (os_pc s g) = Some c"
    and g: "\<not> holds_stream (os_pc s g)" and p: "status_of p = Idle"
    and t: "os_pc t = (os_pc s)(g := p)" "osm_numStreams (os_map t) = osm_numStreams (os_map s)"
      "osm_maxStreams (os_map t) = osm_maxStreams (os_map s)" "osm_closeErr (os_map t) = osm_closeErr (os_map s)"
      "osm_openQueue (os_map t) = filter (\<lambda>d. d \<noteq> c) (osm_openQueue (os_map s))"
  shows "sem_follows a t"
proof -
  note R = rel [unfolded sem_rel_def]
  let ?b = "a\<lparr>sem_queue := filter (\<lambda>h. h \<noteq> g) (sem_queue a), sem_status := (sem_status a)(g := Idle)\<rparr>"
  have "map Some (osm_openQueue (os_map t)) = map (\<lambda>h. chan_of (os_pc t h)) (filter (\<lambda>h. h \<noteq> g) (sem_queue a))"
    unfolding t(1,5) using R chans_okD(10) [OF ok _ c] by (intro queues_leave c) blast+
  then have b: "sem_rel t ?b" using R by (simp add: sem_rel_def t(1-4) fun_eq_iff p)
  show ?thesis
  proof (cases "sem_closed a")
    case False
    then have "g \<in> set (sem_queue a)" using R by (intro waiting_in_queue [OF rel ok c]) simp
    with False b show ?thesis by (blast intro: sem_follows_step sem_abandon)
  next
    case True
    then have "sem_queue a = []" using R chans_okD(2) [OF ok] by simp
    then have "?b = a\<lparr>sem_status := (sem_status a)(g := Idle)\<rparr>" by simp
    moreover have "sem_status a g \<noteq> Idle" using R c g by (simp add: status_of_def)
    ultimately show ?thesis using b sem_turned_away [OF True] by (metis sem_follows_step)
  qed
qed

text \<open>The head of the queue gets a stream.\<close>

lemma sim_grant:
  assumes rel: "sem_rel s a" and ok: "chans_ok (os_map s) (os_pc s)" and c: "chan_of (os_pc s g) = Some c"
    and n: "osm_closeErr (os_map s) = None" and Q: "osm_openQueue (os_map s) = c # q"
    and lt: "osm_numStreams (os_map s) < osm_maxStreams (os_map s)" and p: "status_of p = Holding"
    and t: "os_pc t = (os_pc s)(g := p)" "osm_numStreams (os_map t) = osm_numStreams (os_map s) + 1"
      "osm_maxStreams (os_map t) = osm_maxStreams (os_map s)" "osm_closeErr (os_map t) = None"
      "osm_openQueue (os_map t) = q"
  shows "sem_follows a t"
proof -
  note R = rel [unfolded sem_rel_def]
  have "map Some (c # q) = map (\<lambda>g. chan_of (os_pc s g)) (sem_queue a)" using R Q by simp
  then obtain h G where G: "sem_queue a = h # G" "chan_of (os_pc s h) = Some c"
      "map Some q = map (\<lambda>g. chan_of (os_pc s g)) G" by (cases "sem_queue a") auto
  have "h = g" using chans_okD(10) [OF ok G(2) c] .
  have dist: "c \<notin> set q" using chans_okD(3) [OF ok] Q by simp
  have "g \<notin> set G"
  proof
    assume "g \<in> set G"
    then have "Some c \<in> set (map (\<lambda>g. chan_of (os_pc s g)) G)" using c by (metis image_eqI list.set_map)
    with G(3) dist show False by (metis (no_types, lifting) imageE list.set_map option.inject)
  qed
  then have "map Some q = map (\<lambda>h. chan_of (os_pc t h)) G" unfolding G(3) t(1) by (intro map_cong) auto
  moreover have "unat (osm_numStreams (os_map s) + 1) = Suc (unat (osm_numStreams (os_map s)))"
    by (rule unat_add_1_less [OF lt])
  ultimately have "sem_rel t (a\<lparr>sem_used := Suc (sem_used a), sem_queue := G, sem_status := (sem_status a)(g := Holding)\<rparr>)"
    using R n by (simp add: sem_rel_def t fun_eq_iff p)
  moreover have "sem_queue a = g # G" "\<not> sem_closed a" "sem_used a < sem_limit a"
    using G(1) \<open>h = g\<close> R n lt by (simp_all add: word_less_nat_alt)
  ultimately show ?thesis using sem_grant sem_follows_step by metis
qed

text \<open>A goroutine that does not wait changes its status, and the map as the semaphore says.\<close>

lemma sim_idle:
  assumes rel: "sem_rel s a" and c: "chan_of (os_pc s g) = None" and p: "chan_of p = None"
    and t: "os_pc t = (os_pc s)(g := p)" "osm_maxStreams (os_map t) = osm_maxStreams (os_map s)"
      "osm_closeErr (os_map t) = osm_closeErr (os_map s)" "osm_openQueue (os_map t) = osm_openQueue (os_map s)"
    and step: "a\<lparr>sem_used := unat (osm_numStreams (os_map t)), sem_status := (sem_status a)(g := status_of p)\<rparr> = a
      \<or> sem_step a (a\<lparr>sem_used := unat (osm_numStreams (os_map t)), sem_status := (sem_status a)(g := status_of p)\<rparr>)"
  shows "sem_follows a t"
proof -
  note R = rel [unfolded sem_rel_def]
  have "map Some (osm_openQueue (os_map t)) = map (\<lambda>h. chan_of (os_pc t h)) (sem_queue a)"
    unfolding t(1,4) using R c by (intro queue_frame) simp_all
  then have "sem_rel t (a\<lparr>sem_used := unat (osm_numStreams (os_map t)), sem_status := (sem_status a)(g := status_of p)\<rparr>)"
    using R by (simp add: sem_rel_def t(1-3) fun_eq_iff)
  with step show ?thesis unfolding sem_follows_def by metis
qed

lemma sem_status_same:
  assumes "sem_status a g = x"
  shows "a\<lparr>sem_used := n, sem_status := (sem_status a)(g := x)\<rparr> = a\<lparr>sem_used := n\<rparr>"
    "a\<lparr>sem_status := (sem_status a)(g := x)\<rparr> = a"
proof -
  have "(sem_status a)(g := x) = sem_status a" using assms by auto
  then show "a\<lparr>sem_used := n, sem_status := (sem_status a)(g := x)\<rparr> = a\<lparr>sem_used := n\<rparr>"
    "a\<lparr>sem_status := (sem_status a)(g := x)\<rparr> = a" by simp_all
qed

lemma sem_eta: "sem_used a = n \<Longrightarrow> sem_status a g = x \<Longrightarrow> a\<lparr>sem_used := n, sem_status := (sem_status a)(g := x)\<rparr> = a"
  by auto

lemma sim_open:
  assumes rel: "sem_rel s a" and g: "os_pc s g = PReady r" and o: "OpenStream opened (os_map s) = ((res, b), m)"
    and t: "os_map t = m" "os_pc t = (os_pc s)(g := case b of Some l \<Rightarrow> PReport l | None \<Rightarrow> PReady (Some res))"
  shows "sem_follows a t"
proof -
  let ?p = "case b of Some l \<Rightarrow> PReport l | None \<Rightarrow> PReady (Some res)"
  note R = rel [unfolded sem_rel_def]
  have f: "osm_closeErr m = osm_closeErr (os_map s)" "osm_maxStreams m = osm_maxStreams (os_map s)"
    "osm_openQueue m = osm_openQueue (os_map s)"
    "osm_numStreams m = osm_numStreams (os_map s)
     \<or> osm_closeErr (os_map s) = None \<and> osm_openQueue (os_map s) = []
       \<and> osm_numStreams (os_map s) < osm_maxStreams (os_map s) \<and> osm_numStreams m = osm_numStreams (os_map s) + 1"
    using o by (auto simp: OpenStream_def out_putStream_def Let_def split: option.splits if_splits sum.splits)
  have p: "chan_of ?p = None" "status_of ?p = Idle" by (simp_all split: option.split)
  have idle: "sem_status a g = Idle" using R g by simp
  let ?b = "a\<lparr>sem_used := unat (osm_numStreams m), sem_status := (sem_status a)(g := Idle)\<rparr>"
  have "?b = a \<or> sem_step a ?b"
  proof (cases "osm_numStreams m = osm_numStreams (os_map s)")
    case True
    then have "?b = a" using R idle by (intro sem_eta) simp_all
    then show ?thesis ..
  next
    case False
    with f(4) have "\<not> sem_closed a" "sem_queue a = []" "sem_used a < sem_limit a" "unat (osm_numStreams m) = Suc (sem_used a)"
      using R unat_add_1_less [of "osm_numStreams (os_map s)"] by (auto simp: word_less_nat_alt)
    then have "sem_step a (a\<lparr>sem_used := unat (osm_numStreams m)\<rparr>)" using sem_try by simp
    moreover have "a\<lparr>sem_used := unat (osm_numStreams m)\<rparr> = ?b" using sem_status_same [OF idle] by simp
    ultimately show ?thesis by simp
  qed
  then show ?thesis
    using f g p by (intro sim_idle [OF rel _ p(1) t(2)]) (simp_all add: t(1))
qed

lemma sim_enter:
  assumes rel: "sem_rel s a" and g: "os_pc s g = PReady r" and e: "openSync_enter ctx (os_map s) = (w, m1)"
    and nx: "sync_next rands g (w, m1) = Some (p, m)" and t: "os_map t = m" "os_pc t = (os_pc s)(g := p)"
  shows "sem_follows a t"
proof -
  note R = rel [unfolded sem_rel_def] and n = sync_next_Some [OF nx]
  obtain cs where m: "m = m1\<lparr>osm_streamCtxs := cs\<rparr>" using n(6) by blast
  have idle: "sem_status a g = Idle" using R g by simp
  from e show ?thesis
  proof (cases rule: openSync_enter_cases)
    case err
    with n have "chan_of p = None" "status_of p = Idle" by (simp_all add: status_of_def)
    moreover have "a\<lparr>sem_used := unat (osm_numStreams m), sem_status := (sem_status a)(g := Idle)\<rparr> = a"
      using R idle err m by (intro sem_eta) simp_all
    ultimately show ?thesis
      using g err m by (intro sim_idle [OF rel _ _ t(2)]) (simp_all add: t(1))
  next
    case res
    with n have p: "chan_of p = None" "status_of p = Holding" by (simp_all add: status_of_def)
    have "unat (osm_numStreams m) = Suc (sem_used a)" using res(2,5) m R unat_add_1_less by simp
    moreover have "\<not> sem_closed a" "sem_queue a = []" "sem_used a < sem_limit a"
      using res R by (simp_all add: word_less_nat_alt)
    ultimately show ?thesis
      using R g idle res m p sem_acquire [of a g] by (intro sim_idle [OF rel _ p(1) t(2)]) (simp_all add: t(1))
  next
    case (que b f)
    let ?c = "osm_nextChan (os_map s)"
    have p: "chan_of p = Some ?c" "status_of p = Waiting" using que(1) n by (simp_all add: status_of_def)
    have "map Some (osm_openQueue (os_map s)) = map (\<lambda>h. chan_of (((os_pc s)(g := p)) h)) (sem_queue a)"
      using R g by (intro queue_frame) simp_all
    then have "sem_rel t (a\<lparr>sem_queue := sem_queue a @ [g], sem_status := (sem_status a)(g := Waiting)\<rparr>)"
      using R p by (simp add: sem_rel_def t m que(2,3) fun_eq_iff)
    moreover have "\<not> sem_closed a" "sem_queue a \<noteq> [] \<or> sem_limit a \<le> sem_used a"
      using que(3,4) R by (auto simp: word_le_nat_alt)
    ultimately show ?thesis using idle by (blast intro: sem_follows_step sem_wait)
  qed
qed

lemma sim_woken:
  assumes rel: "sem_rel s a" and inv: "os_inv s" and g: "os_pc s g = PWoken c"
    and e: "openSync_woken ctx c (os_map s) = (w, m1)"
    and nx: "sync_next rands g (w, m1) = Some (p, m)" and t: "os_map t = m" "os_pc t = (os_pc s)(g := p)"
  shows "sem_follows a t"
proof -
  note n = sync_next_Some [OF nx]
  obtain cs where m: "m = m1\<lparr>osm_streamCtxs := cs\<rparr>" using n(6) by blast
  have ok: "chans_ok (os_map s) (os_pc s)" "wake_ok (os_map s) (os_pc s)" using inv by (simp_all add: os_inv_def)
  have c: "chan_of (os_pc s g) = Some c" "\<not> holds_stream (os_pc s g)" using g by simp_all
  show ?thesis
  proof (cases "osm_closeErr (os_map s) = None \<and> ctx = None")
    case True
    obtain q where Q: "osm_openQueue (os_map s) = c # q" "osm_numStreams (os_map s) < osm_maxStreams (os_map s)"
      using woken_head [OF ok g] True by blast
    with True e have w: "reserves w" "osm_numStreams m1 = osm_numStreams (os_map s) + 1" "osm_openQueue m1 = q"
      "osm_maxStreams m1 = osm_maxStreams (os_map s)" "osm_closeErr m1 = None"
      by (auto simp: openSync_woken_def Let_def split: if_splits)
    with n(3) have "status_of p = Holding" by (simp add: status_of_def)
    with w True Q show ?thesis by (intro sim_grant [OF rel ok(1) c(1) _ Q _ t(2)]) (simp_all add: t(1) m)
  next
    case False
    have "osm_closeErr (os_map s) \<noteq> None \<Longrightarrow> osm_openQueue (os_map s) = []" using chans_okD(2) [OF ok(1)] by simp
    with False e have w: "(\<exists>e. w = WaitErr e)" "osm_numStreams m1 = osm_numStreams (os_map s)"
      "osm_openQueue m1 = filter (\<lambda>d. d \<noteq> c) (osm_openQueue (os_map s))"
      "osm_maxStreams m1 = osm_maxStreams (os_map s)" "osm_closeErr m1 = osm_closeErr (os_map s)"
      by (auto simp: openSync_woken_def openSync_cancelled_def split: option.splits)
    with n(1,3) have "status_of p = Idle" by (auto simp: status_of_def)
    with w show ?thesis by (intro sim_leave [OF rel ok(1) c _ t(2)]) (simp_all add: t(1) m)
  qed
qed

lemma sim_holder:
  assumes rel: "sem_rel s a" and inv: "os_inv s" and g: "holds_stream (os_pc s g)" "chan_of (os_pc s g) = None"
    and t: "os_pc t = (os_pc s)(g := p)" "osm_maxStreams (os_map t) = osm_maxStreams (os_map s)"
      "osm_closeErr (os_map t) = osm_closeErr (os_map s)" "osm_openQueue (os_map t) = osm_openQueue (os_map s)"
    and p: "chan_of p = None"
    and n: "if is_closed (os_map s) then status_of p = Idle \<and> osm_numStreams (os_map t) = osm_numStreams (os_map s)
      else osm_numStreams (os_map t) = osm_numStreams (os_map s) - 1 \<and> status_of p = Idle
        \<or> osm_numStreams (os_map t) = osm_numStreams (os_map s)"
  shows "sem_follows a t"
proof -
  note R = rel [unfolded sem_rel_def]
  have holding: "sem_status a g = Holding" using R g by (simp add: status_of_def)
  let ?b = "a\<lparr>sem_used := unat (osm_numStreams (os_map t)), sem_status := (sem_status a)(g := status_of p)\<rparr>"
  have st: "status_of p = Idle \<or> status_of p = Holding" using p by (simp add: status_of_def)
  have "?b = a \<or> sem_step a ?b"
  proof (cases "osm_numStreams (os_map t) = osm_numStreams (os_map s)")
    case True
    then have eq: "?b = a\<lparr>sem_status := (sem_status a)(g := status_of p)\<rparr>" using R by simp
    show ?thesis
    proof (cases "status_of p = Idle")
      case idle: True
      have "sem_step a (a\<lparr>sem_status := (sem_status a)(g := Idle)\<rparr>)"
        using holding sem_keep [of a g] sem_turned_away [of a g] by (cases "sem_closed a") simp_all
      then show ?thesis unfolding eq by (simp add: idle)
    next
      case False
      with st have "status_of p = Holding" by simp
      with holding sem_status_same(2) [of a g Holding] show ?thesis unfolding eq by simp
    qed
  next
    case False
    with n have o: "\<not> is_closed (os_map s)" and d: "osm_numStreams (os_map t) = osm_numStreams (os_map s) - 1" "status_of p = Idle"
      by (auto split: if_splits)
    have "finite {h. holds_stream (os_pc s h)}" "unat (osm_numStreams (os_map s)) = os_opened s + card {h. holds_stream (os_pc s h)}"
      using inv o by (simp_all add: os_inv_def count_ok_def)
    moreover from this(1) g(1) have "0 < card {h. holds_stream (os_pc s h)}" by (auto simp: card_gt_0_iff)
    ultimately have pos: "0 < osm_numStreams (os_map s)" by (simp add: word_less_nat_alt)
    then have "0 < sem_used a" "unat (osm_numStreams (os_map t)) = sem_used a - 1"
      using R d(1) by (simp_all add: unat_sub_1_pos word_less_nat_alt)
    with o R holding d(2) show ?thesis using sem_release [of a g] by simp
  qed
  then show ?thesis by (rule sim_idle [OF rel g(2) p t])
qed

lemma os_sim_step:
  assumes "os_step s t" "os_inv s" "sem_rel s a"
  shows "sem_follows a t"
  using assms
proof (induction rule: os_step.induct)
  case (step_open s g r opened res b m)
  show ?case by (rule sim_open [OF step_open(4,1,2)]) simp_all
next
  case (step_enter s g r rands ctx p m)
  obtain w m1 where e: "openSync_enter ctx (os_map s) = (w, m1)" by (cases "openSync_enter ctx (os_map s)")
  show ?case by (rule sim_enter [OF step_enter(4,1) e step_enter(2) [unfolded e]]) simp_all
next
  case (step_relock s g c rands p m)
  have ok: "chans_ok (os_map s) (os_pc s)" using step_relock by (simp add: os_inv_def)
  show ?case
  proof (cases "osm_closeErr (os_map s)")
    case None
    with step_relock have "p = PSelect c" "m = os_map s" by (auto simp: relock_result_def sync_next_def)
    with step_relock show ?thesis by (intro sem_follows_stutter sem_stutter [OF step_relock(4)]) simp_all
  next
    case (Some e)
    with step_relock have "p = PReady (Some (Inl e))" "m = os_map s" by (auto simp: relock_result_def sync_next_def)
    with step_relock Some chans_okD(2) [OF ok] show ?thesis
      by (intro sim_leave [OF step_relock(4) ok, of g c p]) simp_all
  qed
next
  case (step_cancelled s g c e)
  then show ?case
    by (intro sim_leave [of s a g c "PReady (Some (Inl e))"]) (simp_all add: os_inv_def openSync_cancelled_def)
next
  case (step_woken s g c rands p m)
  obtain w m1 where e: "openSync_woken (os_ctx s g) c (os_map s) = (w, m1)"
    by (cases "openSync_woken (os_ctx s g) c (os_map s)")
  show ?case by (rule sim_woken [OF step_woken(4,3,1) e step_woken(2) [unfolded e]]) simp_all
next
  case (step_relock2 s g rands p m)
  obtain w where w: "relock_result Reserved (os_map s) = (w, os_map s)" "w = Reserved \<and> \<not> is_closed (os_map s) \<or> is_closed (os_map s) \<and> (\<exists>e. w = WaitErr e)"
    by (auto simp: relock_result_def split: option.split)
  note n = sync_next_Some [OF step_relock2(2) [unfolded w(1)]]
  obtain cs where "m = (os_map s)\<lparr>osm_streamCtxs := cs\<rparr>" using n(6) by blast
  with step_relock2 w n show ?case
    by (intro sim_holder [OF step_relock2(4,3), where g = g and p = p]) (auto simp: status_of_def)
next
  case (step_finish s g i opened res cl m)
  have f: "osm_closeErr m = osm_closeErr (os_map s)" "osm_maxStreams m = osm_maxStreams (os_map s)"
    "osm_openQueue m = osm_openQueue (os_map s)"
    "if is_closed (os_map s) then osm_numStreams m = osm_numStreams (os_map s)
     else osm_numStreams m = osm_numStreams (os_map s) - 1 \<or> osm_numStreams m = osm_numStreams (os_map s)"
    using step_finish(2) by (auto simp: openSync_finish_def out_putStream_def Let_def split: sum.splits option.splits)
  with step_finish show ?case
    by (intro sim_holder [OF step_finish(4,3), where g = g and p = "PReady (Some res)"]) simp_all
next
  case (step_update l s e m)
  note R = step_update(3) [unfolded sem_rel_def]
  have "m = os_map s \<or> osm_closeErr (os_map s) = None \<and> osm_closeErr m = None \<and> osm_maxStreams (os_map s) < osm_maxStreams m
      \<and> osm_numStreams m = osm_numStreams (os_map s) \<and> osm_openQueue m = osm_openQueue (os_map s)"
    using step_update(1) by (simp add: UpdateStreamLimit_def split: option.splits if_splits) auto
  then show ?case
  proof
    assume "m = os_map s"
    with step_update show ?thesis by (intro sem_follows_stutter) simp
  next
    assume m: "osm_closeErr (os_map s) = None \<and> osm_closeErr m = None \<and> osm_maxStreams (os_map s) < osm_maxStreams m
      \<and> osm_numStreams m = osm_numStreams (os_map s) \<and> osm_openQueue m = osm_openQueue (os_map s)"
    then have "sem_rel (s\<lparr>os_map := m\<rparr>) (a\<lparr>sem_limit := unat (osm_maxStreams m)\<rparr>)" using R by (simp add: sem_rel_def)
    moreover have "\<not> sem_closed a" "sem_limit a < unat (osm_maxStreams m)" using R m by (simp_all add: word_less_nat_alt)
    ultimately show ?thesis by (blast intro: sem_follows_step sem_raise)
  qed
next
  case (step_close e s gs cl m)
  note R = step_close(3) [unfolded sem_rel_def]
  show ?case
  proof (cases "osm_closeErr (os_map s)")
    case (Some x)
    with step_close show ?thesis
      by (intro sem_follows_stutter sem_stutter [OF step_close(3)]) (simp_all add: out_CloseSession_def)
  next
    case None
    with step_close(1) have "osm_numStreams m = osm_numStreams (os_map s)" "osm_maxStreams m = osm_maxStreams (os_map s)"
      "is_closed m" "osm_openQueue m = []" by (auto simp: out_CloseSession_def)
    with R have "sem_rel (s\<lparr>os_map := m, os_cancel := (\<lambda>g. os_cancel s g \<or> g \<in> set gs)\<rparr>) (a\<lparr>sem_closed := True, sem_queue := []\<rparr>)"
      by (simp add: sem_rel_def)
    moreover have "\<not> sem_closed a" using R None by simp
    ultimately show ?thesis by (blast intro: sem_follows_step sem_close)
  qed
qed (auto intro!: sem_follows_stutter elim!: sem_stutter simp: take_token_def out_removeStream_def)

interpretation open_sim: simulation "os_start n" os_step "sem_start (unat n)" sem_step sem_rel
  for n
proof
  show "\<exists>a. sem_start (unat n) a \<and> sem_rel s a" if "os_start n s" for s :: "'t os_state"
    using sem_rel_start [OF that] by (auto simp: sem_start_def)
  show "\<exists>b. (b = a \<or> sem_step a b) \<and> sem_rel t b" if "reach (os_start n) os_step s" "sem_rel s a" "os_step s t"
    for s t :: "'t os_state" and a
    using os_sim_step [OF that(3) os_inv_reach [OF that(1)] that(2)] by (simp add: sem_follows_def)
qed

section \<open>What the semaphore guarantees\<close>

text \<open>
  Never more units are used than the limit allows; the queue holds exactly the waiting goroutines, each
  once; a closed semaphore has no queue.
\<close>

definition sem_inv :: "sem_state \<Rightarrow> bool" where
  "sem_inv a \<longleftrightarrow> sem_used a \<le> sem_limit a \<and> distinct (sem_queue a)
     \<and> (if sem_closed a then sem_queue a = [] else set (sem_queue a) = {g. sem_status a g = Waiting})"

lemma sem_inv_step: "sem_step a b \<Longrightarrow> sem_inv a \<Longrightarrow> sem_inv b"
  by (induction rule: sem_step.induct) (auto simp: sem_inv_def)

lemma sem_inv_reach: "reach (sem_start n) sem_step a \<Longrightarrow> sem_inv a"
  by (erule reach_invariant) (simp add: sem_start_def sem_inv_def, blast intro: sem_inv_step)

text \<open>
  C12. \<open>OpenStream\<close> and \<open>OpenStreamSync\<close> implement a first-come-first-served semaphore. For every run of any
  number of goroutines, with limit updates, cancelled calls, refusals by QUIC and the closing of the
  session at any point, there is a run of the semaphore in a corresponding state: as many units in
  use as streams are counted, the same limit, the waiting goroutines in the order of their channels;
  and each next step of the goroutines is one step of the semaphore or leaves it unchanged. So a
  goroutine that waits is served before everyone who came later, and nobody passes the queue.
\<close>

theorem open_sync_refines_semaphore:
  assumes "reach (os_start n) os_step s"
  shows "\<exists>a. reach (sem_start (unat n)) sem_step a \<and> sem_rel s a
    \<and> (\<forall>t. os_step s t \<longrightarrow> (\<exists>b. (b = a \<or> sem_step a b) \<and> sem_rel t b))
    \<and> (\<not> sem_closed a \<longrightarrow> distinct (sem_queue a) \<and> set (sem_queue a) = {g. chan_of (os_pc s g) \<noteq> None \<and> \<not> holds_stream (os_pc s g)})"
proof -
  obtain a where a: "reach (sem_start (unat n)) sem_step a" "sem_rel s a" using open_sim.sim_reach [OF assms] by blast
  have "sem_status a g = Waiting \<longleftrightarrow> chan_of (os_pc s g) \<noteq> None \<and> \<not> holds_stream (os_pc s g)" for g
    using sem_relD(4) [OF a(2)] by (simp add: status_of_def)
  with sem_inv_reach [OF a(1)] have "\<not> sem_closed a \<longrightarrow> distinct (sem_queue a)
      \<and> set (sem_queue a) = {g. chan_of (os_pc s g) \<noteq> None \<and> \<not> holds_stream (os_pc s g)}" by (simp add: sem_inv_def)
  with a open_sim.sim_step [OF assms a(2)] show ?thesis by blast
qed

text \<open>The goroutine of the example waits, first in the queue.\<close>

theorem open_sync_refines_semaphore_witness:
  "\<exists>a. reach (sem_start 1) sem_step a \<and> sem_rel os_ex5 a \<and> sem_queue a = [1] \<and> sem_used a = 1 \<and> sem_limit a = 2"
proof -
  obtain a where a: "reach (sem_start 1) sem_step a" "sem_rel os_ex5 a"
    "\<not> sem_closed a \<longrightarrow> distinct (sem_queue a) \<and> set (sem_queue a) = {g. chan_of (os_pc os_ex5 g) \<noteq> None \<and> \<not> holds_stream (os_pc os_ex5 g)}"
    using open_sync_refines_semaphore [OF os_ex5_reach] by auto
  have m: "osm_numStreams (os_map os_ex5) = 1" "osm_maxStreams (os_map os_ex5) = 2" "osm_closeErr (os_map os_ex5) = None"
      "osm_openQueue (os_map os_ex5) = [0]" by (simp_all add: os_ex_defs)
  have r: "sem_used a = 1" "sem_limit a = 2" "\<not> sem_closed a"
      "[Some 0] = map (\<lambda>g. chan_of (os_pc os_ex5 g)) (sem_queue a)"
    using a(2) by (simp_all add: sem_rel_def m)
  moreover have "1 \<in> set (sem_queue a)" using a(3) r(3) by (simp add: os_ex_defs)
  ultimately have "sem_queue a = [1]" by (cases "sem_queue a") auto
  with a(1,2) r show ?thesis by blast
qed

end
