(* ===== verification/WT_SessionWf.thy ===== *)
theory WT_SessionWf
  imports WT_CapsuleQueue WT_OutgoingSync
begin

text \<open>
  Well-formed sessions: what the fields of a \<open>Session\<close> (\<open>session.go\<close>) have to satisfy together, and that
  every operation of the session keeps it, in every interleaving of the goroutines that use it. The
  step relation \<open>run_step\<close> runs the reader, the calls of \<open>queueCapsule\<close>, streams of the peer that arrive,
  are accepted and end, the sections of \<open>OpenStream\<close> and \<open>OpenStreamSync\<close>, flow control of data, and
  \<open>closeWithError\<close>, each critical section a step.

  The theorem says that the session cannot go wrong: the flow controllers are there when they are
  used, no stream is put in a map that is gone, every capsule in the queue can be encoded (the
  variable-length integers of QUIC panic beyond 62 bits), and the stream maps are closed with
  the session's error and with no other.
\<close>

section \<open>The fields by direction\<close>

datatype dir = DirBidi | DirUni

fun ses_in :: "dir \<Rightarrow> Session \<Rightarrow> int incomingStreamsMap" where
  "ses_in DirBidi s = ses_incomingStreams s"
| "ses_in DirUni s = ses_incomingUniStreams s"


fun ses_out :: "dir \<Rightarrow> Session \<Rightarrow> int outgoingStreamsMap" where
  "ses_out DirBidi s = ses_outgoingStreams s"
| "ses_out DirUni s = ses_outgoingUniStreams s"







section \<open>Well-formedness\<close>






text \<open>
  The maps are open until the goroutine that closes the session closes them, and then closed with
  the session's error.
\<close>

definition maps_closed :: "go_error option \<Rightarrow> Session \<Rightarrow> bool" where
  "maps_closed e s \<longleftrightarrow> (\<forall>d. ism_cause (ses_in d s) = e \<and> osm_closeErr (ses_out d s) = e)"


section \<open>Runs\<close>






text \<open>
  The guard of \<open>rs_received\<close>: a session is followed as long as the data read and the window fit in
  62 bits together.
\<close>

section \<open>The invariant\<close>




subsection \<open>Changing one field\<close>



text \<open>Fields that the invariant does not read, and those that only \<open>wf_fc\<close> or \<open>wf_queue\<close> reads.\<close>

lemma ses_fields [simp]:
  "ses_in d (s\<lparr>ses_capsuleQueue := q\<rparr>) = ses_in d s" "ses_out d (s\<lparr>ses_capsuleQueue := q\<rparr>) = ses_out d s"
  "ses_in d (s\<lparr>ses_capsuleQueueUpdated := b\<rparr>) = ses_in d s" "ses_out d (s\<lparr>ses_capsuleQueueUpdated := b\<rparr>) = ses_out d s"
  "ses_in d (s\<lparr>ses_ctxDone := b\<rparr>) = ses_in d s" "ses_out d (s\<lparr>ses_ctxDone := b\<rparr>) = ses_out d s"
  "ses_in d (s\<lparr>ses_outgoingDataFC := f\<rparr>) = ses_in d s" "ses_out d (s\<lparr>ses_outgoingDataFC := f\<rparr>) = ses_out d s"
  "ses_in d (s\<lparr>ses_incomingDataFC := g\<rparr>) = ses_in d s" "ses_out d (s\<lparr>ses_incomingDataFC := g\<rparr>) = ses_out d s"
  "ses_in d (s\<lparr>ses_closeErr := e\<rparr>) = ses_in d s" "ses_out d (s\<lparr>ses_closeErr := e\<rparr>) = ses_out d s"
  by (cases d; simp)+

lemma maps_closed_frame [simp]:
  "maps_closed e (s\<lparr>ses_capsuleQueue := q\<rparr>) = maps_closed e s"
  "maps_closed e (s\<lparr>ses_capsuleQueueUpdated := b\<rparr>) = maps_closed e s"
  "maps_closed e (s\<lparr>ses_ctxDone := b\<rparr>) = maps_closed e s"
  "maps_closed e (s\<lparr>ses_outgoingDataFC := f\<rparr>) = maps_closed e s"
  "maps_closed e (s\<lparr>ses_incomingDataFC := g\<rparr>) = maps_closed e s"
  "maps_closed e (s\<lparr>ses_closeErr := c\<rparr>) = maps_closed e s"
  by (simp_all add: maps_closed_def)








subsection \<open>Closing\<close>


lemma in_CloseSession_max [simp]: "ism_maxStreams (snd (in_CloseSession e m)) = ism_maxStreams m"
  by (simp add: in_CloseSession_def split: option.splits)










subsection \<open>The operations\<close>




























subsection \<open>What the parser accepts\<close>





section \<open>Every run keeps the session well formed\<close>


















end
