(* ===== verification/WT_Serve.thy ===== *)
theory WT_Serve
  imports WT_Server
begin

text \<open>
  Running and stopping a server (\<open>Serve\<close>, \<open>ListenAndServe\<close>, \<open>ListenAndServeTLS\<close>, \<open>serve\<close>, the rest of
  \<open>ServeQUICConn\<close>, and \<open>Close\<close> of \<open>server.go\<close>). First the entry points one after the other; then all
  goroutines of a server together: any number of listeners, one goroutine for each connection, its two
  accept loops and its streams, and \<open>Close\<close>, whose sections interleave with all of them. The wait group
  \<open>refCount\<close> is a counter; the theorem is that it counts exactly the goroutines that run, and that
  when \<open>Close\<close> returns, every connection that was ever accepted is closed.
\<close>

section \<open>Entry points\<close>

text \<open>
  The fields of \<open>http3.Server\<close> that listening uses, and what it does to the wait group and the socket.
\<close>

record 'k tls_Config =
  tls_Certificates :: "'k list"

record 'k listen_config =
  lc_Addr :: string
  lc_TLSConfig :: "'k tls_Config option"     \<comment> \<open>\<open>None\<close>: nil\<close>
  lc_QUICConfig :: "quic_Config option"

datatype 'a listen_effect =
    RefAdd
  | RefDone
  | SocketOpen 'a
  | SocketClose

text \<open>
  The results of \<open>Accept\<close> on the listener are \<open>accepted\<close>. \<open>None\<close> as the error of \<open>serve_loop\<close> means that it
  still waits: the deferred calls have not run.
\<close>

definition Serve ::
  "(quic_Config \<Rightarrow> go_error option) \<Rightarrow> (go_error + 'c \<times> bool) list \<Rightarrow> 'k listen_config \<Rightarrow> ('c, 'b, 'u, 's) Server
     \<Rightarrow> ((go_error option \<times> 'c list \<times> 'c list) \<times> 'a listen_effect list) \<times> ('c, 'b, 'u, 's) Server" where
  "Serve listen accepted lc s =
     (let s' = server_initialize s;
          r = serve listen (lc_QUICConfig lc) accepted
      in ((r, RefAdd # (if fst r = None then [] else [RefDone])), s'))"

text \<open>\<open>resolve\<close> is \<open>net.ResolveUDPAddr\<close>, \<open>listenUDP\<close> is \<open>net.ListenUDP\<close>.\<close>

definition ListenAndServe ::
  "(string \<Rightarrow> go_error + 'a) \<Rightarrow> ('a \<Rightarrow> go_error option) \<Rightarrow> (quic_Config \<Rightarrow> go_error option)
     \<Rightarrow> (go_error + 'c \<times> bool) list \<Rightarrow> 'k listen_config \<Rightarrow> ('c, 'b, 'u, 's) Server
     \<Rightarrow> ((go_error option \<times> 'c list \<times> 'c list) \<times> 'a listen_effect list) \<times> ('c, 'b, 'u, 's) Server" where
  "ListenAndServe resolve listenUDP listen accepted lc s =
     (let s' = server_initialize s;
          addr = (if lc_Addr lc = '''' then '':https'' else lc_Addr lc)
      in case resolve addr of
           Inl err \<Rightarrow> (((Some err, [], []), [RefAdd, RefDone]), s')
         | Inr udpAddr \<Rightarrow>
             (case listenUDP udpAddr of
                Some err \<Rightarrow> (((Some err, [], []), [RefAdd, RefDone]), s')
              | None \<Rightarrow>
                  let r = serve listen (lc_QUICConfig lc) accepted
                  in ((r, [RefAdd, SocketOpen udpAddr] @ (if fst r = None then [] else [SocketClose, RefDone])), s')))"

text \<open>\<open>load\<close> is the result of \<open>tls.LoadX509KeyPair\<close>; before it succeeds the server is not touched.\<close>

definition ListenAndServeTLS ::
  "(go_error + 'k) \<Rightarrow> (string \<Rightarrow> go_error + 'a) \<Rightarrow> ('a \<Rightarrow> go_error option) \<Rightarrow> (quic_Config \<Rightarrow> go_error option)
     \<Rightarrow> (go_error + 'c \<times> bool) list \<Rightarrow> 'k listen_config \<Rightarrow> ('c, 'b, 'u, 's) Server
     \<Rightarrow> ((go_error option \<times> 'c list \<times> 'c list) \<times> 'a listen_effect list) \<times> 'k listen_config \<times> ('c, 'b, 'u, 's) Server" where
  "ListenAndServeTLS load resolve listenUDP listen accepted lc s =
     (case load of
        Inl err \<Rightarrow> (((Some err, [], []), []), lc, s)
      | Inr cert \<Rightarrow>
          let tls = (case lc_TLSConfig lc of None \<Rightarrow> \<lparr>tls_Certificates = []\<rparr> | Some t \<Rightarrow> t);
              lc' = lc\<lparr>lc_TLSConfig := Some (tls\<lparr>tls_Certificates := [cert]\<rparr>)\<rparr>;
              (r, s') = ListenAndServe resolve listenUDP listen accepted lc' s
          in (r, lc', s'))"

lemma ListenAndServe_balanced:
  assumes "ListenAndServe resolve listenUDP listen accepted lc s = ((r, es), s')" "fst r \<noteq> None"
  shows "length (filter (\<lambda>e. e = RefAdd) es) = length (filter (\<lambda>e. e = RefDone) es)
    \<and> (\<forall>a. SocketOpen a \<in> set es \<longrightarrow> SocketClose \<in> set es)"
  using assms by (auto simp: ListenAndServe_def Let_def split: sum.splits option.splits if_splits)

section \<open>All goroutines of a server\<close>

text \<open>Where the goroutine of a connection is.\<close>

datatype conn_pc =
    CpAccepted                    \<comment> \<open>returned by \<open>Accept\<close>; the listener is about to call \<open>isClosed\<close>\<close>
  | CpStart                       \<comment> \<open>its goroutine runs, before the section of \<open>ServeQUICConn\<close> under \<open>connsMx\<close>\<close>
  | CpRegistered                  \<comment> \<open>before \<open>NewRawServerConn\<close>\<close>
  | CpServing nat nat             \<comment> \<open>accept loops and goroutines of streams that run\<close>
  | CpDone

datatype close_pc = CloseNotCalled | CloseCancel | CloseWait | CloseReturned

text \<open>
  \<open>sv_idle\<close>: listeners in \<open>Accept\<close>. \<open>sv_closed\<close>: connections that were closed, by this server
  or by the peer; their context is done.
\<close>

record ('c, 'b, 'u) serve_state =
  sv_srv :: "('c, 'b, 'u, Session) Server"
  sv_idle :: nat
  sv_refCount :: nat
  sv_conn :: "'c \<Rightarrow> conn_pc option"
  sv_closed :: "'c set"
  sv_close :: close_pc

text \<open>The section of \<open>Close\<close> under \<open>connsMx\<close>: it closes the connections it finds.\<close>

definition Close_mx :: "('c, 'b, 'u, 's) Server \<Rightarrow> 'c set \<times> ('c, 'b, 'u, 's) Server" where
  "Close_mx s0 =
     (let s = server_initialize s0
      in (case srv_conns s of None \<Rightarrow> {} | Some conns \<Rightarrow> dom conns, s\<lparr>srv_closed := True, srv_conns := None\<rparr>))"

lemma server_Close_sections:
  "snd (server_Close h3err s) = (snd (Close_mx s))\<lparr>srv_ctxDone := True\<rparr>"
  "dom (snd (fst (server_Close h3err s))) = fst (Close_mx s)"
  by (auto simp: server_Close_def Close_mx_def Let_def split: option.splits)

text \<open>The connections that effects close.\<close>

definition closed_by :: "('c, 'b, 'u, 's) srv_effect list \<Rightarrow> 'c set" where
  "closed_by es = {c. CloseConn c \<in> set es}"

abbreviation set_conn :: "'c \<Rightarrow> conn_pc \<Rightarrow> ('c, 'b, 'u) serve_state \<Rightarrow> ('c, 'b, 'u) serve_state" where
  "set_conn c p x \<equiv> x\<lparr>sv_conn := (sv_conn x)(c \<mapsto> p)\<rparr>"

inductive serve_step :: "('c, 'b, 'u) serve_state \<Rightarrow> ('c, 'b, 'u) serve_state \<Rightarrow> bool" where
  sv_listen: "serve_step x (x\<lparr>sv_srv := server_initialize (sv_srv x), sv_idle := Suc (sv_idle x),
    sv_refCount := Suc (sv_refCount x)\<rparr>)"
| sv_accept: "0 < sv_idle x \<Longrightarrow> sv_conn x c = None \<Longrightarrow>
    serve_step x (set_conn c CpAccepted (x\<lparr>sv_idle := sv_idle x - 1\<rparr>))"
| sv_accept_error: "0 < sv_idle x \<Longrightarrow>
    serve_step x (x\<lparr>sv_idle := sv_idle x - 1, sv_refCount := sv_refCount x - 1\<rparr>)"
| sv_drop: "sv_conn x c = Some CpAccepted \<Longrightarrow> isClosed (sv_srv x) \<Longrightarrow>
    serve_step x (set_conn c CpDone (x\<lparr>sv_idle := Suc (sv_idle x), sv_closed := insert c (sv_closed x)\<rparr>))"
| sv_go: "sv_conn x c = Some CpAccepted \<Longrightarrow> \<not> isClosed (sv_srv x) \<Longrightarrow>
    serve_step x (set_conn c CpStart (x\<lparr>sv_idle := Suc (sv_idle x), sv_refCount := Suc (sv_refCount x)\<rparr>))"
| sv_serve: "sv_conn x c = Some CpStart \<Longrightarrow> cst_datagramsLocal st \<Longrightarrow> cst_partialDeliveryLocal st \<Longrightarrow>
    ServeQUICConn c st (sv_srv x) = ((None, es), s') \<Longrightarrow>
    serve_step x (set_conn c CpRegistered (x\<lparr>sv_srv := s', sv_closed := sv_closed x \<union> closed_by es\<rparr>))"
| sv_refuse: "sv_conn x c = Some CpStart \<Longrightarrow> cst_datagramsLocal st \<Longrightarrow> cst_partialDeliveryLocal st \<Longrightarrow>
    ServeQUICConn c st (sv_srv x) = ((Some e, es), s') \<Longrightarrow>
    serve_step x (set_conn c CpDone (x\<lparr>sv_srv := s', sv_closed := sv_closed x \<union> closed_by es,
      sv_refCount := sv_refCount x - 1\<rparr>))"
| sv_raw_error: "sv_conn x c = Some CpRegistered \<Longrightarrow>
    serve_step x (set_conn c CpDone (x\<lparr>sv_refCount := sv_refCount x - 1\<rparr>))"
| sv_raw: "sv_conn x c = Some CpRegistered \<Longrightarrow> serve_step x (set_conn c (CpServing 2 0) x)"
| sv_stream: "sv_conn x c = Some (CpServing l n) \<Longrightarrow> 0 < l \<Longrightarrow> serve_step x (set_conn c (CpServing l (Suc n)) x)"
| sv_stream_end: "sv_conn x c = Some (CpServing l (Suc n)) \<Longrightarrow> serve_step x (set_conn c (CpServing l n) x)"
| sv_loop_end: "sv_conn x c = Some (CpServing (Suc l) n) \<Longrightarrow> serve_step x (set_conn c (CpServing l n) x)"
| sv_wait: "sv_conn x c = Some (CpServing 0 0) \<Longrightarrow>
    serve_step x (set_conn c CpDone (x\<lparr>sv_refCount := sv_refCount x - 1\<rparr>))"
| sv_watch: "sv_conn x c = Some p \<Longrightarrow> p = CpServing l n \<or> p = CpDone \<Longrightarrow>
    server_watch c (c \<in> sv_closed x) (sv_srv x) = Some es \<Longrightarrow>
    serve_step x (x\<lparr>sv_closed := sv_closed x \<union> closed_by es\<rparr>)"
| sv_peer_close: "sv_conn x c \<noteq> None \<Longrightarrow> serve_step x (x\<lparr>sv_closed := insert c (sv_closed x)\<rparr>)"
| sv_connDone: "sv_conn x c \<noteq> None \<Longrightarrow> c \<in> sv_closed x \<Longrightarrow>
    serve_step x (x\<lparr>sv_srv := snd (server_connDone c (sv_srv x))\<rparr>)"
| sv_upgrade: "Upgrade sfv ext r (sv_srv x) = (res, s') \<Longrightarrow> serve_step x (x\<lparr>sv_srv := s'\<rparr>)"
| sv_manager: "srv_conns (sv_srv x) = Some conns \<Longrightarrow> conns c = Some mgr \<Longrightarrow>
    serve_step x (x\<lparr>sv_srv := (sv_srv x)\<lparr>srv_conns := Some (conns(c \<mapsto> mgr'))\<rparr>\<rparr>)"
| sv_close_mx: "sv_close x = CloseNotCalled \<Longrightarrow> Close_mx (sv_srv x) = (cs, s') \<Longrightarrow>
    serve_step x (x\<lparr>sv_srv := s', sv_closed := sv_closed x \<union> cs, sv_close := CloseCancel\<rparr>)"
| sv_close_cancel: "sv_close x = CloseCancel \<Longrightarrow>
    serve_step x (x\<lparr>sv_srv := (sv_srv x)\<lparr>srv_ctxDone := True\<rparr>, sv_close := CloseWait\<rparr>)"
| sv_close_return: "sv_close x = CloseWait \<Longrightarrow> sv_refCount x = 0 \<Longrightarrow>
    serve_step x (x\<lparr>sv_close := CloseReturned\<rparr>)"

definition serve_start :: "'c h3_Server option \<Rightarrow> Config option \<Rightarrow> string list \<Rightarrow> ('c, 'b, 'u) serve_state \<Rightarrow> bool" where
  "serve_start h3 cfg protocols x \<longleftrightarrow>
     x = \<lparr>sv_srv = newServer h3 cfg protocols, sv_idle = 0, sv_refCount = 0, sv_conn = (\<lambda>_. None),
          sv_closed = {}, sv_close = CloseNotCalled\<rparr>"

section \<open>The invariant\<close>

definition running :: "('c \<Rightarrow> conn_pc option) \<Rightarrow> 'c set" where
  "running cn = {c. cn c \<noteq> None \<and> cn c \<noteq> Some CpDone}"

definition registered :: "('c, 'b, 'u, 's) Server \<Rightarrow> 'c \<Rightarrow> bool" where
  "registered s c \<longleftrightarrow> (\<exists>conns. srv_conns s = Some conns \<and> conns c \<noteq> None)"

text \<open>After \<open>init\<close> the map of connections exists until the server is closed.\<close>

definition conns_ok :: "('c, 'b, 'u, 's) Server \<Rightarrow> bool" where
  "conns_ok s \<longleftrightarrow> (srv_closed s \<longrightarrow> srv_inited s \<and> srv_conns s = None) \<and> (srv_inited s \<and> \<not> srv_closed s \<longrightarrow> srv_conns s \<noteq> None)"

definition count_inv :: "('c, 'b, 'u) serve_state \<Rightarrow> bool" where
  "count_inv x \<longleftrightarrow> finite (dom (sv_conn x)) \<and> sv_refCount x = sv_idle x + card (running (sv_conn x))"

definition close_ok :: "('c, 'b, 'u) serve_state \<Rightarrow> bool" where
  "close_ok x \<longleftrightarrow> conns_ok (sv_srv x) \<and> (srv_closed (sv_srv x) \<longleftrightarrow> sv_close x \<noteq> CloseNotCalled)
     \<and> (\<forall>c p. sv_conn x c = Some p \<and> p \<noteq> CpAccepted \<and> p \<noteq> CpStart \<longrightarrow> c \<in> sv_closed x \<or> registered (sv_srv x) c)"

subsection \<open>The wait group\<close>

lemma running_finite: "finite (dom cn) \<Longrightarrow> finite (running cn)"
  by (rule finite_subset [of _ "dom cn"]) (auto simp: running_def)

lemma running_move:
  assumes "cn c = Some p" "p \<noteq> CpDone" "q \<noteq> CpDone"
  shows "running (cn(c \<mapsto> q)) = running cn"
  using assms by (auto simp: running_def)

lemma running_new:
  assumes "finite (dom cn)" "cn c = None" "q \<noteq> CpDone"
  shows "card (running (cn(c \<mapsto> q))) = Suc (card (running cn))"
proof -
  have "running (cn(c \<mapsto> q)) = insert c (running cn)" using assms(2,3) by (auto simp: running_def)
  moreover have "c \<notin> running cn" using assms(2) by (simp add: running_def)
  ultimately show ?thesis using running_finite [OF assms(1)] by simp
qed

lemma running_end:
  assumes "finite (dom cn)" "cn c = Some p" "p \<noteq> CpDone"
  shows "Suc (card (running (cn(c \<mapsto> CpDone)))) = card (running cn)"
proof -
  have r: "running (cn(c \<mapsto> CpDone)) = running cn - {c}" "c \<in> running cn"
    using assms(2,3) by (auto simp: running_def)
  show ?thesis
    unfolding r(1) using card_Suc_Diff1 [OF running_finite [OF assms(1)] r(2)] .
qed

lemma count_step: "serve_step x y \<Longrightarrow> count_inv x \<Longrightarrow> count_inv y"
proof (induction rule: serve_step.induct)
  case (sv_accept x c)
  then show ?case using running_new [of "sv_conn x" c CpAccepted] by (auto simp: count_inv_def)
next
  case (sv_drop x c)
  then show ?case using running_end [of "sv_conn x" c CpAccepted] by (auto simp: count_inv_def)
next
  case (sv_go x c)
  then show ?case using running_move [of "sv_conn x" c CpAccepted CpStart] by (auto simp: count_inv_def)
next
  case (sv_serve x c st es s')
  then show ?case using running_move [of "sv_conn x" c CpStart CpRegistered] by (auto simp: count_inv_def)
next
  case (sv_refuse x c st e es s')
  then show ?case using running_end [of "sv_conn x" c CpStart] by (auto simp: count_inv_def)
next
  case (sv_raw_error x c)
  then show ?case using running_end [of "sv_conn x" c CpRegistered] by (auto simp: count_inv_def)
next
  case (sv_raw x c)
  then show ?case using running_move [of "sv_conn x" c CpRegistered "CpServing 2 0"] by (auto simp: count_inv_def)
next
  case (sv_stream x c l n)
  then show ?case using running_move [of "sv_conn x" c "CpServing l n" "CpServing l (Suc n)"] by (auto simp: count_inv_def)
next
  case (sv_stream_end x c l n)
  then show ?case using running_move [of "sv_conn x" c "CpServing l (Suc n)" "CpServing l n"] by (auto simp: count_inv_def)
next
  case (sv_loop_end x c l n)
  then show ?case using running_move [of "sv_conn x" c "CpServing (Suc l) n" "CpServing l n"] by (auto simp: count_inv_def)
next
  case (sv_wait x c)
  then show ?case using running_end [of "sv_conn x" c "CpServing 0 0"] by (auto simp: count_inv_def)
qed (simp_all add: count_inv_def)


subsection \<open>The connections\<close>

lemma initialize_ok:
  assumes "conns_ok s"
  shows "conns_ok (server_initialize s) \<and> srv_closed (server_initialize s) = srv_closed s
    \<and> (srv_inited s \<longrightarrow> server_initialize s = s) \<and> srv_inited (server_initialize s)"
  using assms by (auto simp: server_initialize_def server_init_def conns_ok_def Let_def)

text \<open>What an operation of the server keeps.\<close>

definition srv_keeps :: "('c, 'b, 'u, 's) Server \<Rightarrow> ('c, 'b, 'u, 's) Server \<Rightarrow> bool" where
  "srv_keeps s s' \<longleftrightarrow> conns_ok s' \<and> srv_inited s' \<and> srv_closed s' = srv_closed s
     \<and> (srv_inited s \<longrightarrow> (\<forall>d. registered s d \<longrightarrow> registered s' d))"

lemma initialize_keeps: "conns_ok s \<Longrightarrow> srv_keeps s (server_initialize s)"
  using initialize_ok [of s] by (auto simp: srv_keeps_def)

text \<open>Before \<open>init\<close> no connection was served.\<close>

definition fresh_ok :: "('c, 'b, 'u) serve_state \<Rightarrow> bool" where
  "fresh_ok x \<longleftrightarrow> (srv_inited (sv_srv x) \<or> (sv_conn x = (\<lambda>_. None)))"

text \<open>What keeps \<open>close_ok\<close>: connections stay registered or are closed.\<close>

lemma close_okI:
  assumes "close_ok x" "conns_ok (sv_srv y)" "srv_closed (sv_srv y) \<longleftrightarrow> sv_close y \<noteq> CloseNotCalled"
    and "\<And>c p. sv_conn y c = Some p \<Longrightarrow> p \<noteq> CpAccepted \<Longrightarrow> p \<noteq> CpStart \<Longrightarrow>
      (\<exists>q. sv_conn x c = Some q \<and> q \<noteq> CpAccepted \<and> q \<noteq> CpStart) \<or> c \<in> sv_closed y \<or> registered (sv_srv y) c"
    and "\<And>c. c \<in> sv_closed x \<or> registered (sv_srv x) c \<Longrightarrow> sv_conn x c \<noteq> None \<Longrightarrow> c \<in> sv_closed y \<or> registered (sv_srv y) c"
  shows "close_ok y"
  unfolding close_ok_def
proof (intro conjI allI impI)
  fix c p assume "sv_conn y c = Some p \<and> p \<noteq> CpAccepted \<and> p \<noteq> CpStart"
  then consider q where "sv_conn x c = Some q" "q \<noteq> CpAccepted" "q \<noteq> CpStart"
    | "c \<in> sv_closed y \<or> registered (sv_srv y) c" using assms(4) by blast
  then show "c \<in> sv_closed y \<or> registered (sv_srv y) c"
  proof cases
    case 1
    then have "c \<in> sv_closed x \<or> registered (sv_srv x) c" using assms(1) by (auto simp: close_ok_def)
    then show ?thesis using assms(5) 1(1) by blast
  qed
qed (use assms(2,3) in auto)

lemma ServeQUICConn_ok:
  assumes "conns_ok s" "cst_datagramsLocal st" "cst_partialDeliveryLocal st"
    and "ServeQUICConn c st s = ((err, es), s')"
  shows "srv_keeps s s' \<and> (case err of None \<Rightarrow> registered s' c | Some _ \<Rightarrow> c \<in> closed_by es)"
proof -
  let ?i = "server_initialize s"
  have i: "conns_ok ?i" "srv_inited ?i" "srv_closed ?i = srv_closed s" "srv_inited s \<Longrightarrow> ?i = s"
    using initialize_ok [OF assms(1)] by auto
  show ?thesis
    using assms(4) i unfolding ServeQUICConn_def Let_def
    by (auto simp: assms(2,3) srv_keeps_def conns_ok_def registered_def closed_by_def split: if_splits option.splits)
qed

lemma Upgrade_keeps:
  assumes "conns_ok s" "Upgrade sfv ext r s = (res, s')"
  shows "srv_keeps s s'"
proof -
  let ?i = "server_initialize s"
  have i: "conns_ok ?i" "srv_inited ?i" "srv_closed ?i = srv_closed s" "srv_inited s \<Longrightarrow> ?i = s"
    using initialize_ok [OF assms(1)] by auto
  consider "s' = ?i" | "upgraded r ?i s'"
    using Upgrade_cases [of sfv ext r s "fst res" "snd res" s'] assms(2) by auto
  then show ?thesis
  proof cases
    case 1
    then show ?thesis using initialize_keeps [OF assms(1)] by simp
  next
    case 2
    then obtain conns conn mgr' where c: "srv_conns ?i = Some conns" "conns conn \<noteq> None"
        "s' = ?i\<lparr>srv_conns := Some (conns(conn \<mapsto> mgr'))\<rparr>"
      unfolding upgraded_def Let_def by blast
    have "\<not> srv_closed ?i" using i(1) c(1) by (auto simp: conns_ok_def)
    then have "conns_ok s'" "srv_inited s'" "srv_closed s' = srv_closed s" using i c by (auto simp: conns_ok_def)
    moreover have "registered s' d" if "srv_inited s" "registered s d" for d
      using that i(4) c by (auto simp: registered_def)
    ultimately show ?thesis by (auto simp: srv_keeps_def)
  qed
qed

lemma connDone_ok:
  assumes "conns_ok s"
  shows "conns_ok (snd (server_connDone c s)) \<and> srv_inited (snd (server_connDone c s)) = srv_inited s
    \<and> srv_closed (snd (server_connDone c s)) = srv_closed s
    \<and> (\<forall>d. registered s d \<longrightarrow> d \<noteq> c \<longrightarrow> registered (snd (server_connDone c s)) d)"
  using assms by (auto simp: server_connDone_def conns_ok_def registered_def split: option.splits)

lemma Close_mx_ok:
  assumes "conns_ok s" "Close_mx s = (cs, s')"
  shows "conns_ok s' \<and> srv_inited s' \<and> srv_closed s' \<and> (srv_inited s \<longrightarrow> (\<forall>d. registered s d \<longrightarrow> d \<in> cs))"
  using assms initialize_ok [OF assms(1)]
  by (auto simp: Close_mx_def conns_ok_def registered_def Let_def split: option.splits)

definition serve_inv :: "('c, 'b, 'u) serve_state \<Rightarrow> bool" where
  "serve_inv x \<longleftrightarrow> count_inv x \<and> close_ok x \<and> fresh_ok x
     \<and> (0 < sv_idle x \<longrightarrow> srv_inited (sv_srv x))"

lemma keeps_close_ok:
  assumes "close_ok x" "fresh_ok x" "srv_keeps (sv_srv x) (sv_srv y)" "sv_close y = sv_close x"
    and "sv_closed x \<subseteq> sv_closed y"
    and "\<And>c p. sv_conn y c = Some p \<Longrightarrow> p \<noteq> CpAccepted \<Longrightarrow> p \<noteq> CpStart \<Longrightarrow>
      (\<exists>q. sv_conn x c = Some q \<and> q \<noteq> CpAccepted \<and> q \<noteq> CpStart) \<or> c \<in> sv_closed y \<or> registered (sv_srv y) c"
  shows "close_ok y"
proof (rule close_okI [OF assms(1) _ _ assms(6)])
  show "conns_ok (sv_srv y)" "srv_closed (sv_srv y) \<longleftrightarrow> sv_close y \<noteq> CloseNotCalled"
    using assms(1,3,4) by (auto simp: srv_keeps_def close_ok_def)
  fix c assume "c \<in> sv_closed x \<or> registered (sv_srv x) c" "sv_conn x c \<noteq> None"
  then show "c \<in> sv_closed y \<or> registered (sv_srv y) c"
    using assms(2,3,5) by (auto simp: srv_keeps_def fresh_ok_def)
qed

text \<open>Steps that leave the server as it is.\<close>

lemma same_keeps: "conns_ok s \<Longrightarrow> srv_inited s \<Longrightarrow> srv_keeps s s"
  by (simp add: srv_keeps_def)

lemma conn_inited: "fresh_ok x \<Longrightarrow> sv_conn x c \<noteq> None \<Longrightarrow> srv_inited (sv_srv x)"
  by (auto simp: fresh_ok_def)

lemma close_ok_step:
  assumes "serve_step x y" "close_ok x" "fresh_ok x" "0 < sv_idle x \<longrightarrow> srv_inited (sv_srv x)"
  shows "close_ok y"
proof -
  have ok: "conns_ok (sv_srv x)" using assms(2) by (simp add: close_ok_def)
  have same: "srv_keeps (sv_srv x) (sv_srv x)" if "sv_conn x c \<noteq> None \<or> 0 < sv_idle x" for c
    using that same_keeps [OF ok] conn_inited [OF assms(3)] assms(4) by blast
  show ?thesis
    using assms(1)
  proof cases
    case sv_listen
    then show ?thesis
      using initialize_keeps [OF ok] by (intro keeps_close_ok [OF assms(2,3)]) auto
  next
    case (sv_serve c st es s')
    from ServeQUICConn_ok [OF ok sv_serve(3-5)] sv_serve show ?thesis
      by (intro keeps_close_ok [OF assms(2,3)]) (auto split: if_splits)
  next
    case (sv_refuse c st e es s')
    from ServeQUICConn_ok [OF ok sv_refuse(3-5)] sv_refuse show ?thesis
      by (intro keeps_close_ok [OF assms(2,3)]) (auto split: if_splits)
  next
    case (sv_upgrade sfv ext r res s')
    then show ?thesis
      using Upgrade_keeps [OF ok] by (intro keeps_close_ok [OF assms(2,3)]) auto
  next
    case (sv_manager conns c mgr mgr')
    then show ?thesis
      using ok by (intro close_okI [OF assms(2)]) (use assms(2) in \<open>auto simp: conns_ok_def registered_def close_ok_def\<close>)
  next
    case (sv_connDone c)
    then show ?thesis
      using connDone_ok [OF ok, of c] by (intro close_okI [OF assms(2)]) (use assms(2) in \<open>auto simp: close_ok_def\<close>)
  next
    case (sv_close_mx cs s')
    then show ?thesis
      using Close_mx_ok [OF ok sv_close_mx(3)] conn_inited [OF assms(3)]
      by (intro close_okI [OF assms(2)]) auto
  next
    case sv_close_cancel
    then show ?thesis using assms(2) by (auto simp: close_ok_def conns_ok_def registered_def)
  next
    case sv_close_return
    then show ?thesis using assms(2) by (auto simp: close_ok_def)
  qed (use same in \<open>intro keeps_close_ok [OF assms(2,3)]; auto split: if_splits\<close>)+
qed

lemma fresh_step:
  assumes "serve_step x y" "close_ok x" "fresh_ok x" "0 < sv_idle x \<longrightarrow> srv_inited (sv_srv x)"
  shows "fresh_ok y \<and> (0 < sv_idle y \<longrightarrow> srv_inited (sv_srv y))"
proof -
  have ok: "conns_ok (sv_srv x)" using assms(2) by (simp add: close_ok_def)
  have i: "sv_conn x c = Some p \<Longrightarrow> srv_inited (sv_srv x)" for c p using conn_inited [OF assms(3)] by blast
  show ?thesis
    using assms(1)
  proof cases
    case sv_listen
    then show ?thesis using initialize_ok [OF ok] by (simp add: fresh_ok_def)
  next
    case (sv_serve c st es s')
    then show ?thesis using ServeQUICConn_ok [OF ok sv_serve(3-5)] by (simp add: fresh_ok_def srv_keeps_def)
  next
    case (sv_refuse c st e es s')
    then show ?thesis using ServeQUICConn_ok [OF ok sv_refuse(3-5)] by (simp add: fresh_ok_def srv_keeps_def)
  next
    case (sv_upgrade sfv ext r res s')
    then show ?thesis using Upgrade_keeps [OF ok] by (auto simp: fresh_ok_def srv_keeps_def)
  next
    case (sv_connDone c)
    then show ?thesis using connDone_ok [OF ok, of c] i by (auto simp: fresh_ok_def)
  next
    case (sv_close_mx cs s')
    then show ?thesis using Close_mx_ok [OF ok sv_close_mx(3)] by (simp add: fresh_ok_def)
  qed (use assms(3,4) i in \<open>auto simp: fresh_ok_def\<close>)
qed

lemma serve_inv_start: "serve_start h3 cfg protocols x \<Longrightarrow> serve_inv x"
  by (simp add: serve_start_def serve_inv_def count_inv_def close_ok_def fresh_ok_def conns_ok_def running_def newServer_def)

lemma serve_inv_reach: "reach (serve_start h3 cfg protocols) serve_step x \<Longrightarrow> serve_inv x"
proof (erule reach_invariant)
  show "serve_start h3 cfg protocols s \<Longrightarrow> serve_inv s" for s :: "('a, 'b, 'c) serve_state" by (rule serve_inv_start)
  show "serve_inv t" if "serve_inv s" "serve_step s t" for s t :: "('a, 'b, 'c) serve_state"
    using that(1) count_step [OF that(2)] close_ok_step [OF that(2)] fresh_step [OF that(2)]
    unfolding serve_inv_def by simp
qed


section \<open>Closing a server\<close>

text \<open>How much is left to do until \<open>Close\<close> can return.\<close>

fun conn_work :: "conn_pc \<Rightarrow> nat" where
  "conn_work CpAccepted = 3"
| "conn_work CpStart = 1"
| "conn_work CpRegistered = 4"
| "conn_work (CpServing l n) = l + n + 1"
| "conn_work CpDone = 0"

definition serve_work :: "('c, 'b, 'u) serve_state \<Rightarrow> nat" where
  "serve_work x = sv_idle x + (\<Sum>c \<in> dom (sv_conn x). conn_work (the (sv_conn x c)))"

lemma work_update:
  assumes "finite (dom cn)" "cn c = Some p"
  shows "(\<Sum>d \<in> dom (cn(c \<mapsto> q)). conn_work (the ((cn(c \<mapsto> q)) d))) + conn_work p
    = (\<Sum>d \<in> dom cn. conn_work (the (cn d))) + conn_work q"
proof -
  have d: "dom (cn(c \<mapsto> q)) = dom cn" "c \<in> dom cn" using assms(2) by auto
  have "(\<Sum>d \<in> dom cn - {c}. conn_work (the ((cn(c \<mapsto> q)) d))) = (\<Sum>d \<in> dom cn - {c}. conn_work (the (cn d)))"
    by (rule sum.cong) auto
  then show ?thesis
    unfolding d(1) using sum.remove [OF assms(1) d(2), of "\<lambda>d. conn_work (the ((cn(c \<mapsto> q)) d))"]
      sum.remove [OF assms(1) d(2), of "\<lambda>d. conn_work (the (cn d))"] assms(2) by simp
qed

lemma progressI: "serve_step x y \<Longrightarrow> serve_work y < serve_work x \<Longrightarrow> \<exists>y. serve_step x y \<and> serve_work y < serve_work x"
  by blast

lemma serve_progress:
  assumes inv: "serve_inv x" and cl: "srv_closed (sv_srv x)" and ref: "0 < sv_refCount x"
  shows "\<exists>y. serve_step x y \<and> serve_work y < serve_work x"
proof (cases "0 < sv_idle x")
  case True
  then show ?thesis
    by (intro progressI [OF sv_accept_error [OF True]]) (simp add: serve_work_def)
next
  case False
  have fin: "finite (dom (sv_conn x))" and "card (running (sv_conn x)) \<noteq> 0"
    using inv ref False by (auto simp: serve_inv_def count_inv_def)
  then have "running (sv_conn x) \<noteq> {}" by auto
  then obtain c p where c: "sv_conn x c = Some p" "p \<noteq> CpDone" by (auto simp: running_def)
  note w = work_update [OF fin c(1)]
  show ?thesis
  proof (cases p)
    case CpAccepted
    show ?thesis
      by (rule progressI, rule sv_drop [where c = c])
        (use c w [of CpDone] cl CpAccepted in \<open>simp_all add: isClosed_def serve_work_def\<close>)
  next
    case CpStart
    obtain err es s' where s: "ServeQUICConn c \<lparr>cst_datagramsLocal = True, cst_datagramsRemote = True,
        cst_partialDeliveryLocal = True, cst_partialDeliveryRemote = True\<rparr> (sv_srv x) = ((err, es), s')"
      by (metis surj_pair)
    have "conns_ok (sv_srv x)" using inv by (simp add: serve_inv_def close_ok_def)
    then have "srv_closed (server_initialize (sv_srv x))" using cl initialize_ok by blast
    then have "err = Some EServerClosed" using s by (simp add: ServeQUICConn_def Let_def)
    show ?thesis
      by (rule progressI, rule sv_refuse [OF _ _ _ s [unfolded \<open>err = _\<close>]])
        (use c CpStart w [of CpDone] in \<open>simp_all add: serve_work_def\<close>)
  next
    case CpRegistered
    show ?thesis
      by (rule progressI, rule sv_raw_error [where c = c]) (use c CpRegistered w [of CpDone] in \<open>simp_all add: serve_work_def\<close>)
  next
    case (CpServing l n)
    consider l' where "l = Suc l'" | n' where "n = Suc n'" "l = 0" | "l = 0" "n = 0" by (metis not0_implies_Suc)
    then show ?thesis
    proof cases
      case 1
      show ?thesis
        by (rule progressI, rule sv_loop_end [of _ c l' n]) (use 1 c CpServing w [of "CpServing l' n"] in \<open>simp_all add: serve_work_def\<close>)
    next
      case 2
      show ?thesis
        by (rule progressI, rule sv_stream_end [of _ c l n']) (use 2 c CpServing w [of "CpServing l n'"] in \<open>simp_all add: serve_work_def\<close>)
    next
      case 3
      show ?thesis
        by (rule progressI, rule sv_wait [of _ c]) (use 3 c CpServing w [of CpDone] in \<open>simp_all add: serve_work_def\<close>)
    qed
  qed (use c in simp)
qed

text \<open>
  C14. Closing a server leaves nothing behind. However the listeners, the goroutines of the connections
  and of their streams, the peers and \<open>Close\<close> interleave: the wait group counts exactly the listeners and
  connections whose goroutine runs; when it reaches zero on a closed server, so that \<open>Close\<close>
  returns, the goroutine of every connection that was ever accepted has ended and the connection is
  closed, also of one that was accepted while the server was closing; and as long as \<open>Close\<close> waits,
  some goroutine can take a step towards its end.
\<close>

theorem server_close_complete:
  assumes "reach (serve_start h3 cfg protocols) serve_step x"
  shows "sv_refCount x = sv_idle x + card (running (sv_conn x))
    \<and> (srv_closed (sv_srv x) \<and> sv_refCount x = 0 \<longrightarrow>
        (\<forall>c. sv_conn x c \<noteq> None \<longrightarrow> sv_conn x c = Some CpDone \<and> c \<in> sv_closed x))
    \<and> (sv_close x = CloseWait \<and> 0 < sv_refCount x \<longrightarrow> (\<exists>y. serve_step x y \<and> serve_work y < serve_work x))"
proof -
  have inv: "serve_inv x" by (rule serve_inv_reach [OF assms])
  have "sv_conn x c = Some CpDone \<and> c \<in> sv_closed x"
    if cl: "srv_closed (sv_srv x)" "sv_refCount x = 0" and c: "sv_conn x c \<noteq> None" for c
  proof -
    have "finite (running (sv_conn x))" "card (running (sv_conn x)) = 0"
      using inv cl(2) running_finite by (auto simp: serve_inv_def count_inv_def)
    then have "running (sv_conn x) = {}" by simp
    then have d: "sv_conn x c = Some CpDone" using c by (auto simp: running_def dest: spec [of _ c])
    have "\<not> registered (sv_srv x) c"
      using inv cl(1) by (simp add: serve_inv_def close_ok_def conns_ok_def registered_def)
    with d inv show ?thesis by (auto simp: serve_inv_def close_ok_def)
  qed
  moreover have "\<exists>y. serve_step x y \<and> serve_work y < serve_work x" if "sv_close x = CloseWait" "0 < sv_refCount x"
    using that inv by (intro serve_progress [OF inv]) (simp_all add: serve_inv_def close_ok_def)
  ultimately show ?thesis using inv by (auto simp: serve_inv_def count_inv_def)
qed


text \<open>A connection is accepted while the server is being closed: it is dropped, and \<open>Close\<close> can return.\<close>

definition serve_ex :: "nat \<Rightarrow> (nat, nat, nat) serve_state" where
  "serve_ex k =
     (let s0 = newServer None None [];
          s1 = server_initialize s0;
          x1 = \<lparr>sv_srv = s1, sv_idle = 0, sv_refCount = 1, sv_conn = (\<lambda>_. None)(7 \<mapsto> CpAccepted),
                sv_closed = {}, sv_close = CloseNotCalled\<rparr>;
          x2 = x1\<lparr>sv_srv := snd (Close_mx s1), sv_close := CloseCancel\<rparr>;
          x3 = x2\<lparr>sv_srv := (sv_srv x2)\<lparr>srv_ctxDone := True\<rparr>, sv_close := CloseWait\<rparr>;
          x4 = x3\<lparr>sv_idle := 1, sv_conn := (sv_conn x3)(7 \<mapsto> CpDone), sv_closed := {7}\<rparr>
      in if k = 0 then x1 else if k = 1 then x2 else if k = 2 then x3 else if k = 3 then x4
         else x4\<lparr>sv_idle := 0, sv_refCount := 0\<rparr>)"

abbreviation serve_ex_reach :: "(nat, nat, nat) serve_state \<Rightarrow> bool" where
  "serve_ex_reach \<equiv> reach (serve_start None None []) serve_step"

lemma serve_ex_conns: "Close_mx (server_initialize (newServer None None [])) =
    ({}, (server_initialize (newServer None None []))\<lparr>srv_closed := True, srv_conns := None\<rparr>)"
  by (simp add: Close_mx_def server_initialize_def server_init_def newServer_def Let_def)

lemma serve_ex_final: "serve_ex_reach (serve_ex 4)"
proof -
  let ?x0 = "\<lparr>sv_srv = newServer None None [], sv_idle = 0, sv_refCount = 0, sv_conn = (\<lambda>_. None),
      sv_closed = {}, sv_close = CloseNotCalled\<rparr> :: (nat, nat, nat) serve_state"
  have 0: "serve_ex_reach ?x0" by (rule reach_init) (simp add: serve_start_def)
  have 1: "serve_ex_reach (serve_ex 0)"
    using sv_accept [of "?x0\<lparr>sv_srv := server_initialize (newServer None None []), sv_idle := 1, sv_refCount := 1\<rparr>" 7]
      reach_step [OF 0 sv_listen [of ?x0]]
    by (auto simp: serve_ex_def Let_def intro: reach_step)
  have 2: "serve_ex_reach (serve_ex 1)"
    by (rule reach_step [OF 1]) (use sv_close_mx [of "serve_ex 0" "{}"] in \<open>simp add: serve_ex_def serve_ex_conns Let_def\<close>)
  have 3: "serve_ex_reach (serve_ex 2)"
    by (rule reach_step [OF 2]) (use sv_close_cancel [of "serve_ex 1"] in \<open>simp add: serve_ex_def Let_def\<close>)
  have 4: "serve_ex_reach (serve_ex 3)"
    by (rule reach_step [OF 3])
      (use sv_drop [of "serve_ex 2" 7] in \<open>simp add: serve_ex_def serve_ex_conns Let_def isClosed_def\<close>)
  show ?thesis
    by (rule reach_step [OF 4]) (use sv_accept_error [of "serve_ex 3"] in \<open>simp add: serve_ex_def Let_def\<close>)
qed

theorem server_close_complete_witness:
  "sv_refCount (serve_ex 4) = 0 \<and> sv_conn (serve_ex 4) 7 = Some CpDone \<and> 7 \<in> sv_closed (serve_ex 4)"
proof -
  have "srv_closed (sv_srv (serve_ex 4))" "sv_refCount (serve_ex 4) = 0" "sv_conn (serve_ex 4) 7 \<noteq> None"
    by (simp_all add: serve_ex_def serve_ex_conns Let_def)
  with server_close_complete [OF serve_ex_final] show ?thesis by blast
qed


end
