(* ===== verification/WT_Examples.thy ===== *)
theory WT_Examples
  imports WT_Client WT_Serve WT_GoStrings
begin

text \<open>
  The programs around the package: the example server and client (\<open>example/server/main.go\<close>,
  \<open>example/client/main.go\<close>), the test server for a browser (\<open>interop_chrome/main.go\<close>), and the
  certificates of the tests (\<open>internal/testdata/tls.go\<close>). Certificates, keys and hashes are results of
  the packages \<open>crypto/*\<close>, which are parameters; times are nanoseconds since 1 January 1970, UTC.

  The theorems: the certificate of the example server is valid now, for less than two weeks, and stays
  the same for a week; client and server started with the same list of protocols agree on its first;
  and the array that is written into the page of the browser test reads back as the bytes.
\<close>

section \<open>Strings\<close>

text \<open>\<open>strings.ReplaceAll\<close> for a non-empty \<open>old\<close>, from the left.\<close>

function ReplaceAll :: "string \<Rightarrow> string \<Rightarrow> string \<Rightarrow> string" where
  "ReplaceAll s old new =
     (if s = [] then []
      else if old \<noteq> [] \<and> HasPrefix s old then new @ ReplaceAll (drop (length old) s) old new
      else hd s # ReplaceAll (tl s) old new)"
  by auto

termination
  by (relation "measure (\<lambda>(s, old, new). length s)") auto

declare ReplaceAll.simps [simp del]

lemma ReplaceAll_Nil [simp]: "ReplaceAll [] old new = []"
  by (simp add: ReplaceAll.simps)

lemma ReplaceAll_match: "old \<noteq> [] \<Longrightarrow> ReplaceAll (old @ s) old new = new @ ReplaceAll s old new"
  by (subst ReplaceAll.simps) simp

text \<open>Text in which the first character of \<open>old\<close> does not occur is kept.\<close>

lemma ReplaceAll_keep:
  assumes "old \<noteq> []" "hd old \<notin> set a"
  shows "ReplaceAll (a @ s) old new = a @ ReplaceAll s old new"
  using assms(2)
proof (induction a)
  case (Cons c a)
  have "\<not> HasPrefix (c # a @ s) old" using Cons.prems assms(1) HasPrefix_hd [of "c # a @ s" old] by auto
  then show ?case using Cons by (subst ReplaceAll.simps) simp
qed simp

lemma ReplaceAll_absent: "old \<noteq> [] \<Longrightarrow> hd old \<notin> set s \<Longrightarrow> ReplaceAll s old new = s"
  using ReplaceAll_keep [of old s "[]"] by simp

text \<open>\<open>net.SplitHostPort\<close> and \<open>net.JoinHostPort\<close>.\<close>

definition index_byte :: "char \<Rightarrow> string \<Rightarrow> nat option" where
  "index_byte c s = (if c \<in> set s then Some (length (takeWhile (\<lambda>x. x \<noteq> c) s)) else None)"

definition last_index_byte :: "char \<Rightarrow> string \<Rightarrow> nat option" where
  "last_index_byte c s =
     (if c \<in> set s then Some (length s - 1 - length (takeWhile (\<lambda>x. x \<noteq> c) (rev s))) else None)"

definition addr_error :: "string \<Rightarrow> string \<Rightarrow> go_error" where
  "addr_error why addr = ENew (''address '' @ addr @ '': '' @ why)"

definition bracket_error :: "string \<Rightarrow> char \<Rightarrow> string" where
  "bracket_error what c = what @ [CHR 0x27, c, CHR 0x27] @ '' in address''"

definition SplitHostPort :: "string \<Rightarrow> go_error + string \<times> string" where
  "SplitHostPort hostport =
     (let err = (\<lambda>why. Inl (addr_error why hostport));
          missingPort = ''missing port in address''; tooManyColons = ''too many colons in address''
      in case last_index_byte CHR '':'' hostport of
           None \<Rightarrow> err missingPort
         | Some i \<Rightarrow>
             let finish = (\<lambda>host j k.
                   if CHR ''['' \<in> set (drop j hostport) then err (bracket_error ''unexpected '' CHR ''['')
                   else if CHR '']'' \<in> set (drop k hostport) then err (bracket_error ''unexpected '' CHR '']'')
                   else Inr (host, drop (i + 1) hostport))
             in if hd hostport = CHR ''[''
                then (case index_byte CHR '']'' hostport of
                        None \<Rightarrow> err (bracket_error ''missing '' CHR '']'')
                      | Some end \<Rightarrow>
                          if end + 1 = length hostport then err missingPort
                          else if end + 1 = i then finish (take (end - 1) (tl hostport)) 1 (end + 1)
                          else if hostport ! (end + 1) = CHR '':'' then err tooManyColons
                          else err missingPort)
                else if CHR '':'' \<in> set (take i hostport) then err tooManyColons
                else finish (take i hostport) 0 0)"

definition JoinHostPort :: "string \<Rightarrow> string \<Rightarrow> string" where
  "JoinHostPort host port =
     (if CHR '':'' \<in> set host then ''['' @ host @ '']:'' @ port else host @ '':'' @ port)"

lemma SplitHostPort_port:
  assumes "CHR '':'' \<notin> set port" "CHR ''['' \<notin> set port" "CHR '']'' \<notin> set port"
  shows "SplitHostPort (CHR '':'' # port) = Inr ('''', port)"
proof -
  have "takeWhile (\<lambda>x. x \<noteq> CHR '':'') (rev port @ [CHR '':'']) = rev port"
    using assms(1) by (simp add: takeWhile_append)
  then have "last_index_byte CHR '':'' (CHR '':'' # port) = Some 0" by (simp add: last_index_byte_def)
  then show ?thesis using assms by (simp add: SplitHostPort_def Let_def)
qed

section \<open>Options\<close>

text \<open>The loop over the pieces of the \<open>protocols\<close> flag, the same in both programs.\<close>

definition parse_protocols :: "string \<Rightarrow> string list" where
  "parse_protocols flag = filter (\<lambda>p. p \<noteq> '''') (map TrimSpace (split_on CHR '','' flag))"

definition default_protocols :: string where
  "default_protocols = ''webtransport-test,webtransport-test-2''"

section \<open>Certificates\<close>

text \<open>
  The fields of \<open>x509.Certificate\<close> that the programs set. \<open>keyUsage\<close> and \<open>extKeyUsage\<close> by name; a
  template is signed by \<open>x509.CreateCertificate\<close> with a parent template and a key.
\<close>

datatype key_usage = KeyUsageDigitalSignature | KeyUsageCertSign
datatype ext_key_usage = ExtKeyUsageClientAuth | ExtKeyUsageServerAuth

record certificate =
  crt_SerialNumber :: int
  crt_CommonName :: string
  crt_NotBefore :: int
  crt_NotAfter :: int
  crt_IsCA :: bool
  crt_KeyUsage :: "key_usage list"
  crt_ExtKeyUsage :: "ext_key_usage list"
  crt_BasicConstraintsValid :: bool
  crt_DNSNames :: "string list"
  crt_IPAddresses :: "string list"

text \<open>Results of the packages \<open>crypto/*\<close>, on keys of type \<open>'k\<close>.\<close>

record 'k crypto =
  cr_RandRead :: "nat \<Rightarrow> go_error + bytes"
  cr_GenerateKey :: "nat \<Rightarrow> go_error + 'k"        \<comment> \<open>by the number of the call\<close>
  cr_ParseRawPrivateKey :: "string \<Rightarrow> go_error + 'k"
  cr_CreateCertificate :: "certificate \<Rightarrow> certificate \<Rightarrow> 'k \<Rightarrow> 'k \<Rightarrow> go_error + bytes"
  cr_ParseCertificate :: "bytes \<Rightarrow> go_error + certificate"
  cr_Sum256 :: "bytes \<Rightarrow> bytes"
  cr_RawStdEncoding :: "bytes \<Rightarrow> string"

subsection \<open>The weekly certificate of the example server\<close>

definition day :: int where
  "day = 24 * 60 * 60 * 10 ^ 9"

text \<open>
  \<open>time.Date\<close> of the year, month and day of \<open>t\<close> is the start of its day; 1 January 1970 was a Thursday,
  and \<open>time.Sunday\<close> is 0.
\<close>

definition start_of_day :: "int \<Rightarrow> int" where
  "start_of_day t = t div day * day"

definition Weekday :: "int \<Rightarrow> int" where
  "Weekday t = (t div day + 4) mod 7"

definition AddDays :: "int \<Rightarrow> int \<Rightarrow> int" where
  "AddDays n t = t + n * day"

definition validFrom :: "int \<Rightarrow> int" where
  "validFrom now = (let d = start_of_day now in AddDays (- ((Weekday d + 6) mod 7)) d)"

definition validUntil :: "int \<Rightarrow> int" where
  "validUntil now = validFrom now + 13 * day"

definition certTemplate :: "int \<Rightarrow> certificate" where
  "certTemplate now =
     \<lparr>crt_SerialNumber = validFrom now div 10 ^ 9, crt_CommonName = ''localhost'',
      crt_NotBefore = validFrom now, crt_NotAfter = validUntil now, crt_IsCA = False,
      crt_KeyUsage = [KeyUsageDigitalSignature], crt_ExtKeyUsage = [ExtKeyUsageServerAuth],
      crt_BasicConstraintsValid = True, crt_DNSNames = [''localhost''], crt_IPAddresses = [''127.0.0.1'', ''::1'']\<rparr>"

lemma day_pos: "0 < day"
  by (simp add: day_def)

lemma start_of_day_div [simp]: "start_of_day t div day = t div day"
  using day_pos by (simp add: start_of_day_def)

text \<open>The number of the week, counted from the Monday before 1 January 1970.\<close>

definition week :: "int \<Rightarrow> int" where
  "week t = (t div day + 3) div 7"

lemma validFrom_week: "validFrom t = (7 * week t - 3) * day"
proof -
  let ?d = "t div day"
  have "((d + 4) mod 7 + 6) mod 7 = (d + 3) mod 7" for d :: int by presburger
  then have "validFrom t = (?d - (?d + 3) mod 7) * day"
    by (simp add: validFrom_def Weekday_def AddDays_def Let_def start_of_day_def left_diff_distrib)
  moreover have "d - (d + 3) mod 7 = 7 * ((d + 3) div 7) - 3" for d :: int by presburger
  then have "?d - (?d + 3) mod 7 = 7 * week t - 3" unfolding week_def .
  ultimately show ?thesis by simp
qed

lemma certTemplate_week: "week now = week now' \<Longrightarrow> certTemplate now = certTemplate now'"
  by (simp add: certTemplate_def validUntil_def validFrom_week)

text \<open>
  C25. The weekly certificate: at any time the certificate that the example server makes is valid, its
  validity starts on a Monday and lasts less than two weeks, as the browser interface requires, and
  ends at least six days later; and two runs of the server in the same week, and only those, make
  the same certificate template, so that the hash given to a client stays valid for the week.
\<close>

theorem weekly_certificate:
  "crt_NotBefore (certTemplate now) \<le> now \<and> now + 6 * day < crt_NotAfter (certTemplate now)
    \<and> crt_NotAfter (certTemplate now) - crt_NotBefore (certTemplate now) < 14 * day
    \<and> Weekday (crt_NotBefore (certTemplate now)) = 1
    \<and> (certTemplate now = certTemplate now' \<longleftrightarrow> week now = week now')"
proof -
  let ?d = "now div day"
  have "day * ?d + now mod day = now" "0 \<le> now mod day" "now mod day < day"
    using day_pos by (simp_all only: mult_div_mod_eq pos_mod_bound pos_mod_sign)
  then have d: "?d * day \<le> now" "now < (?d + 1) * day"
    unfolding distrib_right mult.commute [of ?d] by linarith+
  have w: "7 * week now - 3 \<le> ?d" "?d + 1 \<le> 7 * week now + 4"
    using mult_div_mod_eq [of 7 "?d + 3"] pos_mod_bound [of 7 "?d + 3"] pos_mod_sign [of 7 "?d + 3"]
    by (simp_all add: week_def)
  have "validFrom now \<le> ?d * day"
    unfolding validFrom_week by (rule mult_right_mono [OF w(1)]) (simp add: day_pos less_imp_le)
  with d(1) have "validFrom now \<le> now" by linarith
  moreover have "(?d + 1) * day \<le> (7 * week now + 4) * day"
    by (rule mult_right_mono [OF w(2)]) (simp add: day_pos less_imp_le)
  with d(2) have "now < (7 * week now + 4) * day" by linarith
  then have "now + 6 * day < validUntil now"
    by (simp add: validUntil_def validFrom_week algebra_simps)
  moreover have "Weekday (validFrom now) = 1"
  proof -
    have "validFrom now div day = 7 * week now - 3" using day_pos by (simp add: validFrom_week)
    moreover have "(7 * w - 3 + 4) mod 7 = 1" for w :: int by presburger
    ultimately show ?thesis unfolding Weekday_def by simp
  qed
  moreover have "certTemplate now = certTemplate now' \<longleftrightarrow> week now = week now'"
  proof
    assume "certTemplate now = certTemplate now'"
    then have "validFrom now = validFrom now'" by (simp add: certTemplate_def)
    then show "week now = week now'" using day_pos by (simp add: validFrom_week)
  qed (rule certTemplate_week)
  ultimately show ?thesis using day_pos by (simp add: certTemplate_def validUntil_def)
qed


section \<open>The example server\<close>

definition example_key :: string where
  "example_key = ''webtransport-example-cert-key-01''"

text \<open>
  The certificate in DER and its hash as text, or the message of \<open>log.Fatalf\<close>. The same template is
  the parent: the certificate signs itself.
\<close>

definition example_certificate :: "(go_error \<Rightarrow> string) \<Rightarrow> 'k crypto \<Rightarrow> int \<Rightarrow> string + bytes \<times> string" where
  "example_certificate ext C now =
     (case cr_ParseRawPrivateKey C example_key of
        Inl err \<Rightarrow> Inl (''failed to create certificate key: '' @ go_Error ext err)
      | Inr certKey \<Rightarrow>
          (case cr_CreateCertificate C (certTemplate now) (certTemplate now) certKey certKey of
             Inl err \<Rightarrow> Inl (''failed to create certificate: '' @ go_Error ext err)
           | Inr certDER \<Rightarrow> Inr (certDER, cr_RawStdEncoding C (cr_Sum256 C certDER))))"

text \<open>An address without a host is reached at \<open>localhost\<close>.\<close>

definition local_addr :: "string \<Rightarrow> string" where
  "local_addr addr =
     (case SplitHostPort addr of Inr (host, port) \<Rightarrow> if host = '''' then JoinHostPort ''localhost'' port else addr | Inl _ \<Rightarrow> addr)"

definition webTransportURL :: "string \<Rightarrow> string" where
  "webTransportURL addr = ''https://'' @ local_addr addr @ ''/webtransport''"

text \<open>\<open>browserIndex\<close> is the embedded file \<open>index.html\<close>.\<close>

definition browserHTML :: "string \<Rightarrow> string \<Rightarrow> string \<Rightarrow> string" where
  "browserHTML browserIndex certHash addr =
     ReplaceAll (ReplaceAll browserIndex ''{{SERVER_CERTIFICATE_HASH}}'' certHash) ''{{WEBTRANSPORT_URL}}'' (webTransportURL addr)"

datatype http_reply = NotFound | Page string | Status int | NoReply

definition browser_handler :: "string \<Rightarrow> string \<Rightarrow> http_reply" where
  "browser_handler page path = (if path \<noteq> ''/'' then NotFound else Page page)"

text \<open>The WebTransport server of \<open>runServer\<close>; \<open>ConfigureHTTP3Server\<close> is called here and again by \<open>init\<close>.\<close>

definition example_h3 :: "'c h3_Server" where
  "example_h3 = ConfigureHTTP3Server \<lparr>h3_AdditionalSettings = None, h3_EnableDatagrams = False, h3_ConnContext = None\<rparr>"

definition example_Server :: "string list \<Rightarrow> ('c, 'b, 'u, 's) Server" where
  "example_Server protocols = (newServer (Some example_h3) None protocols)\<lparr>srv_CheckOrigin := CustomCheck\<rparr>"

definition example_listen :: "string \<Rightarrow> 'k \<Rightarrow> 'k listen_config" where
  "example_listen addr cert =
     \<lparr>lc_Addr = addr, lc_TLSConfig = Some \<lparr>tls_Certificates = [cert]\<rparr>, lc_QUICConfig = Some default_quic_Config\<rparr>"

text \<open>The handler of \<open>/webtransport\<close>: the reply, and the negotiated protocol that is printed.\<close>

definition webtransport_handler ::
  "httpsfv \<Rightarrow> (go_error \<Rightarrow> string) \<Rightarrow> 'c connect_request \<Rightarrow> ('c, 'b, 'u, Session) Server
     \<Rightarrow> (http_reply \<times> string option) \<times> ('c, 'b, 'u, Session) Server" where
  "webtransport_handler sfv ext r s =
     (case Upgrade sfv ext (r\<lparr>rq_customCheck := True\<rparr>) s of
        ((Inl err, es), s') \<Rightarrow> ((Status 500, None), s')
      | ((Inr sess, es), s') \<Rightarrow> ((NoReply, Some (sst_ApplicationProtocol (Session_SessionState () sess))), s'))"

text \<open>
  \<open>runServer\<close>: the page served to browsers, and what \<open>ListenAndServe\<close> returns. The address of the page is
  only logged.
\<close>

definition runServer ::
  "(string \<Rightarrow> go_error + 'a) \<Rightarrow> ('a \<Rightarrow> go_error option) \<Rightarrow> (quic_Config \<Rightarrow> go_error option) \<Rightarrow> (go_error + 'c \<times> bool) list
     \<Rightarrow> string \<Rightarrow> 'k \<Rightarrow> string \<Rightarrow> string \<Rightarrow> string list
     \<Rightarrow> string \<times> ((go_error option \<times> 'c list \<times> 'c list) \<times> 'a listen_effect list) \<times> ('c, 'b, 'u, 's) Server" where
  "runServer resolve listenUDP listen accepted browserIndex cert certHash addr protocols =
     (browserHTML browserIndex certHash addr,
      ListenAndServe resolve listenUDP listen accepted (example_listen addr cert) (example_Server protocols))"

lemma webTransportURL_port:
  assumes "CHR '':'' \<notin> set port" "CHR ''['' \<notin> set port" "CHR '']'' \<notin> set port"
  shows "webTransportURL (CHR '':'' # port) = ''https://localhost:'' @ port @ ''/webtransport''"
  using SplitHostPort_port [OF assms] by (simp add: webTransportURL_def local_addr_def JoinHostPort_def)

section \<open>The example client\<close>

text \<open>
  \<open>VerifyConnection\<close>: is the hash of the first certificate the one of the flag. The message has the
  hash that was found.
\<close>

definition verifyConnection :: "'k crypto \<Rightarrow> string \<Rightarrow> bytes list \<Rightarrow> go_error option" where
  "verifyConnection C hash peerCertificates =
     (case peerCertificates of
        [] \<Rightarrow> Some (ENew ''server didn't send a certificate'')
      | raw # _ \<Rightarrow>
          let got = cr_RawStdEncoding C (cr_Sum256 C raw)
          in if got \<noteq> hash then Some (ENew (''server certificate hash mismatch: got '' @ got)) else None)"

text \<open>The check of the server's certificate, and whether the usual verification is skipped.\<close>

definition client_tlsConf :: "'k crypto \<Rightarrow> bool \<Rightarrow> string \<Rightarrow> bool \<times> (bytes list \<Rightarrow> go_error option) option" where
  "client_tlsConf C insecure certHash =
     (let hash = TrimSpace certHash
      in if hash \<noteq> '''' then (True, Some (verifyConnection C hash)) else (insecure, None))"

definition example_Transport :: "string list \<Rightarrow> Transport" where
  "example_Transport protocols =
     \<lparr>tr_Config = None, tr_NextProtos = Some [], tr_QUICConfig = Some default_quic_Config,
      tr_ApplicationProtocols = protocols, tr_StreamReorderingTimeout = 0, tr_inited = False, tr_ctxDone = False\<rparr>"

text \<open>
  \<open>runClient\<close>: the error, the protocol that is printed, and the transport after the deferred \<open>Close\<close>
  (\<open>None\<close> would be its panic).
\<close>

definition runClient ::
  "(string \<Rightarrow> go_error + string) \<Rightarrow> u64 \<Rightarrow> string \<Rightarrow> (string \<Rightarrow> string list \<Rightarrow> quic_Config \<Rightarrow> go_error + conn_state)
     \<Rightarrow> quicvarint \<Rightarrow> httpsfv \<Rightarrow> (go_error \<Rightarrow> string) \<Rightarrow> (string \<Rightarrow> string) \<Rightarrow> dial_env \<Rightarrow> string \<Rightarrow> string
     \<Rightarrow> (go_error option \<times> string option) \<times> Transport option" where
  "runClient parseURL noError h3alpn dialAddr qv sfv ext quoted env url protocolsFlag =
     (let cl = example_Transport (parse_protocols protocolsFlag);
          ((rsp, res), es :: (unit, unit) transport_effect list) =
            fst (Transport_Dial parseURL noError h3alpn dialAddr qv sfv ext quoted env url None cl);
          cl' = snd (Transport_Dial parseURL noError h3alpn dialAddr qv sfv ext quoted env url None cl
                  :: (_ \<times> (unit, unit) transport_effect list) \<times> Transport)
      in (case res of
            Inl err \<Rightarrow> (Some err, None)
          | Inr sess \<Rightarrow>
              (case rsp of
                 None \<Rightarrow> (None, None)
               | Some r \<Rightarrow>
                   if rsp_StatusCode r < 200 \<or> rsp_StatusCode r \<ge> 300
                   then (Some (ENew (''unexpected status: '' @ show_int (rsp_StatusCode r))), None)
                   else (None, Some (sst_ApplicationProtocol (Session_SessionState () sess)))),
          Transport_Close cl'))"

text \<open>
  The client ends without a panic of the deferred \<open>Close\<close>; its own check of the status never fails, and it
  prints the protocol exactly if \<open>Dial\<close> made a session.
\<close>

lemma runClient_result:
  fixes parseURL dialAddr flag url env quoted ext sfv qv h3alpn noError
  defines "dialled \<equiv> Transport_Dial parseURL noError h3alpn dialAddr qv sfv ext quoted env url None
      (example_Transport (parse_protocols flag)) :: (_ \<times> (unit, unit) transport_effect list) \<times> Transport"
  shows "runClient parseURL noError h3alpn dialAddr qv sfv ext quoted env url flag =
    ((case snd (fst (fst dialled)) of
        Inl err \<Rightarrow> (Some err, None)
      | Inr sess \<Rightarrow> (None, Some (ses_applicationProtocol sess))),
     Some ((snd dialled)\<lparr>tr_ctxDone := True\<rparr>))"
proof -
  have a: "response_ok (fst (fst dialled))" "tr_inited (snd dialled)"
    unfolding dialled_def by (rule Transport_Dial_response Transport_Dial_inited)+
  have c: "Transport_Close (snd dialled) = Some ((snd dialled)\<lparr>tr_ctxDone := True\<rparr>)"
    using a(2) by (simp add: Transport_Close_def)
  show ?thesis
  proof (cases "snd (fst (fst dialled))")
    case (Inl err)
    then show ?thesis
      unfolding runClient_def dialled_def [symmetric] Let_def case_prod_beta c by simp
  next
    case (Inr sess)
    then obtain r where "fst (fst (fst dialled)) = Some r" "200 \<le> rsp_StatusCode r" "rsp_StatusCode r < 300"
      using a(1) by (auto simp: response_ok_def)
    with Inr show ?thesis
      unfolding runClient_def dialled_def [symmetric] Let_def case_prod_beta c by (simp add: Session_SessionState_def)
  qed
qed

section \<open>Both examples together\<close>

lemma parse_protocols_nonempty: "'''' \<notin> set (parse_protocols flag)"
  by (simp add: parse_protocols_def)

lemma find_self: "ps \<noteq> [] \<Longrightarrow> find (\<lambda>p. p \<in> set ps) ps = Some (hd ps)"
  by (cases ps) simp_all

text \<open>
  Client and server started with the same list of protocols agree on the first one of the list; and a
  client that was given the hash printed by the server accepts the certificate of that server, also
  of one that was started later in the same week.
\<close>

theorem example_programs_agree:
  assumes "sfv_contract sfv" and "ps = parse_protocols flag" and "ps \<noteq> []"
    and "sfv_MarshalList sfv ps = Inr h" and "sfv_MarshalItem sfv (hd ps) = Inr h'"
    and "\<And>b. visible_ends (cr_RawStdEncoding C b)" and "week now = week now'"
    and "example_certificate ext C now = Inr (der, hash)" and "example_certificate ext C now' = Inr (der', hash')"
  shows "selectProtocol sfv (srv_ApplicationProtocols (example_Server ps :: ('c, 'b, 'u, 's) Server)) [h] = hd ps
    \<and> negotiateProtocol sfv ext quoted (tr_ApplicationProtocols (example_Transport ps)) [h'] = Inr (hd ps)
    \<and> (\<exists>verify. client_tlsConf C insecure hash = (True, Some verify) \<and> verify [der'] = None)"
proof (intro conjI)
  have srv: "srv_ApplicationProtocols (example_Server ps :: ('c, 'b, 'u, 's) Server) = ps"
    by (simp add: example_Server_def newServer_def)
  have u: "sfv_UnmarshalList sfv [h] = Inr (map (\<lambda>p. SfvItem (SfvString p)) ps)"
    using assms(1,4) by (simp add: sfv_contract_def)
  show "selectProtocol sfv (srv_ApplicationProtocols (example_Server ps :: ('c, 'b, 'u, 's) Server)) [h] = hd ps"
    unfolding srv by (simp add: selectProtocol_def u offered_protocols_strings find_self [OF assms(3)])
  show "negotiateProtocol sfv ext quoted (tr_ApplicationProtocols (example_Transport ps)) [h'] = Inr (hd ps)"
    using assms(1,3,5) by (simp add: negotiateProtocol_def sfv_contract_def example_Transport_def)
  have h: "hash = cr_RawStdEncoding C (cr_Sum256 C der)" "der' = der"
    using assms(8,9) certTemplate_week [OF assms(7)] by (auto simp: example_certificate_def split: sum.splits)
  have v: "visible_ends hash" unfolding h by (rule assms(6))
  then have "TrimSpace hash = hash" "hash \<noteq> ''''" by (simp_all add: TrimSpace_id visible_ends_def)
  then show "\<exists>verify. client_tlsConf C insecure hash = (True, Some verify) \<and> verify [der'] = None"
    using h by (simp add: client_tlsConf_def verifyConnection_def)
qed


section \<open>The browser test\<close>

subsection \<open>Its certificate\<close>

text \<open>
  \<open>int64(binary.BigEndian.Uint64(b))\<close>, negated if it is negative; the negation of the least value is
  that value again.
\<close>

definition cert_serial :: "bytes \<Rightarrow> i64" where
  "cert_serial b = (let serial = wrap64 (int (be_value b)) in if serial < 0 then wrap64 (- serial) else serial)"

definition chrome_template :: "i64 \<Rightarrow> int \<Rightarrow> int \<Rightarrow> certificate" where
  "chrome_template serial start end =
     \<lparr>crt_SerialNumber = serial, crt_CommonName = '''', crt_NotBefore = start, crt_NotAfter = end, crt_IsCA = True,
      crt_KeyUsage = [KeyUsageDigitalSignature, KeyUsageCertSign], crt_ExtKeyUsage = [ExtKeyUsageClientAuth, ExtKeyUsageServerAuth],
      crt_BasicConstraintsValid = True, crt_DNSNames = [], crt_IPAddresses = []\<rparr>"

text \<open>The parsed certificate, its bytes (\<open>cert.Raw\<close>), and the key.\<close>

definition generateCert :: "'k crypto \<Rightarrow> int \<Rightarrow> int \<Rightarrow> go_error + certificate \<times> bytes \<times> 'k" where
  "generateCert C start end =
     (case cr_RandRead C 8 of
        Inl err \<Rightarrow> Inl err
      | Inr b \<Rightarrow>
          let certTempl = chrome_template (cert_serial b) start end
          in case cr_GenerateKey C 0 of
               Inl err \<Rightarrow> Inl err
             | Inr caPrivateKey \<Rightarrow>
                 (case cr_CreateCertificate C certTempl certTempl caPrivateKey caPrivateKey of
                    Inl err \<Rightarrow> Inl err
                  | Inr caBytes \<Rightarrow>
                      (case cr_ParseCertificate C caBytes of Inl err \<Rightarrow> Inl err | Inr ca \<Rightarrow> Inr (ca, caBytes, caPrivateKey))))"

text \<open>
  The certificate of the TLS configuration: its chain of bytes, key, and parsed leaf.
  \<open>http3.ConfigureTLSConfig\<close> adds the application protocols of HTTP/3 to it, which are not modelled.
\<close>

definition getTLSConf :: "'k crypto \<Rightarrow> int \<Rightarrow> int \<Rightarrow> go_error + (bytes list \<times> 'k \<times> certificate) tls_Config" where
  "getTLSConf C start end =
     (case generateCert C start end of
        Inl err \<Rightarrow> Inl err
      | Inr (cert, raw, priv) \<Rightarrow> Inr \<lparr>tls_Certificates = [([raw], priv, cert)]\<rparr>)"

text \<open>The serial number is negative for exactly one value of the random bytes.\<close>

lemma cert_serial_negative:
  assumes "be_value b < 2 ^ 64"
  shows "cert_serial b < 0 \<longleftrightarrow> be_value b = 2 ^ 63"
proof -
  let ?v = "int (be_value b)"
  consider "?v < 2 ^ 63" | "?v = 2 ^ 63" | "2 ^ 63 < ?v" by linarith
  then show ?thesis
  proof cases
    case 1
    then have "wrap64 ?v = ?v" by (intro wrap64_id) (simp add: in_i64_def)
    with 1 show ?thesis by (simp add: cert_serial_def)
  next
    case 2
    then show ?thesis by (simp add: cert_serial_def wrap64_def)
  next
    case 3
    have "?v < 2 ^ 64" using assms by simp
    then have "(?v + 2 ^ 63) mod 2 ^ 64 = (?v - 2 ^ 63)"
      using 3 mod_pos_pos_trivial [of "?v - 2 ^ 63" "2 ^ 64"] mod_add_self2 [of "?v - 2 ^ 63" "2 ^ 64"]
      by (simp add: add.commute)
    then have w: "wrap64 ?v = ?v - 2 ^ 64" by (simp add: wrap64_def)
    have "wrap64 (- wrap64 ?v) = 2 ^ 64 - ?v"
      unfolding w using 3 \<open>?v < 2 ^ 64\<close> by (subst wrap64_id) (simp_all add: in_i64_def)
    with w 3 \<open>?v < 2 ^ 64\<close> show ?thesis by (simp add: cert_serial_def)
  qed
qed

subsection \<open>Its page\<close>

definition hex_digit :: "nat \<Rightarrow> char" where
  "hex_digit n = ''0123456789abcdef'' ! n"

text \<open>\<open>fmt\<close>'s \<open>%#v\<close> of a slice of bytes that is not nil: the elements in Go syntax.\<close>

definition go_byte :: "byte \<Rightarrow> string" where
  "go_byte b = ''0x'' @ (if unat b < 16 then [hex_digit (unat b)] else [hex_digit (unat b div 16), hex_digit (unat b mod 16)])"

fun go_elems :: "bytes \<Rightarrow> string" where
  "go_elems [] = ''''"
| "go_elems [b] = go_byte b"
| "go_elems (b # c # bs) = go_byte b @ '', '' @ go_elems (c # bs)"

definition go_syntax :: "bytes \<Rightarrow> string" where
  "go_syntax b = ''[]byte{'' @ go_elems b @ ''}''"

definition formatByteSlice :: "bytes \<Rightarrow> string" where
  "formatByteSlice b = ReplaceAll (ReplaceAll (go_syntax b) ''[]byte{'' ''['') ''}'' '']''"

text \<open>\<open>indexHTML\<close> is the embedded file \<open>index.html\<close>.\<close>

definition chrome_page :: "string \<Rightarrow> bytes \<Rightarrow> bytes \<Rightarrow> string" where
  "chrome_page indexHTML certHash data =
     ReplaceAll (ReplaceAll (ReplaceAll indexHTML ''%%CERTHASH%%'' (formatByteSlice certHash))
       ''%%DATA%%'' (formatByteSlice data)) ''%%TEST%%'' ''unidirectional''"

text \<open>What a browser makes of an array of numbers in hexadecimal notation.\<close>

definition js_digit :: "char \<Rightarrow> nat option" where
  "js_digit c = (case find (\<lambda>n. hex_digit n = c) [0..<16] of None \<Rightarrow> None | Some n \<Rightarrow> Some n)"

fun js_digits :: "nat \<Rightarrow> string \<Rightarrow> nat option" where
  "js_digits acc [] = Some acc"
| "js_digits acc (c # cs) = (case js_digit c of None \<Rightarrow> None | Some d \<Rightarrow> js_digits (acc * 16 + d) cs)"

definition js_number :: "string \<Rightarrow> nat option" where
  "js_number s0 = (let s = dropWhile (\<lambda>c. c = CHR '' '') s0
    in if HasPrefix s ''0x'' \<and> length s > 2 then js_digits 0 (drop 2 s) else None)"

definition js_array :: "string \<Rightarrow> nat list option" where
  "js_array s =
     (if length s < 2 \<or> hd s \<noteq> CHR ''['' \<or> last s \<noteq> CHR '']'' then None
      else let body = butlast (tl s)
           in if body = '''' then Some [] else those (map js_number (split_on CHR '','' body)))"

subsection \<open>The test\<close>

datatype test_result = TestDone | TestFatal string

text \<open>
  \<open>accepted k\<close>: what \<open>AcceptUniStream\<close> and \<open>ReadAll\<close> give for the \<open>k\<close>-th stream; both end, since a
  timeout is set for the accept.
\<close>

fun uni_loop :: "(go_error \<Rightarrow> string) \<Rightarrow> bytes \<Rightarrow> (nat \<Rightarrow> go_error + go_error + bytes) \<Rightarrow> nat \<Rightarrow> nat \<Rightarrow> string option" where
  "uni_loop ext data accepted 0 k = None"
| "uni_loop ext data accepted (Suc n) k =
     (case accepted k of
        Inl err \<Rightarrow> Some (''failed to accept unidirectional stream: '' @ go_Error ext err)
      | Inr (Inl err) \<Rightarrow> Some (''failed to read all data: '' @ go_Error ext err)
      | Inr (Inr rvcd) \<Rightarrow> if rvcd \<noteq> data then Some ''data doesn't match'' else uni_loop ext data accepted n (Suc k))"

definition runUnidirectionalTest :: "(go_error \<Rightarrow> string) \<Rightarrow> bytes \<Rightarrow> (nat \<Rightarrow> go_error + go_error + bytes) \<Rightarrow> bool \<Rightarrow> test_result" where
  "runUnidirectionalTest ext data accepted closed =
     (case uni_loop ext data accepted 5 0 of
        Some msg \<Rightarrow> TestFatal msg
      | None \<Rightarrow> if closed then TestDone else TestFatal ''timed out waiting for the session to be closed'')"

lemma uni_loop_ok: "uni_loop ext data accepted n k = None \<longleftrightarrow> (\<forall>i < n. accepted (k + i) = Inr (Inr data))"
proof (induction n arbitrary: k)
  case (Suc n)
  have "(\<forall>i < Suc n. accepted (k + i) = Inr (Inr data)) \<longleftrightarrow>
      accepted k = Inr (Inr data) \<and> (\<forall>i < n. accepted (Suc k + i) = Inr (Inr data))"
    by (subst All_less_Suc2) simp
  then show ?case using Suc.IH [of "Suc k"] by (auto split: sum.split)
qed simp

lemma browser_test_passes_iff:
  "runUnidirectionalTest ext data accepted closed = TestDone \<longleftrightarrow> (\<forall>i < 5. accepted i = Inr (Inr data)) \<and> closed"
  using uni_loop_ok [of ext data accepted 5 0] by (auto simp: runUnidirectionalTest_def split: option.split)


subsection \<open>The page has the bytes\<close>

lemma hex_digit_set: "n < 16 \<Longrightarrow> hex_digit n \<in> set ''0123456789abcdef''"
  unfolding hex_digit_def by (rule nth_mem) simp

lemma js_digit_hex: "n < 16 \<Longrightarrow> js_digit (hex_digit n) = Some n"
proof -
  have "\<forall>n \<in> set [0..<16]. js_digit (hex_digit n) = Some n" by code_simp
  then show "n < 16 \<Longrightarrow> ?thesis" by simp
qed

lemma byte_nibbles: "unat (b :: byte) div 16 < 16" "unat (b :: byte) mod 16 < 16"
proof -
  have "unat b < 2 ^ LENGTH(8)" by (rule unsigned_less)
  then show "unat b div 16 < 16" by simp
qed simp

definition hex_chars :: string where
  "hex_chars = ''0123456789abcdefx''"

lemma hex_digit_chars: "n < 16 \<Longrightarrow> hex_digit n \<in> set hex_chars"
  using hex_digit_set [of n] by (auto simp: hex_chars_def)

lemma go_byte_set: "set (go_byte b) \<subseteq> set hex_chars"
proof -
  have "CHR ''0'' \<in> set hex_chars" "CHR ''x'' \<in> set hex_chars" by (simp_all add: hex_chars_def)
  then show ?thesis
    using hex_digit_chars [of "unat b"] hex_digit_chars [OF byte_nibbles(1), of b] hex_digit_chars [OF byte_nibbles(2), of b]
    by (simp add: go_byte_def)
qed

lemma go_elems_set: "set (go_elems b) \<subseteq> set hex_chars \<union> {CHR '','', CHR '' ''}"
proof (induction b rule: go_elems.induct)
  case (2 b)
  then show ?case using go_byte_set [of b] by auto
next
  case (3 b c bs)
  then show ?case using go_byte_set [of b] by auto
qed simp

lemma hex_chars_not: "CHR ''['' \<notin> set hex_chars" "CHR ''}'' \<notin> set hex_chars" "CHR '','' \<notin> set hex_chars"
  by (simp_all add: hex_chars_def)

lemma formatByteSlice_eq: "formatByteSlice b = ''['' @ go_elems b @ '']''"
proof -
  have e: "CHR ''['' \<notin> set (go_elems b @ ''}'')" "CHR ''}'' \<notin> set (''['' @ go_elems b)"
    using go_elems_set [of b] hex_chars_not by auto
  have "ReplaceAll (go_syntax b) ''[]byte{'' ''['' = ''['' @ ReplaceAll (go_elems b @ ''}'') ''[]byte{'' ''[''"
    unfolding go_syntax_def by (rule ReplaceAll_match) simp
  also have "ReplaceAll (go_elems b @ ''}'') ''[]byte{'' ''['' = go_elems b @ ''}''"
    by (rule ReplaceAll_absent) (use e(1) in simp_all)
  finally have 1: "ReplaceAll (go_syntax b) ''[]byte{'' ''['' = (''['' @ go_elems b) @ ''}''" by simp
  have "ReplaceAll ((''['' @ go_elems b) @ ''}'') ''}'' '']'' = (''['' @ go_elems b) @ ReplaceAll ''}'' ''}'' '']''"
    by (rule ReplaceAll_keep) (use e(2) in simp_all)
  moreover have "ReplaceAll ''}'' ''}'' '']'' = '']''" using ReplaceAll_match [of "''}''" "''''" "'']''"] by simp
  ultimately show ?thesis by (simp only: formatByteSlice_def 1 append_assoc)
qed

lemma js_number_byte: "js_number (go_byte b) = Some (unat b)"
proof (cases "unat b < 16")
  case True
  then show ?thesis by (simp add: js_number_def go_byte_def HasPrefix_def js_digit_hex)
next
  case False
  then show ?thesis using byte_nibbles [of b]
    by (simp add: js_number_def go_byte_def HasPrefix_def js_digit_hex)
qed

lemma js_number_blank: "js_number (CHR '' '' # s) = js_number s"
  by (simp add: js_number_def)

lemma split_go_elems:
  "split_on CHR '','' (go_elems (b # bs)) = go_byte b # map (\<lambda>c. CHR '' '' # go_byte c) bs"
proof (induction bs arbitrary: b)
  case Nil
  have "CHR '','' \<notin> set (go_byte b)" using go_byte_set [of b] hex_chars_not(3) by blast
  then show ?case by (simp add: split_on_no_sep)
next
  case (Cons c bs)
  have "CHR '','' \<notin> set (go_byte b)" using go_byte_set [of b] hex_chars_not(3) by blast
  then have "split_on CHR '','' (go_elems (b # c # bs)) = go_byte b # split_on CHR '','' (CHR '' '' # go_elems (c # bs))"
    using split_on_append [of "CHR '',''" "go_byte b" "CHR '' '' # go_elems (c # bs)"] by (simp add: split_on_no_sep)
  then show ?case using Cons.IH [of c] by simp
qed

lemma those_map_Some: "those (map (\<lambda>x. Some (f x)) xs) = Some (map f xs)"
  by (induction xs) simp_all

text \<open>
  The array that \<open>formatByteSlice\<close> writes into the page of the browser test reads back as the bytes, for
  every slice; so the browser sends back exactly the data that the test expects.
\<close>

theorem formatByteSlice_round_trip: "js_array (formatByteSlice b) = Some (map unat b)"
proof (cases b)
  case Nil
  then show ?thesis by (simp add: formatByteSlice_eq js_array_def)
next
  case (Cons c bs)
  have "go_elems b \<noteq> ''''" using Cons by (cases bs) (simp_all add: go_byte_def)
  then have "js_array (formatByteSlice b) = those (map js_number (split_on CHR '','' (go_elems b)))"
    by (simp add: formatByteSlice_eq js_array_def Let_def)
  also have "\<dots> = those (map (\<lambda>x. Some (unat x)) b)"
    unfolding Cons split_go_elems by (simp add: js_number_byte js_number_blank comp_def)
  finally show ?thesis by (simp add: those_map_Some)
qed

section \<open>The certificates of the tests\<close>

text \<open>1 January 1990 and 1 January 2100, 00:00 UTC: 7305 and 47482 days after 1 January 1970.\<close>

definition notBefore :: int where "notBefore = 7305 * day"
definition notAfter :: int where "notAfter = 47482 * day"

definition ca_template :: certificate where
  "ca_template = chrome_template 2019 notBefore notAfter"

definition leaf_template :: certificate where
  "leaf_template =
     \<lparr>crt_SerialNumber = 1, crt_CommonName = '''', crt_NotBefore = notBefore, crt_NotAfter = notAfter, crt_IsCA = False,
      crt_KeyUsage = [KeyUsageDigitalSignature], crt_ExtKeyUsage = [ExtKeyUsageClientAuth, ExtKeyUsageServerAuth],
      crt_BasicConstraintsValid = False, crt_DNSNames = [''localhost''], crt_IPAddresses = []\<rparr>"

text \<open>Generating a key, signing a template with a parent and its key, and parsing the result.\<close>

definition sign_certificate ::
  "'k crypto \<Rightarrow> nat \<Rightarrow> certificate \<Rightarrow> (certificate \<times> 'k) option \<Rightarrow> go_error + certificate \<times> bytes \<times> 'k" where
  "sign_certificate C call templ issuer =
     (case cr_GenerateKey C call of
        Inl err \<Rightarrow> Inl err
      | Inr key \<Rightarrow>
          let (parent, parentKey) = (case issuer of None \<Rightarrow> (templ, key) | Some x \<Rightarrow> x)
          in case cr_CreateCertificate C templ parent key parentKey of
               Inl err \<Rightarrow> Inl err
             | Inr raw \<Rightarrow> (case cr_ParseCertificate C raw of Inl err \<Rightarrow> Inl err | Inr cert \<Rightarrow> Inr (cert, raw, key)))"

definition generateCA :: "'k crypto \<Rightarrow> go_error + certificate \<times> bytes \<times> 'k" where
  "generateCA C = sign_certificate C 0 ca_template None"

definition generateLeafCert :: "'k crypto \<Rightarrow> certificate \<Rightarrow> 'k \<Rightarrow> go_error + certificate \<times> bytes \<times> 'k" where
  "generateLeafCert C ca caPrivateKey = sign_certificate C 1 leaf_template (Some (ca, caPrivateKey))"

text \<open>\<open>init\<close>: the pool with the CA and the certificate of the TLS configuration, or the fatal message.\<close>

definition testdata_init :: "(go_error \<Rightarrow> string) \<Rightarrow> 'k crypto \<Rightarrow> string + certificate list \<times> (bytes list \<times> 'k) tls_Config" where
  "testdata_init ext C =
     (case generateCA C of
        Inl err \<Rightarrow> Inl (''failed to generate CA certificate:'' @ go_Error ext err)
      | Inr (ca, _, caPrivateKey) \<Rightarrow>
          (case generateLeafCert C ca caPrivateKey of
             Inl err \<Rightarrow> Inl (''failed to generate leaf certificate:'' @ go_Error ext err)
           | Inr (leaf, raw, leafPrivateKey) \<Rightarrow> Inr ([ca], \<lparr>tls_Certificates = [([raw], leafPrivateKey)]\<rparr>)))"

text \<open>The leaf is signed by the CA in the pool.\<close>

lemma testdata_leaf_signed:
  assumes "testdata_init ext C = Inr (pool, conf)"
  shows "\<exists>ca caKey key raw. pool = [ca] \<and> tls_Certificates conf = [([raw], key)]
    \<and> cr_CreateCertificate C leaf_template ca key caKey = Inr raw \<and> cr_GenerateKey C 0 = Inr caKey \<and> cr_GenerateKey C 1 = Inr key"
  using assms
  by (auto simp: testdata_init_def generateCA_def generateLeafCert_def sign_certificate_def Let_def split: sum.splits)


section \<open>The main functions\<close>

text \<open>
  A run ends with the message of \<open>log.Fatal\<close> or serves the page; \<open>ListenAndServe\<close> returns only errors.
\<close>

definition served ::
  "(go_error \<Rightarrow> string) \<Rightarrow> string \<Rightarrow> string \<times> ((go_error option \<times> 'c list \<times> 'c list) \<times> 'a listen_effect list) \<times> 's \<Rightarrow> string + string" where
  "served ext msg r =
     (case fst (fst (fst (snd r))) of None \<Rightarrow> Inr (fst r) | Some err \<Rightarrow> Inl (msg @ go_Error ext err))"

definition example_server_main ::
  "(go_error \<Rightarrow> string) \<Rightarrow> 'k crypto \<Rightarrow> (string \<Rightarrow> go_error + 'a) \<Rightarrow> ('a \<Rightarrow> go_error option) \<Rightarrow> (quic_Config \<Rightarrow> go_error option) \<Rightarrow> (go_error + 'c \<times> bool) list
     \<Rightarrow> string \<Rightarrow> int \<Rightarrow> string \<Rightarrow> string \<Rightarrow> string + string" where
  "example_server_main ext C resolve listenUDP listen accepted browserIndex now addr protocolsFlag =
     (case example_certificate ext C now of
        Inl msg \<Rightarrow> Inl msg
      | Inr (certDER, certHash) \<Rightarrow>
          served ext ''failed to run server: ''
            (runServer resolve listenUDP listen accepted browserIndex certDER certHash addr (parse_protocols protocolsFlag)
               :: _ \<times> _ \<times> ('c, unit, unit, Session) Server))"

text \<open>The server of the browser test; \<open>data\<close> are its random bytes, the certificate is valid for ten days.\<close>

definition chrome_listen :: "'k tls_Config \<Rightarrow> 'k listen_config" where
  "chrome_listen tlsConf = \<lparr>lc_Addr = ''localhost:12345'', lc_TLSConfig = Some tlsConf, lc_QUICConfig = None\<rparr>"

definition chrome_Server :: "('c, 'b, 'u, 's) Server" where
  "chrome_Server = example_Server []"

definition unidirectional_handler ::
  "httpsfv \<Rightarrow> (go_error \<Rightarrow> string) \<Rightarrow> bytes \<Rightarrow> (nat \<Rightarrow> go_error + go_error + bytes) \<Rightarrow> bool \<Rightarrow> 'c connect_request
     \<Rightarrow> ('c, 'b, 'u, Session) Server \<Rightarrow> (http_reply \<times> test_result option) \<times> ('c, 'b, 'u, Session) Server" where
  "unidirectional_handler sfv ext data accepted closed r s =
     (case Upgrade sfv ext (r\<lparr>rq_customCheck := True\<rparr>) s of
        ((Inl err, es), s') \<Rightarrow> ((Status 500, None), s')
      | ((Inr conn, es), s') \<Rightarrow> ((NoReply, Some (runUnidirectionalTest ext data accepted closed)), s'))"

definition chrome_main ::
  "(go_error \<Rightarrow> string) \<Rightarrow> 'k crypto \<Rightarrow> (string \<Rightarrow> go_error + 'a) \<Rightarrow> ('a \<Rightarrow> go_error option) \<Rightarrow> (quic_Config \<Rightarrow> go_error option) \<Rightarrow> (go_error + 'c \<times> bool) list
     \<Rightarrow> string \<Rightarrow> bytes \<Rightarrow> int \<Rightarrow> string + string" where
  "chrome_main ext C resolve listenUDP listen accepted indexHTML data now =
     (case getTLSConf C now (now + 10 * day) of
        Inl err \<Rightarrow> Inl (go_Error ext err)
      | Inr tlsConf \<Rightarrow>
          let hash = cr_Sum256 C (hd (fst (hd (tls_Certificates tlsConf))))
          in served ext '''' (chrome_page indexHTML hash data,
               ListenAndServe resolve listenUDP listen accepted (chrome_listen tlsConf)
                 (chrome_Server :: ('c, unit, unit, Session) Server)))"

text \<open>The listener of both servers gets datagrams and partial delivery, whatever their QUIC configuration.\<close>

lemma example_listeners:
  "serve_quicConf (lc_QUICConfig (example_listen addr cert)) = default_quic_Config"
  "serve_quicConf (lc_QUICConfig (chrome_listen tlsConf)) = default_quic_Config"
  by (simp_all add: example_listen_def chrome_listen_def serve_quicConf_def default_quic_Config_def)

end
